(* ===== verification/Prelude.thy ===== *)
theory Prelude
  imports Main "HOL-Library.Word"
begin

text \<open>
  Shared vocabulary of the development: the machine integers of
  \<^verbatim>\<open>src/kernel/types.h\<close>, the limits of \<^verbatim>\<open>src/kernel/param.h\<close>, the outcome type in which
  every kernel operation is written (a result with the next state, a panic, or a sleep on
  a channel), the loops of the C code as combinators over that type, and the little-endian
  layout of integers in byte arrays. Nothing here is specific to one component.
\<close>

unbundle bit_operations_syntax

named_theorems param_defs \<open>unfolding of the limits of param.h\<close>
named_theorems outcome_simps \<open>simplification of sequenced kernel operations\<close>
named_theorems byte_simps \<open>reading and writing integers in byte arrays\<close>

section \<open>Machine integers\<close>

text \<open>The typedefs of \<^verbatim>\<open>types.h\<close>: unsigned integers at their width.\<close>

type_synonym uchar = "8 word"
type_synonym ushort = "16 word"
type_synonym uint = "32 word"
type_synonym uint64 = "64 word"

section \<open>Limits\<close>

definition NPROC :: nat where [param_defs]: "NPROC = 64"
definition NCPU :: nat where [param_defs]: "NCPU = 8"
definition NOFILE :: nat where [param_defs]: "NOFILE = 16"
definition NFILE :: nat where [param_defs]: "NFILE = 100"
definition NINODE :: nat where [param_defs]: "NINODE = 50"
definition NDEV :: nat where [param_defs]: "NDEV = 10"
definition ROOTDEV :: uint where [param_defs]: "ROOTDEV = 1"
definition MAXARG :: nat where [param_defs]: "MAXARG = 32"
definition MAXOPBLOCKS :: nat where [param_defs]: "MAXOPBLOCKS = 10"
definition LOGSIZE :: nat where [param_defs]: "LOGSIZE = MAXOPBLOCKS * 3"
definition NBUF :: nat where [param_defs]: "NBUF = MAXOPBLOCKS * 3"
definition FSSIZE :: nat where [param_defs]: "FSSIZE = 2000"
definition MAXPATH :: nat where [param_defs]: "MAXPATH = 128"
definition USERSTACK :: nat where [param_defs]: "USERSTACK = 1"

section \<open>Outcomes of kernel operations\<close>

text \<open>
  What a process can sleep on. The code passes the address of some object to
  \<^verbatim>\<open>sleep\<close> and \<^verbatim>\<open>wakeup\<close>; a channel names that object.
\<close>

datatype chan =
    ChanLog                \<comment> \<open>\<open>&log\<close>\<close>
  | ChanTicks              \<comment> \<open>\<open>&ticks\<close>\<close>
  | ChanProc nat           \<comment> \<open>a \<open>struct proc\<close>, in \<open>wait\<close>\<close>
  | ChanBufLock nat        \<comment> \<open>the sleep lock of a buffer\<close>
  | ChanInodeLock nat      \<comment> \<open>the sleep lock of an inode table entry\<close>
  | ChanPipeRead uint64    \<comment> \<open>\<open>&pi->nread\<close>\<close>
  | ChanPipeWrite uint64   \<comment> \<open>\<open>&pi->nwrite\<close>\<close>
  | ChanCons               \<comment> \<open>\<open>&cons.r\<close>\<close>
  | ChanUart               \<comment> \<open>\<open>&uart_tx_r\<close>\<close>
  | ChanDiskFree           \<comment> \<open>\<open>&disk.free[0]\<close>\<close>
  | ChanBuf nat            \<comment> \<open>a \<open>struct buf\<close>, in the disk driver\<close>
  | ChanMsg nat            \<comment> \<open>\<open>&msgtable.queues[i]\<close>\<close>

text \<open>
  An operation returns a value in a next state, panics with the message of the code's
  \<^verbatim>\<open>panic\<close> call, gives up the processor in \<^verbatim>\<open>sleep\<close> (with the channel and the state at
  that moment), or is stuck: it leaves the behaviour C defines (an access outside an array)
  or never comes back from a loop. All but the first end the operations around them.
\<close>

datatype ('a, 's) outcome =
    Ret 'a 's
  | Panic string
  | Sleep chan 's
  | Stuck

fun bindK :: "('a, 's) outcome \<Rightarrow> ('a \<Rightarrow> 's \<Rightarrow> ('b, 's) outcome) \<Rightarrow> ('b, 's) outcome" where
  "bindK (Ret a s) f = f a s"
| "bindK (Panic m) f = Panic m"
| "bindK (Sleep c s) f = Sleep c s"
| "bindK Stuck f = Stuck"

text \<open>A \<open>for\<close> loop with no early exit.\<close>

primrec forK :: "'i list \<Rightarrow> ('i \<Rightarrow> 's \<Rightarrow> (unit, 's) outcome) \<Rightarrow> 's \<Rightarrow> (unit, 's) outcome" where
  "forK [] f s = Ret () s"
| "forK (i # is) f s = bindK (f i s) (\<lambda>_ s. forK is f s)"

text \<open>
  A \<open>for\<close> loop that the body may leave with a \<open>return\<close> (\<open>Some\<close>); falling off its end
  is \<open>None\<close>.
\<close>

primrec findK ::
  "'i list \<Rightarrow> ('i \<Rightarrow> 's \<Rightarrow> ('a option, 's) outcome) \<Rightarrow> 's \<Rightarrow> ('a option, 's) outcome" where
  "findK [] f s = Ret None s"
| "findK (i # is) f s =
     bindK (f i s) (\<lambda>r s. case r of Some a \<Rightarrow> Ret (Some a) s | None \<Rightarrow> findK is f s)"

text \<open>The first index of an array whose element satisfies a test, as a scan from 0 finds it.\<close>

fun scan_from :: "('a \<Rightarrow> bool) \<Rightarrow> nat \<Rightarrow> 'a list \<Rightarrow> nat option" where
  "scan_from P i [] = None"
| "scan_from P i (x # xs) = (if P x then Some i else scan_from P (Suc i) xs)"

definition scan :: "('a \<Rightarrow> bool) \<Rightarrow> 'a list \<Rightarrow> nat option" where
  "scan P xs = scan_from P 0 xs"

text \<open>Total correctness of one operation: it returns, and its result satisfies \<open>P\<close>.\<close>

fun okK :: "('a, 's) outcome \<Rightarrow> ('a \<Rightarrow> 's \<Rightarrow> bool) \<Rightarrow> bool" where
  "okK (Ret a s) P = P a s"
| "okK (Panic m) P = False"
| "okK (Sleep c s) P = False"
| "okK Stuck P = False"

text \<open>
  Preservation: whatever state the operation leaves behind, by returning or by going to
  sleep, satisfies \<open>I\<close>.
\<close>

fun keepsK :: "('s \<Rightarrow> bool) \<Rightarrow> ('a, 's) outcome \<Rightarrow> bool" where
  "keepsK I (Ret a s) = I s"
| "keepsK I (Panic m) = True"
| "keepsK I (Sleep c s) = I s"
| "keepsK I Stuck = True"

section \<open>Integers in byte arrays\<close>

text \<open>
  RISC-V is little-endian: the code reads and writes \<open>short\<close>, \<open>uint\<close> and \<open>uint64\<close> fields
  of structures laid over byte arrays through pointer casts.
\<close>

definition get16 :: "uchar list \<Rightarrow> nat \<Rightarrow> ushort" where
  "get16 bs k = ucast (bs ! k) OR push_bit 8 (ucast (bs ! (k + 1)))"

definition put16 :: "nat \<Rightarrow> ushort \<Rightarrow> uchar list \<Rightarrow> uchar list" where
  "put16 k v bs = bs[k := ucast v, k + 1 := ucast (drop_bit 8 v)]"

definition get32 :: "uchar list \<Rightarrow> nat \<Rightarrow> uint" where
  "get32 bs k = ucast (bs ! k) OR push_bit 8 (ucast (bs ! (k + 1)))
     OR push_bit 16 (ucast (bs ! (k + 2))) OR push_bit 24 (ucast (bs ! (k + 3)))"

definition put32 :: "nat \<Rightarrow> uint \<Rightarrow> uchar list \<Rightarrow> uchar list" where
  "put32 k v bs = bs[k := ucast v, k + 1 := ucast (drop_bit 8 v),
     k + 2 := ucast (drop_bit 16 v), k + 3 := ucast (drop_bit 24 v)]"

text \<open>\<open>memmove\<close> out of and into an array at an offset.\<close>

definition get_bytes :: "nat \<Rightarrow> nat \<Rightarrow> uchar list \<Rightarrow> uchar list" where
  "get_bytes k n bs = take n (drop k bs)"

definition put_bytes :: "nat \<Rightarrow> uchar list \<Rightarrow> uchar list \<Rightarrow> uchar list" where
  "put_bytes k src bs = take k bs @ src @ drop (k + length src) bs"

section \<open>Lemmas on outcomes and loops\<close>

lemma bindK_cong [fundef_cong]:
  "m = m' \<Longrightarrow> (\<And>a s. m' = Ret a s \<Longrightarrow> f a s = f' a s) \<Longrightarrow> bindK m f = bindK m' f'"
  by (cases m') auto

lemma bindK_eq_Ret [outcome_simps]:
  "bindK m f = Ret b t \<longleftrightarrow> (\<exists>a s. m = Ret a s \<and> f a s = Ret b t)"
  by (cases m) auto

lemma bindK_eq_Panic [outcome_simps]:
  "bindK m f = Panic e \<longleftrightarrow> m = Panic e \<or> (\<exists>a s. m = Ret a s \<and> f a s = Panic e)"
  by (cases m) auto

lemma bindK_assoc: "bindK (bindK m f) g = bindK m (\<lambda>a s. bindK (f a s) g)"
  by (cases m) auto

lemma okK_iff: "okK m P \<longleftrightarrow> (\<exists>a s. m = Ret a s \<and> P a s)"
  by (cases m) auto

lemma okK_bindK [outcome_simps]: "okK (bindK m f) P \<longleftrightarrow> okK m (\<lambda>a s. okK (f a s) P)"
  by (cases m) auto

lemma okK_bindI:
  "okK m P \<Longrightarrow> (\<And>a s. P a s \<Longrightarrow> okK (f a s) Q) \<Longrightarrow> okK (bindK m f) Q"
  by (cases m) auto

lemma okK_weaken: "okK m P \<Longrightarrow> (\<And>a s. m = Ret a s \<Longrightarrow> P a s \<Longrightarrow> Q a s) \<Longrightarrow> okK m Q"
  by (cases m) auto

lemma okK_conj: "okK m P \<Longrightarrow> okK m Q \<Longrightarrow> okK m (\<lambda>a s. P a s \<and> Q a s)"
  by (cases m) auto

lemma okK_E: "okK m P \<Longrightarrow> (\<And>a s. m = Ret a s \<Longrightarrow> P a s \<Longrightarrow> R) \<Longrightarrow> R"
  by (cases m) auto

lemma keepsK_bindI [intro]:
  "keepsK I m \<Longrightarrow> (\<And>a s. m = Ret a s \<Longrightarrow> I s \<Longrightarrow> keepsK I (f a s)) \<Longrightarrow> keepsK I (bindK m f)"
  by (cases m) auto

lemma keepsK_weaken: "keepsK I m \<Longrightarrow> (\<And>s. I s \<Longrightarrow> J s) \<Longrightarrow> keepsK J m"
  by (cases m) auto

lemma keepsK_forK:
  "I s \<Longrightarrow> (\<And>i s. i \<in> set is \<Longrightarrow> I s \<Longrightarrow> keepsK I (f i s)) \<Longrightarrow> keepsK I (forK is f s)"
  by (induction "is" arbitrary: s) auto

lemma keepsK_findK:
  "I s \<Longrightarrow> (\<And>i s. i \<in> set is \<Longrightarrow> I s \<Longrightarrow> keepsK I (f i s)) \<Longrightarrow> keepsK I (findK is f s)"
  by (induction "is" arbitrary: s) (auto split: option.splits)

lemma keepsK_Ret: "keepsK I m \<Longrightarrow> m = Ret a s \<Longrightarrow> I s"
  by simp

text \<open>The rule of a counted loop: an invariant indexed by the iteration.\<close>

lemma forK_upt_ok:
  assumes "i \<le> n" and "I i s"
    and "\<And>k s. i \<le> k \<Longrightarrow> k < n \<Longrightarrow> I k s \<Longrightarrow> okK (f k s) (\<lambda>_ s'. I (Suc k) s')"
  shows "okK (forK [i..<n] f s) (\<lambda>_ s'. I n s')"
  using assms
proof (induction "n - i" arbitrary: i s)
  case 0
  then show ?case by simp
next
  case (Suc m)
  then have lt: "i < n" by simp
  have "okK (f i s) (\<lambda>_ s'. I (Suc i) s')" using Suc.prems lt by simp
  then obtain u s1 where fi: "f i s = Ret u s1" and I1: "I (Suc i) s1" by (auto simp: okK_iff)
  have "okK (forK [Suc i..<n] f s1) (\<lambda>_ s'. I n s')"
    using Suc lt I1 by (intro Suc.hyps) auto
  then show ?case using lt by (simp add: upt_conv_Cons fi)
qed

lemma forK_append: "forK (xs @ ys) f s = bindK (forK xs f s) (\<lambda>_ s. forK ys f s)"
  by (induction xs arbitrary: s) (auto simp: bindK_assoc)

text \<open>What a linear scan finds.\<close>

lemma scan_from_SomeD:
  "scan_from P i xs = Some j \<Longrightarrow>
     i \<le> j \<and> j - i < length xs \<and> P (xs ! (j - i)) \<and> (\<forall>k < j - i. \<not> P (xs ! k))"
proof (induction xs arbitrary: i)
  case Nil
  then show ?case by simp
next
  case (Cons x xs)
  show ?case
  proof (cases "P x")
    case True
    with Cons.prems show ?thesis by simp
  next
    case False
    with Cons have h: "Suc i \<le> j \<and> j - Suc i < length xs \<and> P (xs ! (j - Suc i)) \<and>
        (\<forall>k < j - Suc i. \<not> P (xs ! k))" by simp
    then have "j - i = Suc (j - Suc i)" by arith
    with h False show ?thesis by (auto simp: nth_Cons split: nat.splits)
  qed
qed

lemma scan_from_None: "scan_from P i xs = None \<longleftrightarrow> (\<forall>x \<in> set xs. \<not> P x)"
  by (induction xs arbitrary: i) auto

lemma scan_SomeD:
  assumes "scan P xs = Some j"
  shows "j < length xs" and "P (xs ! j)" and "\<And>k. k < j \<Longrightarrow> \<not> P (xs ! k)"
  using scan_from_SomeD [of P 0 xs j] assms by (auto simp: scan_def)

lemma scan_None: "scan P xs = None \<longleftrightarrow> (\<forall>i < length xs. \<not> P (xs ! i))"
  by (simp add: scan_def scan_from_None all_set_conv_all_nth)

lemma scan_from_map: "scan_from P i xs = scan_from (\<lambda>b. b) i (map P xs)"
  by (induction xs arbitrary: i) auto

lemma scan_map_cong: "map P xs = map Q ys \<Longrightarrow> scan P xs = scan Q ys"
  unfolding scan_def by (metis scan_from_map)

lemma scan_Some_iff:
  "scan P xs = Some j \<longleftrightarrow> j < length xs \<and> P (xs ! j) \<and> (\<forall>k < j. \<not> P (xs ! k))"
proof
  assume "scan P xs = Some j"
  then show "j < length xs \<and> P (xs ! j) \<and> (\<forall>k < j. \<not> P (xs ! k))" by (auto dest: scan_SomeD)
next
  assume h: "j < length xs \<and> P (xs ! j) \<and> (\<forall>k < j. \<not> P (xs ! k))"
  then obtain i where i: "scan P xs = Some i" by (cases "scan P xs") (auto simp: scan_None)
  from scan_SomeD [OF i] h have "i = j" by (metis linorder_neqE_nat)
  with i show "scan P xs = Some j" by simp
qed

section \<open>Lemmas on words\<close>

lemma nth_upd: "xs[i := v] ! j = (if i = j \<and> j < length xs then v else xs ! j)"
  by (cases "i = j") (auto simp: not_less list_update_beyond)

lemma unat_less_64: "unat (x :: uint64) < 2 ^ 64"
  by (rule order_less_le_trans [OF unsigned_less]) simp

lemma unat_less_32: "unat (x :: uint) < 2 ^ 32"
  by (rule order_less_le_trans [OF unsigned_less]) simp

section \<open>Lemmas on byte arrays\<close>

lemma length_put16 [simp]: "length (put16 k v bs) = length bs"
  by (simp add: put16_def)

lemma length_put32 [simp]: "length (put32 k v bs) = length bs"
  by (simp add: put32_def)

lemma length_put_bytes [simp]:
  "k + length src \<le> length bs \<Longrightarrow> length (put_bytes k src bs) = length bs"
  by (simp add: put_bytes_def)

lemma length_get_bytes [simp]: "k + n \<le> length bs \<Longrightarrow> length (get_bytes k n bs) = n"
  by (simp add: get_bytes_def)

lemma ushort_from_bytes:
  fixes v :: ushort
  shows "ucast (ucast v :: uchar) OR push_bit 8 (ucast (ucast (drop_bit 8 v) :: uchar)) = v"
    (is "?w = v")
proof (rule bit_word_eqI)
  fix n assume "n < LENGTH(16)"
  then show "bit ?w n = bit v n"
    by (cases "n < 8") (auto simp: bit_simps)
qed

lemma uint_from_bytes:
  fixes v :: uint
  shows "ucast (ucast v :: uchar) OR push_bit 8 (ucast (ucast (drop_bit 8 v) :: uchar))
    OR push_bit 16 (ucast (ucast (drop_bit 16 v) :: uchar))
    OR push_bit 24 (ucast (ucast (drop_bit 24 v) :: uchar)) = v" (is "?w = v")
proof (rule bit_word_eqI)
  fix n assume "n < LENGTH(32)"
  then show "bit ?w n = bit v n"
    by (cases "n < 8"; cases "n < 16"; cases "n < 24") (auto simp: bit_simps)
qed

lemma get16_put16 [byte_simps]: "k + 2 \<le> length bs \<Longrightarrow> get16 (put16 k v bs) k = v"
  by (simp add: get16_def put16_def ushort_from_bytes)

lemma get32_put32 [byte_simps]: "k + 4 \<le> length bs \<Longrightarrow> get32 (put32 k v bs) k = v"
  by (simp add: get32_def put32_def uint_from_bytes)

text \<open>Writes do not disturb integers they do not overlap.\<close>

lemma nth_put16_other: "i \<noteq> k \<Longrightarrow> i \<noteq> k + 1 \<Longrightarrow> put16 k v bs ! i = bs ! i"
  by (simp add: put16_def)

lemma nth_put32_other: "i < k \<or> k + 4 \<le> i \<Longrightarrow> put32 k v bs ! i = bs ! i"
  by (auto simp: put32_def)

lemma get32_put32_other [byte_simps]:
  "j + 4 \<le> k \<or> k + 4 \<le> j \<Longrightarrow> get32 (put32 k v bs) j = get32 bs j"
  by (auto simp: get32_def nth_put32_other)

lemma get16_put32_other [byte_simps]:
  "j + 2 \<le> k \<or> k + 4 \<le> j \<Longrightarrow> get16 (put32 k v bs) j = get16 bs j"
  by (auto simp: get16_def nth_put32_other)

lemma get16_put16_other [byte_simps]:
  "j + 2 \<le> k \<or> k + 2 \<le> j \<Longrightarrow> get16 (put16 k v bs) j = get16 bs j"
  by (auto simp: get16_def nth_put16_other)

lemma get32_put16_other [byte_simps]:
  "j + 4 \<le> k \<or> k + 2 \<le> j \<Longrightarrow> get32 (put16 k v bs) j = get32 bs j"
  by (auto simp: get32_def nth_put16_other)

lemma get_put_bytes [byte_simps]:
  "k + length src \<le> length bs \<Longrightarrow> get_bytes k (length src) (put_bytes k src bs) = src"
  by (simp add: get_bytes_def put_bytes_def)

lemma nth_put_bytes:
  assumes "k + length src \<le> length bs" and "i < length bs"
  shows "put_bytes k src bs ! i = (if k \<le> i \<and> i < k + length src then src ! (i - k) else bs ! i)"
  using assms by (auto simp: put_bytes_def nth_append min_def)

lemma nth_get_bytes: "i < n \<Longrightarrow> k + n \<le> length bs \<Longrightarrow> get_bytes k n bs ! i = bs ! (k + i)"
  by (simp add: get_bytes_def)

end
