(* ===== verification/CStrings.thy ===== *)
theory CStrings
  imports Prelude
begin

text \<open>
  The string routines of \<^verbatim>\<open>src/kernel/string.c\<close> and of the user library
  \<^verbatim>\<open>src/user/ulib.c\<close>. Routines that may be called on overlapping objects
  (\<^verbatim>\<open>memset\<close>, \<^verbatim>\<open>memmove\<close>) work on a byte memory; routines that only read through a pointer
  take what can be read through it, a function from offsets to bytes; \<^verbatim>\<open>strncpy\<close> and
  \<^verbatim>\<open>safestrcpy\<close> return the bytes they store from their destination on.
\<close>

type_synonym mem = "uint64 \<Rightarrow> uchar"
type_synonym cstr = "nat \<Rightarrow> uchar"

abbreviation advance :: "cstr \<Rightarrow> cstr" where
  "advance p \<equiv> \<lambda>k. p (Suc k)"

section \<open>Kernel routines\<close>

text \<open>The loop of \<^verbatim>\<open>memset\<close>, after \<open>n\<close> iterations.\<close>

primrec memset :: "uint64 \<Rightarrow> uchar \<Rightarrow> nat \<Rightarrow> mem \<Rightarrow> mem" where
  "memset dst c 0 m = m"
| "memset dst c (Suc n) m = (memset dst c n m)(dst + of_nat n := c)"

primrec memcmp :: "cstr \<Rightarrow> cstr \<Rightarrow> nat \<Rightarrow> int" where
  "memcmp s1 s2 0 = 0"
| "memcmp s1 s2 (Suc n) =
     (if s1 0 \<noteq> s2 0 then int (unat (s1 0)) - int (unat (s2 0))
      else memcmp (advance s1) (advance s2) n)"

text \<open>The two copying loops: upwards, and downwards from one past the end.\<close>

primrec copy_up :: "uint64 \<Rightarrow> uint64 \<Rightarrow> nat \<Rightarrow> mem \<Rightarrow> mem" where
  "copy_up d s 0 m = m"
| "copy_up d s (Suc n) m = copy_up (d + 1) (s + 1) n (m(d := m s))"

primrec copy_down :: "uint64 \<Rightarrow> uint64 \<Rightarrow> nat \<Rightarrow> mem \<Rightarrow> mem" where
  "copy_down d s 0 m = m"
| "copy_down d s (Suc n) m = copy_down (d - 1) (s - 1) n (m(d - 1 := m (s - 1)))"

definition memmove :: "uint64 \<Rightarrow> uint64 \<Rightarrow> uint \<Rightarrow> mem \<Rightarrow> mem" where
  "memmove dst src n m =
     (if n = 0 then m
      else if src < dst \<and> src + ucast n > dst
      then copy_down (dst + ucast n) (src + ucast n) (unat n) m
      else copy_up dst src (unat n) m)"

definition memcpy :: "uint64 \<Rightarrow> uint64 \<Rightarrow> uint \<Rightarrow> mem \<Rightarrow> mem" where
  "memcpy dst src n m = memmove dst src n m"

primrec strncmp :: "cstr \<Rightarrow> cstr \<Rightarrow> nat \<Rightarrow> int" where
  "strncmp p q 0 = 0"
| "strncmp p q (Suc n) =
     (if p 0 \<noteq> 0 \<and> p 0 = q 0 then strncmp (advance p) (advance q) n
      else int (unat (p 0)) - int (unat (q 0)))"

primrec strncpy :: "cstr \<Rightarrow> nat \<Rightarrow> uchar list" where
  "strncpy t 0 = []"
| "strncpy t (Suc n) = t 0 # (if t 0 = 0 then replicate n 0 else strncpy (advance t) n)"

primrec safestrcpy_loop :: "cstr \<Rightarrow> nat \<Rightarrow> uchar list" where
  "safestrcpy_loop t 0 = [0]"
| "safestrcpy_loop t (Suc n) = t 0 # (if t 0 = 0 then [0] else safestrcpy_loop (advance t) n)"

definition safestrcpy :: "cstr \<Rightarrow> nat \<Rightarrow> uchar list" where
  "safestrcpy t n = (if n = 0 then [] else safestrcpy_loop t (n - 1))"

text \<open>\<open>None\<close>: the array ends before a NUL is found, so the loop reads past it.\<close>

fun strlen :: "uchar list \<Rightarrow> nat option" where
  "strlen [] = None"
| "strlen (c # s) = (if c = 0 then Some 0 else map_option Suc (strlen s))"

section \<open>User library\<close>

fun strcpy :: "uchar list \<Rightarrow> uchar list option" where
  "strcpy [] = None"
| "strcpy (c # t) = (if c = 0 then Some [0] else map_option (Cons c) (strcpy t))"

fun strcmp :: "uchar list \<Rightarrow> uchar list \<Rightarrow> int option" where
  "strcmp (c # p) (d # q) =
     (if c \<noteq> 0 \<and> c = d then strcmp p q else Some (int (unat c) - int (unat d)))"
| "strcmp p q = None"

text \<open>\<^verbatim>\<open>strchr\<close>: the offset of the first occurrence, or null.\<close>

fun strchr :: "uchar list \<Rightarrow> uchar \<Rightarrow> nat option option" where
  "strchr [] c = None"
| "strchr (x # s) c =
     (if x = 0 then Some None
      else if x = c then Some (Some 0)
      else map_option (map_option Suc) (strchr s c))"

fun atoi_loop :: "int \<Rightarrow> uchar list \<Rightarrow> int option" where
  "atoi_loop n [] = None"
| "atoi_loop n (c # s) =
     (if 48 \<le> c \<and> c \<le> 57 then atoi_loop (n * 10 + int (unat c) - 48) s else Some n)"

definition atoi :: "uchar list \<Rightarrow> int option" where
  "atoi s = atoi_loop 0 s"

definition umemmove :: "uint64 \<Rightarrow> uint64 \<Rightarrow> int \<Rightarrow> mem \<Rightarrow> mem" where
  "umemmove vdst vsrc n m =
     (if vsrc > vdst then copy_up vdst vsrc (nat n) m
      else copy_down (vdst + of_int n) (vsrc + of_int n) (nat n) m)"

section \<open>Block moves\<close>

lemma memset_apply:
  "n \<le> 2 ^ 64 \<Longrightarrow> memset dst c n m a = (if unat (a - dst) < n then c else m a)"
proof (induction n)
  case 0
  then show ?case by simp
next
  case (Suc n)
  have "a = dst + of_nat n \<longleftrightarrow> unat (a - dst) = n"
  proof
    assume "a = dst + of_nat n"
    then show "unat (a - dst) = n" using Suc.prems by (simp add: unat_of_nat)
  next
    assume "unat (a - dst) = n"
    then have "of_nat n = a - dst" by auto
    then show "a = dst + of_nat n" by simp
  qed
  with Suc show ?case by auto
qed

lemma unat_minus_Suc:
  fixes a d :: uint64
  assumes "a \<noteq> d"
  shows "unat (a - d) = Suc (unat (a - (d + 1)))"
proof -
  have e: "a - (d + 1) = (a - d) - 1" by (simp add: algebra_simps)
  have "unat ((a - d) - 1) = unat (a - d) - 1"
    using assms by (intro unat_minus_one) simp
  moreover have "0 < unat (a - d)" using assms by (simp add: unat_gt_0)
  ultimately show ?thesis unfolding e by simp
qed

lemma copy_up_self: "copy_up d d n m = m"
  by (induction n arbitrary: d) simp_all

lemma copy_down_self: "copy_down d d n m = m"
  by (induction n arbitrary: d) simp_all

lemma copy_up_apart:
  assumes "n \<le> unat (d - s)"
  shows "copy_up d s n m a = (if unat (a - d) < n then m (s + (a - d)) else m a)"
  using assms
proof (induction n arbitrary: d s m)
  case 0
  then show ?case by simp
next
  case (Suc n)
  let ?m = "m(d := m s)"
  have far: "n \<le> unat (d + 1 - (s + 1))" using Suc.prems by simp
  have e: "s + 1 + (a - (d + 1)) = s + (a - d)" by simp
  have IH: "copy_up (d + 1) (s + 1) n ?m a =
      (if unat (a - (d + 1)) < n then ?m (s + (a - d)) else ?m a)"
    using Suc.IH [OF far, of ?m] unfolding e .
  show ?case
  proof (cases "a = d")
    case True
    then have "s + (a - d) = s" by simp
    then show ?thesis using IH True by simp
  next
    case False
    have sx: "unat (a - d) = Suc (unat (a - (d + 1)))" by (rule unat_minus_Suc [OF False])
    have "s + (a - d) \<noteq> d" if "unat (a - (d + 1)) < n"
    proof
      assume "s + (a - d) = d"
      then have "a - d = d - s" by (simp add: algebra_simps)
      then have "unat (d - s) \<le> n" using sx that by simp
      with Suc.prems show False by simp
    qed
    then show ?thesis using IH False sx by simp
  qed
qed

lemma copy_up_apply:
  assumes "d = s \<or> n \<le> unat (d - s)"
  shows "copy_up d s n m a = (if unat (a - d) < n then m (s + (a - d)) else m a)"
  using assms copy_up_apart [of n d s m a] by (auto simp: copy_up_self)

lemma copy_down_apart:
  assumes "n \<le> unat (s - d)"
  shows "copy_down d s n m a =
    (if unat (a - (d - of_nat n)) < n then m (s - of_nat n + (a - (d - of_nat n))) else m a)"
  using assms
proof (induction n arbitrary: d s m)
  case 0
  then show ?case by simp
next
  case (Suc n)
  let ?m = "m(d - 1 := m (s - 1))"
  define b where "b = a - (d - of_nat (Suc n))"
  have far: "n \<le> unat (s - 1 - (d - 1))" using Suc.prems by simp
  have c: "d - 1 - of_nat n = d - of_nat (Suc n)" "s - 1 - of_nat n = s - of_nat (Suc n)"
    by (simp_all add: algebra_simps)
  have IH: "copy_down (d - 1) (s - 1) n ?m a =
      (if unat b < n then ?m (s - of_nat (Suc n) + b) else ?m a)"
    using Suc.IH [OF far, of ?m] unfolding c b_def .
  have lt: "n < 2 ^ 64" using Suc.prems unat_less_64 [of "s - d"] by simp
  have a_eq: "a = d - of_nat (Suc n) + b" by (simp add: b_def)
  have last: "a = d - 1 \<longleftrightarrow> unat b = n"
  proof
    assume "a = d - 1"
    then have "b = of_nat n" by (simp add: b_def)
    then show "unat b = n" using lt by (simp add: unat_of_nat)
  next
    assume "unat b = n"
    then have "b = of_nat n" by auto
    then show "a = d - 1" by (simp add: a_eq)
  qed
  have clash: "s - of_nat (Suc n) + b \<noteq> d - 1" if "unat b < n"
  proof
    assume "s - of_nat (Suc n) + b = d - 1"
    then have "s - d = of_nat n - b" by (simp add: algebra_simps)
    moreover have "unat (of_nat n - b) = n - unat b"
      using that lt by (simp add: unat_sub word_le_nat_alt unat_of_nat)
    ultimately have "unat (s - d) \<le> n" by simp
    with Suc.prems show False by simp
  qed
  show ?case
  proof (cases "unat b = n")
    case True
    then have "b = of_nat n" by auto
    then have "s - of_nat (Suc n) + b = s - 1" by simp
    with IH True last show ?thesis by (simp add: b_def)
  next
    case False
    with last have "a \<noteq> d - 1" by simp
    with IH False clash have "copy_down (d - 1) (s - 1) n ?m a =
        (if unat b < Suc n then m (s - of_nat (Suc n) + b) else m a)"
      by (simp add: less_Suc_eq)
    then show ?thesis unfolding b_def by simp
  qed
qed

lemma copy_down_apply:
  assumes "d = s \<or> n \<le> unat (s - d)"
  shows "copy_down d s n m a =
    (if unat (a - (d - of_nat n)) < n then m (s - of_nat n + (a - (d - of_nat n))) else m a)"
  using assms copy_down_apart [of n s d m a] by (auto simp: copy_down_self)

text \<open>
  C16: \<^verbatim>\<open>memmove\<close> copies correctly whether or not the two regions overlap: every byte of the
  destination holds what the source held before the call, and nothing else changes. The
  regions must lie inside the address space.
\<close>

theorem memmove_correct:
  assumes "unat src + unat n < 2 ^ 64" and "unat dst + unat n < 2 ^ 64"
  shows "memmove dst src n m a =
    (if unat (a - dst) < unat n then m (src + (a - dst)) else m a)"
proof (cases "n = 0")
  case True
  then show ?thesis by (simp add: memmove_def)
next
  case nz: False
  have un: "unat (ucast n :: uint64) = unat n"
    by (simp add: unsigned_ucast_eq take_bit_nat_eq_self order_less_trans [OF unsigned_less])
  have sn: "unat (src + ucast n) = unat src + unat n"
    using assms(1) un by (simp add: unat_word_ariths)
  show ?thesis
  proof (cases "src < dst \<and> src + ucast n > dst")
    case True
    then have "unat src < unat dst" by (simp add: word_less_nat_alt)
    then have "unat (src - dst) = 2 ^ 64 - (unat dst - unat src)"
      by (simp add: unat_sub_if_size word_size)
    then have far: "unat n \<le> unat (src + ucast n - (dst + ucast n))" using assms(2) by simp
    have e: "x + ucast n - of_nat (unat n) = x" for x :: uint64 using un by (simp add: un [symmetric])
    show ?thesis
      using True nz copy_down_apply [of "dst + ucast n" "src + ucast n" "unat n" m a] far
      unfolding e by (simp add: memmove_def)
  next
    case False
    have "dst = src \<or> unat n \<le> unat (dst - src)"
    proof (cases "src < dst")
      case True
      with False have "src + ucast n \<le> dst" by (simp add: not_less)
      then have "unat src + unat n \<le> unat dst" by (simp add: word_le_nat_alt sn)
      with True show ?thesis by (simp add: unat_sub) linarith
    next
      case not_less: False
      show ?thesis
      proof (cases "dst = src")
        case True
        then show ?thesis by simp
      next
        case False
        with not_less have "unat dst < unat src" by (simp add: word_less_nat_alt word_unat_eq_iff)
        then have "unat (dst - src) = 2 ^ 64 - (unat src - unat dst)"
          by (simp add: unat_sub_if_size word_size)
        then show ?thesis using assms by simp linarith
      qed
    qed
    then show ?thesis
      using False nz copy_up_apply [of dst src "unat n" m a] by (auto simp: memmove_def)
  qed
qed

theorem memmove_correct_witness:
  "memmove 101 100 3 (\<lambda>a. ucast a) 103 = (102 :: uchar)"
proof -
  have h: "unat (100 :: uint64) + unat (3 :: uint) < 2 ^ 64"
    "unat (101 :: uint64) + unat (3 :: uint) < 2 ^ 64" by simp_all
  show ?thesis using memmove_correct [OF h, of "\<lambda>a. ucast a" 103] by simp
qed

lemma umemmove_apply:
  assumes "0 \<le> n" and "unat vsrc + nat n < 2 ^ 64" and "unat vdst + nat n < 2 ^ 64"
  shows "umemmove vdst vsrc n m a =
    (if unat (a - vdst) < nat n then m (vsrc + (a - vdst)) else m a)"
proof (cases "vsrc > vdst")
  case True
  then have "unat vdst < unat vsrc" by (simp add: word_less_nat_alt)
  then have "unat (vdst - vsrc) = 2 ^ 64 - (unat vsrc - unat vdst)"
    by (simp add: unat_sub_if_size word_size)
  then have "nat n \<le> unat (vdst - vsrc)" using assms by simp
  with True show ?thesis by (simp add: umemmove_def copy_up_apply)
next
  case False
  have e: "x + of_int n - of_nat (nat n) = x" for x :: uint64
    using assms(1) by (simp add: of_nat_nat)
  have "vdst = vsrc \<or> nat n \<le> unat (vsrc - vdst)"
  proof (cases "vdst = vsrc")
    case ne: False
    with False have "unat vsrc < unat vdst" by (simp add: word_less_nat_alt word_unat_eq_iff)
    then have "unat (vsrc - vdst) = 2 ^ 64 - (unat vdst - unat vsrc)"
      by (simp add: unat_sub_if_size word_size)
    then show ?thesis using assms by simp linarith
  qed simp
  then have "vdst + of_int n = vsrc + of_int n \<or>
      nat n \<le> unat (vsrc + of_int n - (vdst + of_int n))" by simp
  from copy_down_apply [OF this, of m a] show ?thesis
    using False unfolding e by (simp add: umemmove_def)
qed

section \<open>Strings\<close>

text \<open>The C string found in the first \<open>n\<close> bytes read through a pointer.\<close>

definition cstring :: "cstr \<Rightarrow> nat \<Rightarrow> uchar list" where
  "cstring p n = takeWhile (\<lambda>c. c \<noteq> 0) (map p [0..<n])"

lemma cstring_Suc: "cstring p (Suc n) = (if p 0 = 0 then [] else p 0 # cstring (advance p) n)"
  by (simp add: cstring_def map_upt_Suc del: upt_Suc)

lemma cstring_0 [simp]: "cstring p 0 = []"
  by (simp add: cstring_def)

text \<open>Two names compare equal exactly when they are the same C string, cut at \<open>n\<close> bytes.\<close>

lemma strncmp_eq_0_iff: "strncmp p q n = 0 \<longleftrightarrow> cstring p n = cstring q n"
proof (induction n arbitrary: p q)
  case 0
  then show ?case by simp
next
  case (Suc n)
  show ?case
  proof (cases "p 0 \<noteq> 0 \<and> p 0 = q 0")
    case True
    with Suc show ?thesis by (auto simp: cstring_Suc)
  next
    case False
    have "int (unat (p 0)) - int (unat (q 0)) = 0 \<longleftrightarrow> p 0 = q 0"
      by (simp add: word_uint_eq_iff)
    with False show ?thesis by (auto simp: cstring_Suc)
  qed
qed

lemma length_strncpy [simp]: "length (strncpy t n) = n"
  by (induction n arbitrary: t) auto

lemma cstring_strncpy: "cstring ((!) (strncpy t n)) n = cstring t n"
proof (induction n arbitrary: t)
  case 0
  then show ?case by simp
next
  case (Suc n)
  then show ?case by (simp add: cstring_Suc)
qed

lemma strncmp_strncpy: "strncmp t ((!) (strncpy t n)) n = 0"
  by (simp add: strncmp_eq_0_iff cstring_strncpy)

lemma safestrcpy_loop_spec:
  "length (safestrcpy_loop t n) \<le> Suc n \<and> 0 \<in> set (safestrcpy_loop t n) \<and>
   takeWhile (\<lambda>c. c \<noteq> 0) (safestrcpy_loop t n) = cstring t n"
  by (induction n arbitrary: t) (auto simp: cstring_Suc)

text \<open>
  \<^verbatim>\<open>safestrcpy\<close> stays within its \<open>n\<close> bytes, always terminates the copy, and keeps the
  source cut at \<open>n - 1\<close> bytes.
\<close>

lemma safestrcpy_spec:
  assumes "0 < n"
  shows "length (safestrcpy t n) \<le> n" and "0 \<in> set (safestrcpy t n)"
    and "takeWhile (\<lambda>c. c \<noteq> 0) (safestrcpy t n) = cstring t (n - 1)"
  using assms safestrcpy_loop_spec [of t "n - 1"] by (auto simp: safestrcpy_def)

lemma strlen_Some: "strlen s = Some n \<Longrightarrow> n < length s \<and> s ! n = 0 \<and> (\<forall>k < n. s ! k \<noteq> 0)"
proof (induction s arbitrary: n)
  case Nil
  then show ?case by simp
next
  case (Cons c s)
  then show ?case by (auto simp: nth_Cons split: if_splits nat.splits)
qed

end
