(* ===== verification/Riscv.thy ===== *)
theory Riscv
  imports Prelude
begin

text \<open>
  The address arithmetic of \<^verbatim>\<open>src/kernel/riscv.h\<close> (pages, Sv39 page-table entries and
  indices) and the memory map of \<^verbatim>\<open>src/kernel/memlayout.h\<close>, on 64-bit words, with the
  facts the memory components use: page rounding, the entry encoding as a round trip, and
  the decomposition of a virtual address into its three indices and offset.
\<close>

section \<open>Pages and page-table entries\<close>

definition PGSIZE :: uint64 where "PGSIZE = 4096"
definition PGSHIFT :: nat where "PGSHIFT = 12"

definition PGROUNDUP :: "uint64 \<Rightarrow> uint64" where
  "PGROUNDUP sz = (sz + PGSIZE - 1) AND NOT (PGSIZE - 1)"

definition PGROUNDDOWN :: "uint64 \<Rightarrow> uint64" where
  "PGROUNDDOWN a = a AND NOT (PGSIZE - 1)"

definition PTE_V :: uint64 where "PTE_V = push_bit 0 1"
definition PTE_R :: uint64 where "PTE_R = push_bit 1 1"
definition PTE_W :: uint64 where "PTE_W = push_bit 2 1"
definition PTE_X :: uint64 where "PTE_X = push_bit 3 1"
definition PTE_U :: uint64 where "PTE_U = push_bit 4 1"

definition PA2PTE :: "uint64 \<Rightarrow> uint64" where
  "PA2PTE pa = push_bit 10 (drop_bit 12 pa)"

definition PTE2PA :: "uint64 \<Rightarrow> uint64" where
  "PTE2PA pte = push_bit 12 (drop_bit 10 pte)"

definition PTE_FLAGS :: "uint64 \<Rightarrow> uint64" where
  "PTE_FLAGS pte = pte AND 0x3FF"

definition PXMASK :: uint64 where "PXMASK = 0x1FF"

definition PXSHIFT :: "nat \<Rightarrow> nat" where
  "PXSHIFT level = PGSHIFT + 9 * level"

definition PX :: "nat \<Rightarrow> uint64 \<Rightarrow> uint64" where
  "PX level va = drop_bit (PXSHIFT level) va AND PXMASK"

definition MAXVA :: uint64 where "MAXVA = push_bit (9 + 9 + 9 + 12 - 1) 1"

definition MAKE_SATP :: "uint64 \<Rightarrow> uint64" where
  "MAKE_SATP pagetable = push_bit 60 8 OR drop_bit 12 pagetable"

section \<open>Memory map\<close>

definition UART0 :: uint64 where "UART0 = 0x10000000"
definition VIRTIO0 :: uint64 where "VIRTIO0 = 0x10001000"
definition PLIC :: uint64 where "PLIC = 0x0c000000"
definition KERNBASE :: uint64 where "KERNBASE = 0x80000000"
definition PHYSTOP :: uint64 where "PHYSTOP = KERNBASE + 128 * 1024 * 1024"
definition TRAMPOLINE :: uint64 where "TRAMPOLINE = MAXVA - PGSIZE"
definition KSTACK :: "nat \<Rightarrow> uint64" where
  "KSTACK p = TRAMPOLINE - (of_nat p + 1) * 2 * PGSIZE"
definition TRAPFRAME :: uint64 where "TRAPFRAME = TRAMPOLINE - PGSIZE"

lemmas riscv_const_defs = PGSIZE_def PGSHIFT_def PTE_V_def PTE_R_def PTE_W_def PTE_X_def PTE_U_def
  PXMASK_def MAXVA_def KERNBASE_def PHYSTOP_def TRAMPOLINE_def TRAPFRAME_def

section \<open>Rounding\<close>

abbreviation page_aligned :: "uint64 \<Rightarrow> bool" where
  "page_aligned a \<equiv> 4096 dvd unat a"

text \<open>Rounding up to a page, and comparing multiples of a page.\<close>

lemma round_up_ge: "x \<le> (x + 4095) div 4096 * (4096 :: nat)"
proof -
  have "(x + 4095) div 4096 * 4096 + (x + 4095) mod 4096 = x + 4095" by (rule div_mult_mod_eq)
  moreover have "(x + 4095) mod 4096 < 4096" by simp
  ultimately show ?thesis by linarith
qed

lemma round_up_least: "4096 dvd q \<Longrightarrow> x \<le> q \<Longrightarrow> (x + 4095) div 4096 * 4096 \<le> (q :: nat)"
proof -
  assume q: "4096 dvd q" "x \<le> q"
  then have "(x + 4095) div 4096 \<le> (q + 4095) div 4096" by (intro div_le_mono) simp
  also have "(q + 4095) div 4096 = q div 4096" using q(1) by (auto elim!: dvdE)
  finally show ?thesis using q(1) by (auto elim!: dvdE)
qed

lemma dvd_less_step: "4096 dvd p \<Longrightarrow> 4096 dvd q \<Longrightarrow> q < p + 4096 \<longleftrightarrow> q \<le> (p :: nat)"
  by (auto elim!: dvdE)

lemma and_not_mask12: "(x :: uint64) AND NOT (PGSIZE - 1) = push_bit 12 (drop_bit 12 x)"
proof -
  have "PGSIZE - 1 = mask 12" by (simp add: PGSIZE_def mask_eq_exp_minus_1)
  then show ?thesis by (simp only:) (auto intro!: bit_word_eqI simp: bit_simps)
qed

lemma unat_drop_bit: "unat (drop_bit n (x :: 'a::len word)) = unat x div 2 ^ n"
  by (simp add: unat_drop_bit_eq) (simp add: drop_bit_eq_div)

lemma unat_take_bit: "unat (take_bit n (x :: 'a::len word)) = unat x mod 2 ^ n"
  by (simp only: unsigned_take_bit_eq) (simp only: take_bit_eq_mod)

lemma unat_shift_round: "unat (push_bit n (drop_bit n (x :: 'a::len word))) = unat x div 2 ^ n * 2 ^ n"
proof -
  have le: "unat x div 2 ^ n * 2 ^ n \<le> unat x" by simp
  have "unat (push_bit n (drop_bit n x)) = take_bit LENGTH('a) (push_bit n (unat x div 2 ^ n))"
    by (simp add: unsigned_push_bit_eq unat_drop_bit)
  also have "\<dots> = unat x div 2 ^ n * 2 ^ n mod 2 ^ LENGTH('a)"
    by (simp add: push_bit_eq_mult take_bit_eq_mod)
  also have "\<dots> = unat x div 2 ^ n * 2 ^ n"
    by (intro mod_less order_le_less_trans [OF le]) simp
  finally show ?thesis .
qed

lemma unat_PGROUNDDOWN: "unat (PGROUNDDOWN a) = unat a div 4096 * 4096"
  using unat_shift_round [of 12 a] by (simp only: PGROUNDDOWN_def and_not_mask12) simp

lemma unat_PGROUNDUP:
  assumes "unat sz + 4095 < 2 ^ 64"
  shows "unat (PGROUNDUP sz) = (unat sz + 4095) div 4096 * 4096"
proof -
  have e: "sz + PGSIZE - 1 = sz + 4095" by (simp add: PGSIZE_def)
  have "unat (sz + 4095) = unat sz + 4095"
    using assms by (simp add: unat_word_ariths)
  then show ?thesis
    using unat_shift_round [of 12 "sz + 4095"]
    by (simp only: PGROUNDUP_def and_not_mask12 e) simp
qed

lemma PGROUNDDOWN_aligned [simp]: "page_aligned (PGROUNDDOWN a)"
  by (simp add: unat_PGROUNDDOWN)

lemma PGROUNDUP_aligned: "unat sz + 4095 < 2 ^ 64 \<Longrightarrow> page_aligned (PGROUNDUP sz)"
  by (simp add: unat_PGROUNDUP)

lemma PGROUNDDOWN_id: "page_aligned a \<Longrightarrow> PGROUNDDOWN a = a"
  by (simp add: word_unat_eq_iff unat_PGROUNDDOWN)

section \<open>Page-table entries\<close>

text \<open>A page address and ten flag bits are recovered from the entry made of them.\<close>

lemma PTE2PA_PA2PTE:
  assumes "page_aligned pa" and "unat pa < 2 ^ 56" and "flags AND NOT 0x3FF = 0"
  shows "PTE2PA (PA2PTE pa OR flags) = pa"
proof (rule bit_word_eqI)
  fix n assume n: "n < LENGTH(64)"
  have low: "\<not> bit pa k" if "k < 12" for k
  proof -
    have "take_bit 12 pa = 0"
      using assms(1) by (simp only: word_unat_eq_iff unat_take_bit) simp
    then have "\<not> bit (take_bit 12 pa) k" by simp
    with that show ?thesis by (simp add: bit_simps)
  qed
  have high: "\<not> bit pa k" if "56 \<le> k" for k
  proof -
    have "take_bit 56 pa = pa"
      using assms(2) by (simp only: word_unat_eq_iff unat_take_bit) simp
    then have "bit pa k = bit (take_bit 56 pa) k" by simp
    with that show ?thesis by (simp add: bit_simps)
  qed
  have fl: "\<not> bit flags k" if "10 \<le> k" for k
  proof
    assume b: "bit flags k"
    then have "k < 64" using bit_imp_le_length by fastforce
    have "(0x3FF :: uint64) = mask 10" by (simp add: mask_eq_exp_minus_1)
    with assms(3) have "flags AND NOT (mask 10) = 0" by simp
    moreover have "bit (flags AND NOT (mask 10)) k"
      using b that \<open>k < 64\<close> by (simp add: bit_simps)
    ultimately show False by simp
  qed
  show "bit (PTE2PA (PA2PTE pa OR flags)) n = bit pa n"
  proof (cases "n < 12")
    case True
    with low show ?thesis by (simp add: PTE2PA_def bit_simps)
  next
    case False
    then have "10 + (n - 12) = n - 2" and "12 + (n - 12) = n" by auto
    with False n high [of n] fl [of "n - 2"] show ?thesis
      by (auto simp: PTE2PA_def PA2PTE_def bit_simps)
  qed
qed

lemma PTE_FLAGS_PA2PTE:
  assumes "flags AND NOT 0x3FF = 0"
  shows "PTE_FLAGS (PA2PTE pa OR flags) = flags"
proof (rule bit_word_eqI)
  fix n assume n: "n < LENGTH(64)"
  have m: "(0x3FF :: uint64) = mask 10" by (simp add: mask_eq_exp_minus_1)
  have fl: "\<not> bit flags n" if "10 \<le> n"
  proof
    assume b: "bit flags n"
    have "bit (flags AND NOT (mask 10)) n" using b that n by (simp add: bit_simps)
    with assms m show False by simp
  qed
  show "bit (PTE_FLAGS (PA2PTE pa OR flags)) n = bit flags n"
    using n fl unfolding PTE_FLAGS_def PA2PTE_def m by (cases "n < 10") (auto simp: bit_simps)
qed

section \<open>Virtual addresses\<close>

lemma unat_PX: "unat (PX level va) = unat va div 2 ^ (12 + 9 * level) mod 512"
proof -
  have m: "(0x1FF :: uint64) = mask 9" by (simp add: mask_eq_exp_minus_1)
  have "PX level va = take_bit 9 (drop_bit (12 + 9 * level) va)"
    by (simp add: PX_def PXMASK_def PXSHIFT_def PGSHIFT_def m take_bit_eq_mask)
  then show ?thesis by (simp only: unat_take_bit unat_drop_bit) simp
qed

lemma PX_bound: "unat (PX level va) < 512"
  by (simp add: unat_PX)

lemma unat_MAXVA: "unat MAXVA = 2 ^ 38"
  by (simp add: MAXVA_def)

text \<open>An address below \<^verbatim>\<open>MAXVA\<close> is its three indices and its offset.\<close>

lemma va_decompose:
  assumes "va < MAXVA"
  shows "unat va = unat (PX 2 va) * 2 ^ 30 + unat (PX 1 va) * 2 ^ 21
    + unat (PX 0 va) * 2 ^ 12 + unat va mod 4096"
proof -
  have lt: "unat va < 2 ^ 38" using assms by (simp add: word_less_nat_alt unat_MAXVA)
  define a where "a = unat va div 4096"
  define b where "b = a div 512"
  define c where "c = b div 512"
  have p2: "unat (PX 2 va) = c"
    using lt by (simp add: unat_PX c_def b_def a_def div_mult2_eq [symmetric])
  have p1: "unat (PX 1 va) = b mod 512"
    by (simp add: unat_PX b_def a_def div_mult2_eq [symmetric])
  have p0: "unat (PX 0 va) = a mod 512" by (simp add: unat_PX a_def)
  have "unat va = a * 4096 + unat va mod 4096" by (simp add: a_def)
  moreover have "a * 4096 = b * 2097152 + (a mod 512) * 4096"
    using div_mult_mod_eq [of a 512] unfolding b_def by linarith
  moreover have "b * 2097152 = c * 1073741824 + (b mod 512) * 2097152"
    using div_mult_mod_eq [of b 512] unfolding c_def by linarith
  ultimately show ?thesis unfolding p2 p1 p0 by simp
qed

lemma va_eq_by_PX:
  assumes "va < MAXVA" and "vb < MAXVA" and "page_aligned va" and "page_aligned vb"
    and "PX 2 va = PX 2 vb" and "PX 1 va = PX 1 vb" and "PX 0 va = PX 0 vb"
  shows "va = vb"
  using va_decompose [OF assms(1)] va_decompose [OF assms(2)] assms(3-7)
  by (simp add: word_unat_eq_iff dvd_imp_mod_0)

end
