(* ===== verification/Sched.thy ===== *)
theory Sched
  imports Riscv
begin

text \<open>
  The process table of \<^verbatim>\<open>src/kernel/proc.h\<close> and \<^verbatim>\<open>src/kernel/proc.c\<close> and the operations on
  it that every other component uses: sleeping and waking on a channel, process ids, kill.
  The record \<open>sched_st\<close> is the root of the kernel state; the other components extend it
  with their own globals, so an operation of this theory applies to all of them.

  A critical section under one spin lock is one atomic operation here. Pointers into the
  tables \<^verbatim>\<open>proc\<close>, \<^verbatim>\<open>ftable.file\<close> and \<^verbatim>\<open>itable.inode\<close> are indices, the null pointer is \<open>None\<close>.
\<close>

section \<open>Processes\<close>

datatype procstate = UNUSED | USED | SLEEPING | RUNNABLE | RUNNING | ZOMBIE

record kcontext =
  ctx_ra :: uint64
  ctx_sp :: uint64
  ctx_s :: "uint64 list"    \<comment> \<open>the callee-saved registers s0 to s11\<close>

record proc =
  p_state :: procstate
  p_chan :: "chan option"
  p_killed :: int
  p_xstate :: int
  p_pid :: int
  p_parent :: "nat option"
  p_kstack :: uint64
  p_ustack :: uint64
  p_sz :: uint64
  p_pagetable :: uint64
  p_trapframe :: uint64
  p_context :: kcontext
  p_ofile :: "nat option list"
  p_cwd :: "nat option"
  p_name :: "uchar list"
  p_pending_signals :: uint
  p_sig_handlers :: "uint64 list"
  p_is_thread :: int
  p_stack :: uint64
  p_thread_parent :: "nat option"
  p_retval :: uint64
  p_thread_id :: int
  p_num_threads :: int

record sched_st =
  procs :: "proc list"        \<comment> \<open>\<open>proc[NPROC]\<close>\<close>
  cur :: "nat option"         \<comment> \<open>\<open>mycpu()->proc\<close>\<close>
  nextpid :: int
  initproc :: "nat option"
  ticks :: uint
  kout :: string              \<comment> \<open>what \<open>printf\<close> has written to the console\<close>

text \<open>The contents of the zero-initialised table before \<^verbatim>\<open>procinit\<close>.\<close>

definition zero_proc :: proc where
  "zero_proc = \<lparr>p_state = UNUSED, p_chan = None, p_killed = 0, p_xstate = 0, p_pid = 0,
     p_parent = None, p_kstack = 0, p_ustack = 0, p_sz = 0, p_pagetable = 0, p_trapframe = 0,
     p_context = \<lparr>ctx_ra = 0, ctx_sp = 0, ctx_s = replicate 12 0\<rparr>,
     p_ofile = replicate NOFILE None, p_cwd = None, p_name = replicate 16 0,
     p_pending_signals = 0, p_sig_handlers = replicate 32 0, p_is_thread = 0, p_stack = 0,
     p_thread_parent = None, p_retval = 0, p_thread_id = 0, p_num_threads = 0\<rparr>"

definition procinit :: "'a sched_st_scheme \<Rightarrow> 'a sched_st_scheme" where
  "procinit s = s\<lparr>procs := map (\<lambda>(i, p). p\<lparr>p_state := UNUSED, p_kstack := KSTACK i,
     p_sig_handlers := replicate 32 0\<rparr>) (enumerate 0 (procs s))\<rparr>"

definition allocpid :: "'a sched_st_scheme \<Rightarrow> int \<times> 'a sched_st_scheme" where
  "allocpid s = (nextpid s, s\<lparr>nextpid := nextpid s + 1\<rparr>)"

definition kprint :: "string \<Rightarrow> 'a sched_st_scheme \<Rightarrow> 'a sched_st_scheme" where
  "kprint msg s = s\<lparr>kout := kout s @ msg\<rparr>"

definition upd_proc :: "nat \<Rightarrow> (proc \<Rightarrow> proc) \<Rightarrow> 'a sched_st_scheme \<Rightarrow> 'a sched_st_scheme" where
  "upd_proc i f s = s\<lparr>procs := (procs s)[i := f (procs s ! i)]\<rparr>"

section \<open>Sleep and wakeup\<close>

text \<open>
  Going to sleep: the current process is put on the channel and the processor is given up.
  With no current process, \<^verbatim>\<open>myproc()\<close> is null and touching it is a kernel page fault.
\<close>

definition sleep :: "chan \<Rightarrow> 'a sched_st_scheme \<Rightarrow> ('b, 'a sched_st_scheme) outcome" where
  "sleep ch s = (case cur s of
      None \<Rightarrow> Panic ''kerneltrap''
    | Some i \<Rightarrow> Sleep ch (upd_proc i (\<lambda>p. p\<lparr>p_chan := Some ch, p_state := SLEEPING\<rparr>) s))"

text \<open>The part of \<^verbatim>\<open>sleep\<close> after \<^verbatim>\<open>sched()\<close> returns.\<close>

definition sleep_resume :: "'a sched_st_scheme \<Rightarrow> 'a sched_st_scheme" where
  "sleep_resume s = (case cur s of None \<Rightarrow> s | Some i \<Rightarrow> upd_proc i (\<lambda>p. p\<lparr>p_chan := None\<rparr>) s)"

definition wake_proc :: "nat option \<Rightarrow> chan \<Rightarrow> nat \<Rightarrow> proc \<Rightarrow> proc" where
  "wake_proc me ch i p =
     (if me \<noteq> Some i \<and> p_state p = SLEEPING \<and> p_chan p = Some ch
      then p\<lparr>p_state := RUNNABLE\<rparr> else p)"

definition wakeup :: "chan \<Rightarrow> 'a sched_st_scheme \<Rightarrow> 'a sched_st_scheme" where
  "wakeup ch s =
     s\<lparr>procs := map (\<lambda>(i, p). wake_proc (cur s) ch i p) (enumerate 0 (procs s))\<rparr>"

section \<open>Kill\<close>

definition kill :: "int \<Rightarrow> 'a sched_st_scheme \<Rightarrow> int \<times> 'a sched_st_scheme" where
  "kill pid s = (case scan (\<lambda>p. p_pid p = pid) (procs s) of
      None \<Rightarrow> (- 1, s)
    | Some i \<Rightarrow> (0, upd_proc i (\<lambda>p. let p = p\<lparr>p_killed := 1\<rparr> in
         if p_state p = SLEEPING then p\<lparr>p_state := RUNNABLE\<rparr> else p) s))"

definition setkilled :: "nat \<Rightarrow> 'a sched_st_scheme \<Rightarrow> 'a sched_st_scheme" where
  "setkilled i s = upd_proc i (\<lambda>p. p\<lparr>p_killed := 1\<rparr>) s"

definition killed :: "nat \<Rightarrow> 'a sched_st_scheme \<Rightarrow> int" where
  "killed i s = p_killed (procs s ! i)"

text \<open>Children of \<open>p\<close> are handed to \<^verbatim>\<open>initproc\<close>, which is woken once for each.\<close>

definition reparent :: "nat \<Rightarrow> 'a sched_st_scheme \<Rightarrow> (unit, 'a sched_st_scheme) outcome" where
  "reparent p s = forK [0..<NPROC] (\<lambda>pp s.
     if p_parent (procs s ! pp) = Some p
     then (case initproc s of
        None \<Rightarrow> Panic ''kerneltrap''
      | Some ip \<Rightarrow> Ret () (wakeup (ChanProc ip) (upd_proc pp (\<lambda>q. q\<lparr>p_parent := Some ip\<rparr>) s)))
     else Ret () s) s"

section \<open>Facts\<close>

definition sched_ok :: "'a sched_st_scheme \<Rightarrow> bool" where
  "sched_ok s \<longleftrightarrow> length (procs s) = NPROC \<and> (\<exists>i < NPROC. cur s = Some i)"

definition mypid :: "'a sched_st_scheme \<Rightarrow> int" where
  "mypid s = (case cur s of Some i \<Rightarrow> p_pid (procs s ! i) | None \<Rightarrow> 0)"

lemma length_wakeup [simp]: "length (procs (wakeup ch s)) = length (procs s)"
  by (simp add: wakeup_def)

lemma cur_wakeup [simp]: "cur (wakeup ch s) = cur s"
  by (simp add: wakeup_def)

lemma nth_wakeup:
  "i < length (procs s) \<Longrightarrow> procs (wakeup ch s) ! i = wake_proc (cur s) ch i (procs s ! i)"
  by (simp add: wakeup_def nth_enumerate_eq)

lemma wake_proc_pid [simp]: "p_pid (wake_proc me ch i p) = p_pid p"
  by (simp add: wake_proc_def)

lemma sched_ok_wakeup [simp]: "sched_ok (wakeup ch s) = sched_ok s"
  by (simp add: sched_ok_def)

lemma mypid_wakeup [simp]: "sched_ok s \<Longrightarrow> mypid (wakeup ch s) = mypid s"
  by (auto simp: mypid_def sched_ok_def nth_wakeup split: option.splits)

lemma length_upd_proc [simp]: "length (procs (upd_proc i f s)) = length (procs s)"
  by (simp add: upd_proc_def)

lemma cur_upd_proc [simp]: "cur (upd_proc i f s) = cur s"
  by (simp add: upd_proc_def)

lemma nth_upd_proc:
  "i < length (procs s) \<Longrightarrow> procs (upd_proc i f s) ! j = (if i = j then f (procs s ! i) else procs s ! j)"
  by (simp add: upd_proc_def)

end
