(* ===== verification/Physmem.thy ===== *)
theory Physmem
  imports Sched CStrings
begin

text \<open>
  Physical memory and the page allocator of \<^verbatim>\<open>src/kernel/kalloc.c\<close>. Memory is a function
  from 64-bit addresses to bytes; a free page holds the address of the next free page in
  its first eight bytes, as \<^verbatim>\<open>struct run\<close> does. The relation \<open>free_run\<close> reads the list of
  free pages off the memory. The locale \<open>page_allocator\<close> states what the rest of the
  kernel relies on; \<open>kalloc\<close> and \<open>kfree\<close> interpret it.
\<close>

section \<open>Words in memory\<close>

definition load64 :: "mem \<Rightarrow> uint64 \<Rightarrow> uint64" where
  "load64 m a = ucast (m a) OR push_bit 8 (ucast (m (a + 1)))
     OR push_bit 16 (ucast (m (a + 2))) OR push_bit 24 (ucast (m (a + 3)))
     OR push_bit 32 (ucast (m (a + 4))) OR push_bit 40 (ucast (m (a + 5)))
     OR push_bit 48 (ucast (m (a + 6))) OR push_bit 56 (ucast (m (a + 7)))"

definition store64 :: "uint64 \<Rightarrow> uint64 \<Rightarrow> mem \<Rightarrow> mem" where
  "store64 a v m =
     (\<lambda>x. if unat (x - a) < 8 then ucast (drop_bit (8 * unat (x - a)) v) else m x)"

lemma uint64_from_bytes:
  fixes v :: uint64
  shows "ucast (ucast v :: uchar) OR push_bit 8 (ucast (ucast (drop_bit 8 v) :: uchar))
    OR push_bit 16 (ucast (ucast (drop_bit 16 v) :: uchar))
    OR push_bit 24 (ucast (ucast (drop_bit 24 v) :: uchar))
    OR push_bit 32 (ucast (ucast (drop_bit 32 v) :: uchar))
    OR push_bit 40 (ucast (ucast (drop_bit 40 v) :: uchar))
    OR push_bit 48 (ucast (ucast (drop_bit 48 v) :: uchar))
    OR push_bit 56 (ucast (ucast (drop_bit 56 v) :: uchar)) = v" (is "?w = v")
proof (rule bit_word_eqI)
  fix n assume n: "n < LENGTH(64)"
  have b: "bit (push_bit k (ucast (ucast (drop_bit k v) :: uchar)) :: uint64) n \<longleftrightarrow>
      k \<le> n \<and> n < k + 8 \<and> bit v n" for k
    using n by (auto simp: bit_simps)
  have b0: "bit (ucast (ucast v :: uchar) :: uint64) n \<longleftrightarrow> n < 8 \<and> bit v n"
    using n by (auto simp: bit_simps)
  show "bit ?w n = bit v n" using n by (simp only: bit_or_iff b b0) auto
qed

lemma load64_store64 [simp]: "load64 (store64 a v m) a = v"
  by (simp add: load64_def store64_def uint64_from_bytes)

lemma load64_cong:
  "(\<And>i. i < 8 \<Longrightarrow> m (a + of_nat i) = m' (a + of_nat i)) \<Longrightarrow> load64 m a = load64 m' a"
proof -
  assume h: "\<And>i. i < 8 \<Longrightarrow> m (a + of_nat i) = m' (a + of_nat i)"
  have "m a = m' a" "m (a + 1) = m' (a + 1)" "m (a + 2) = m' (a + 2)" "m (a + 3) = m' (a + 3)"
    "m (a + 4) = m' (a + 4)" "m (a + 5) = m' (a + 5)" "m (a + 6) = m' (a + 6)"
    "m (a + 7) = m' (a + 7)"
    using h [of 0] h [of 1] h [of 2] h [of 3] h [of 4] h [of 5] h [of 6] h [of 7] by simp_all
  then show ?thesis by (simp add: load64_def)
qed

section \<open>Pages\<close>

definition in_page :: "uint64 \<Rightarrow> uint64 \<Rightarrow> bool" where
  "in_page p a \<longleftrightarrow> unat (a - p) < 4096"

text \<open>Distinct aligned pages share no address.\<close>

lemma in_page_iff: "page_aligned p \<Longrightarrow> in_page p a \<longleftrightarrow> PGROUNDDOWN a = p"
proof -
  assume al: "page_aligned p"
  show ?thesis
  proof
    assume "PGROUNDDOWN a = p"
    then have p: "unat p = unat a div 4096 * 4096" using unat_PGROUNDDOWN [of a] by simp
    then have "p \<le> a" by (simp add: word_le_nat_alt)
    then have "unat (a - p) = unat a - unat a div 4096 * 4096" by (simp add: unat_sub p)
    then show "in_page p a" unfolding in_page_def by (simp add: minus_div_mult_eq_mod)
  next
    assume ip: "in_page p a"
    obtain k where k: "unat p = k * 4096" using al by (metis dvd_def mult.commute)
    have lt: "unat p + 4096 \<le> 2 ^ 64"
    proof -
      have "k * 4096 < 2 ^ 64" using unat_less_64 [of p] k by simp
      then have "k < 2 ^ 52" by simp
      then show ?thesis by (simp add: k)
    qed
    have "unat a = (unat p + unat (a - p)) mod 2 ^ 64"
      using unat_word_ariths(1) [of p "a - p"] by simp
    then have "unat a = unat p + unat (a - p)" using ip lt unfolding in_page_def by simp
    then have "unat a div 4096 = k" using ip k unfolding in_page_def by simp
    then show "PGROUNDDOWN a = p" by (simp add: word_unat_eq_iff unat_PGROUNDDOWN k)
  qed
qed

lemma in_page_disjoint:
  "page_aligned p \<Longrightarrow> page_aligned q \<Longrightarrow> p \<noteq> q \<Longrightarrow> in_page p a \<Longrightarrow> \<not> in_page q a"
  by (simp add: in_page_iff)

lemma in_page_offset: "k < 4096 \<Longrightarrow> in_page p (p + of_nat k)"
  by (simp add: in_page_def unat_of_nat)

lemma memset_page: "memset p c 4096 m a = (if in_page p a then c else m a)"
  by (simp add: memset_apply in_page_def)

lemma store64_other_page:
  assumes "page_aligned p" and "k + 8 \<le> 4096" and "\<not> in_page p x"
  shows "store64 (p + of_nat k) v m x = m x"
proof -
  have "\<not> unat (x - (p + of_nat k)) < 8"
  proof
    assume lt: "unat (x - (p + of_nat k)) < 8"
    have "unat (x - p) = (unat (of_nat k :: uint64) + unat (x - (p + of_nat k))) mod 2 ^ 64"
      using unat_word_ariths(1) [of "of_nat k" "x - (p + of_nat k)"] by simp
    then have "unat (x - p) = (k + unat (x - (p + of_nat k))) mod 2 ^ 64"
      using assms(2) by (simp add: unat_of_nat)
    then have "unat (x - p) < 4096" using lt assms(2) by simp
    with assms(3) show False by (simp add: in_page_def)
  qed
  then show ?thesis by (simp add: store64_def)
qed

lemma load64_other_page:
  assumes "k + 8 \<le> 4096" and "\<And>x. in_page q x \<Longrightarrow> m x = m' x"
  shows "load64 m (q + of_nat k) = load64 m' (q + of_nat k)"
proof (rule load64_cong)
  fix i :: nat assume "i < 8"
  with assms(1) have "in_page q (q + of_nat (k + i))" by (intro in_page_offset) simp
  with assms(2) show "m (q + of_nat k + of_nat i) = m' (q + of_nat k + of_nat i)"
    by (simp add: add.assoc)
qed

section \<open>The allocator\<close>

record mem_st = sched_st +
  mem :: mem
  freelist :: uint64      \<comment> \<open>\<open>kmem.freelist\<close>\<close>
  kend :: uint64          \<comment> \<open>the linker symbol \<open>end\<close>\<close>
  kernel_pagetable :: uint64

definition kfree :: "uint64 \<Rightarrow> 'a mem_st_scheme \<Rightarrow> (unit, 'a mem_st_scheme) outcome" where
  "kfree pa s =
     (if pa mod PGSIZE \<noteq> 0 \<or> pa < kend s \<or> pa \<ge> PHYSTOP then Panic ''kfree''
      else Ret () (s\<lparr>mem := store64 pa (freelist s) (memset pa 1 (unat PGSIZE) (mem s)),
                     freelist := pa\<rparr>))"

definition kalloc :: "'a mem_st_scheme \<Rightarrow> uint64 \<times> 'a mem_st_scheme" where
  "kalloc s =
     (let r = freelist s in
      if r \<noteq> 0
      then (r, s\<lparr>freelist := load64 (mem s) r, mem := memset r 5 (unat PGSIZE) (mem s)\<rparr>)
      else (r, s))"

lemma kfree_advances:
  "kfree p s = Ret u s' \<Longrightarrow> unat (p + PGSIZE) = unat p + 4096"
  by (auto simp: kfree_def riscv_const_defs word_less_nat_alt unat_word_ariths not_le
      split: if_splits)

function freerange_loop ::
  "uint64 \<Rightarrow> uint64 \<Rightarrow> 'a mem_st_scheme \<Rightarrow> (unit, 'a mem_st_scheme) outcome" where
  "freerange_loop p pa_end s =
     (if p + PGSIZE \<le> pa_end
      then bindK (kfree p s) (\<lambda>_ s. freerange_loop (p + PGSIZE) pa_end s)
      else Ret () s)"
  by pat_completeness auto
termination
proof (relation "measure (\<lambda>(p, pa_end, s). 2 ^ 64 - unat p)")
  fix p pa_end :: uint64 and s s' :: "'a mem_st_scheme" and u
  assume "kfree p s = Ret u s'"
  then have "unat (p + PGSIZE) = unat p + 4096" by (rule kfree_advances)
  then show "((p + PGSIZE, pa_end, s'), p, pa_end, s) \<in> measure (\<lambda>(p, pa_end, s). 2 ^ 64 - unat p)"
    using unat_less_64 [of p] unat_less_64 [of "p + PGSIZE"] by simp
qed simp

declare freerange_loop.simps [simp del]

definition freerange ::
  "uint64 \<Rightarrow> uint64 \<Rightarrow> 'a mem_st_scheme \<Rightarrow> (unit, 'a mem_st_scheme) outcome" where
  "freerange pa_start pa_end s = freerange_loop (PGROUNDUP pa_start) pa_end s"

definition kinit :: "'a mem_st_scheme \<Rightarrow> (unit, 'a mem_st_scheme) outcome" where
  "kinit s = freerange (kend s) PHYSTOP s"

section \<open>The list of free pages\<close>

primrec free_run :: "mem \<Rightarrow> uint64 \<Rightarrow> uint64 list \<Rightarrow> bool" where
  "free_run m p [] \<longleftrightarrow> p = 0"
| "free_run m p (x # xs) \<longleftrightarrow> p = x \<and> x \<noteq> 0 \<and> free_run m (load64 m x) xs"

definition usable_page :: "'a mem_st_scheme \<Rightarrow> uint64 \<Rightarrow> bool" where
  "usable_page s p \<longleftrightarrow> page_aligned p \<and> kend s \<le> p \<and> p < PHYSTOP \<and> 0 < kend s"

definition kmem_ok :: "'a mem_st_scheme \<Rightarrow> uint64 list \<Rightarrow> bool" where
  "kmem_ok s ps \<longleftrightarrow> free_run (mem s) (freelist s) ps \<and> distinct ps \<and> (\<forall>p \<in> set ps. usable_page s p)"

lemma free_run_cong:
  assumes "\<And>p x. p \<in> set ps \<Longrightarrow> in_page p x \<Longrightarrow> m x = m' x"
  shows "free_run m h ps = free_run m' h ps"
  using assms
proof (induction ps arbitrary: h)
  case Nil
  then show ?case by simp
next
  case (Cons p ps)
  have "load64 m (p + of_nat 0) = load64 m' (p + of_nat 0)"
    by (rule load64_other_page) (use Cons.prems in auto)
  moreover have "free_run m h ps = free_run m' h ps" for h
    by (rule Cons.IH) (use Cons.prems in auto)
  ultimately show ?case by simp
qed

lemma kfree_Ret_iff:
  "0 < kend s \<Longrightarrow> (\<exists>u s'. kfree p s = Ret u s') \<longleftrightarrow> usable_page s p"
  by (auto simp: kfree_def usable_page_def PGSIZE_def not_less not_le word_unat_eq_iff unat_mod)

lemma usable_page_more [simp]:
  "usable_page (s\<lparr>mem := m\<rparr>) = usable_page s" "usable_page (s\<lparr>freelist := f\<rparr>) = usable_page s"
  by (auto simp: usable_page_def fun_eq_iff)

lemma kalloc_cons:
  assumes "kmem_ok s (p # ps)"
  shows "fst (kalloc s) = p" and "kmem_ok (snd (kalloc s)) ps"
    and "mem (snd (kalloc s)) = memset p 5 4096 (mem s)"
proof -
  let ?m = "memset p 5 4096 (mem s)"
  from assms have fl: "freelist s = p" "p \<noteq> 0"
    and run: "free_run (mem s) (load64 (mem s) p) ps"
    and d: "p \<notin> set ps" "distinct ps" and u: "\<forall>q \<in> set (p # ps). usable_page s q"
    by (auto simp: kmem_ok_def)
  have k: "kalloc s = (p, s\<lparr>freelist := load64 (mem s) p, mem := ?m\<rparr>)"
    using fl by (simp add: kalloc_def Let_def PGSIZE_def)
  have same: "?m x = mem s x" if "q \<in> set ps" and "in_page q x" for q x
  proof -
    have "page_aligned q" and "page_aligned p" and "p \<noteq> q"
      using u that(1) d(1) by (auto simp: usable_page_def)
    then show ?thesis using that(2) in_page_disjoint [of q p x] by (simp add: memset_page)
  qed
  have "free_run ?m (load64 (mem s) p) ps = free_run (mem s) (load64 (mem s) p) ps"
    by (rule free_run_cong) (rule same)
  with run d u show "kmem_ok (snd (kalloc s)) ps" by (simp add: k kmem_ok_def)
  show "fst (kalloc s) = p" and "mem (snd (kalloc s)) = ?m" by (simp_all add: k)
qed

lemma kfree_cons:
  assumes "kmem_ok s ps" and "usable_page s p" and "p \<notin> set ps"
  shows "\<exists>s'. kfree p s = Ret () s' \<and> kmem_ok s' (p # ps) \<and> kend s' = kend s \<and>
    (\<forall>x. \<not> in_page p x \<longrightarrow> mem s' x = mem s x)"
proof -
  let ?m = "store64 p (freelist s) (memset p 1 4096 (mem s))"
  let ?s = "s\<lparr>mem := ?m, freelist := p\<rparr>"
  have al: "page_aligned p" and p0: "p \<noteq> 0"
    using assms(2) by (auto simp: usable_page_def)
  have k: "kfree p s = Ret () ?s"
    using assms(2)
    by (auto simp: kfree_def usable_page_def PGSIZE_def not_less not_le word_unat_eq_iff unat_mod)
  have out: "?m x = mem s x" if "\<not> in_page p x" for x
    using store64_other_page [OF al, of 0 x] that by (simp add: memset_page)
  have same: "?m x = mem s x" if "q \<in> set ps" and "in_page q x" for q x
  proof -
    have "page_aligned q" and "p \<noteq> q"
      using assms that(1) by (auto simp: usable_page_def kmem_ok_def)
    then show ?thesis using that(2) al in_page_disjoint [of q p x] out by simp
  qed
  have "free_run ?m (freelist s) ps = free_run (mem s) (freelist s) ps"
    by (rule free_run_cong) (rule same)
  then have "kmem_ok ?s (p # ps)" using assms p0 by (simp add: kmem_ok_def)
  with k out show ?thesis by auto
qed

section \<open>What clients rely on\<close>

text \<open>Any number of allocations in a row.\<close>

primrec alloc_many :: "('s \<Rightarrow> uint64 \<times> 's) \<Rightarrow> nat \<Rightarrow> 's \<Rightarrow> uint64 list \<times> 's" where
  "alloc_many alloc 0 s = ([], s)"
| "alloc_many alloc (Suc n) s =
     (let (p, s) = alloc s; (ps, s) = alloc_many alloc n s in (p # ps, s))"

locale page_allocator =
  fixes alloc :: "'s \<Rightarrow> uint64 \<times> 's"
    and free :: "uint64 \<Rightarrow> 's \<Rightarrow> (unit, 's) outcome"
    and pages :: "'s \<Rightarrow> uint64 list \<Rightarrow> bool"
    and usable :: "'s \<Rightarrow> uint64 \<Rightarrow> bool"
    and content :: "'s \<Rightarrow> mem"
  assumes alloc_cons: "pages s (p # ps) \<Longrightarrow> fst (alloc s) = p \<and> pages (snd (alloc s)) ps"
    and alloc_nil: "pages s [] \<Longrightarrow> alloc s = (0, s)"
    and alloc_frame: "pages s (p # ps) \<Longrightarrow> \<not> in_page p x \<Longrightarrow> content (snd (alloc s)) x = content s x"
    and alloc_usable: "usable (snd (alloc s)) = usable s"
    and free_cons: "pages s ps \<Longrightarrow> usable s p \<Longrightarrow> p \<notin> set ps \<Longrightarrow>
      okK (free p s) (\<lambda>_ s'. pages s' (p # ps) \<and> usable s' = usable s)"
    and pages_usable: "pages s ps \<Longrightarrow> p \<in> set ps \<Longrightarrow> usable s p"
    and pages_distinct: "pages s ps \<Longrightarrow> distinct ps"
    and usable_nonzero: "usable s p \<Longrightarrow> page_aligned p \<and> p \<noteq> 0"
begin

lemma alloc_many_take:
  "pages s ps \<Longrightarrow> n \<le> length ps \<Longrightarrow>
     fst (alloc_many alloc n s) = take n ps \<and> pages (snd (alloc_many alloc n s)) (drop n ps)"
proof (induction n arbitrary: s ps)
  case 0
  then show ?case by simp
next
  case (Suc n)
  then obtain p qs where ps: "ps = p # qs" by (cases ps) auto
  obtain a t where al: "alloc s = (a, t)" by fastforce
  from alloc_cons [of s p qs] Suc.prems ps al have "a = p" and "pages t qs" by auto
  with Suc.IH [of t qs] Suc.prems ps show ?case
    by (auto simp: al split: prod.splits)
qed

lemma alloc_many_distinct:
  assumes "pages s ps" and "n \<le> length ps"
  shows "distinct (fst (alloc_many alloc n s))" and "p \<in> set (fst (alloc_many alloc n s)) \<Longrightarrow> usable s p"
    and "length (fst (alloc_many alloc n s)) = n"
  using alloc_many_take [OF assms] pages_distinct [OF assms(1)] pages_usable [OF assms(1)]
    assms(2) by (auto dest: in_set_takeD)

lemma alloc_many_frame:
  "pages s ps \<Longrightarrow> n \<le> length ps \<Longrightarrow> \<forall>p \<in> set (take n ps). \<not> in_page p x \<Longrightarrow>
   content (snd (alloc_many alloc n s)) x = content s x"
proof (induction n arbitrary: s ps)
  case (Suc n)
  then obtain p qs where ps: "ps = p # qs" by (cases ps) auto
  obtain a t where al: "alloc s = (a, t)" by fastforce
  have "pages t qs" "content t x = content s x"
    using alloc_cons [of s p qs] alloc_frame [of s p qs x] Suc.prems ps al by auto
  with Suc.IH [of t qs] Suc.prems ps show ?case by (auto simp: al split: prod.splits)
qed simp

text \<open>A page that is given back is the next one handed out.\<close>

lemma free_alloc:
  assumes "pages s ps" and "usable s p" and "p \<notin> set ps"
  shows "okK (free p s) (\<lambda>_ s'. fst (alloc s') = p \<and> pages (snd (alloc s')) ps)"
  using free_cons [OF assms] by (rule okK_weaken) (use alloc_cons in auto)

lemma alloc_fails_iff:
  assumes "pages s ps"
  shows "fst (alloc s) = 0 \<longleftrightarrow> ps = []"
proof (cases ps)
  case Nil
  with assms alloc_nil [of s] show ?thesis by simp
next
  case (Cons p qs)
  with assms alloc_cons [of s p qs] pages_usable [of s ps p] usable_nonzero [of s p]
  show ?thesis by simp
qed

end

interpretation km: page_allocator kalloc kfree kmem_ok usable_page mem
proof
  fix s :: "'a mem_st_scheme" and p ps x
  show "kmem_ok s (p # ps) \<Longrightarrow> fst (kalloc s) = p \<and> kmem_ok (snd (kalloc s)) ps"
    using kalloc_cons by blast
  show "kmem_ok s (p # ps) \<Longrightarrow> \<not> in_page p x \<Longrightarrow> mem (snd (kalloc s)) x = mem s x"
    by (simp add: kalloc_cons(3) memset_page)
  show "kmem_ok s [] \<Longrightarrow> kalloc s = (0, s)"
    by (simp add: kmem_ok_def kalloc_def Let_def)
  show "usable_page (snd (kalloc s)) = usable_page s"
    by (simp add: kalloc_def Let_def)
  show "okK (kfree p s) (\<lambda>_ s'. kmem_ok s' (p # ps) \<and> usable_page s' = usable_page s)"
    if "kmem_ok s ps" and "usable_page s p" and "p \<notin> set ps"
    using kfree_cons [OF that] by (auto simp: okK_iff usable_page_def fun_eq_iff)
  show "kmem_ok s ps \<Longrightarrow> p \<in> set ps \<Longrightarrow> usable_page s p" by (simp add: kmem_ok_def)
  show "kmem_ok s ps \<Longrightarrow> distinct ps" by (simp add: kmem_ok_def)
  show "usable_page s p \<Longrightarrow> page_aligned p \<and> p \<noteq> 0" by (auto simp: usable_page_def)
qed

section \<open>Initialisation\<close>

lemma usable_step:
  assumes "usable_page s p"
  shows "{q. usable_page s q \<and> q < p + PGSIZE} = insert p {q. usable_page s q \<and> q < p}"
proof -
  have up: "unat (p + PGSIZE) = unat p + 4096"
    using assms by (simp add: usable_page_def riscv_const_defs word_less_nat_alt unat_word_ariths)
  have "q < p + PGSIZE \<longleftrightarrow> q = p \<or> q < p" if "page_aligned q" for q
    using that assms dvd_less_step [of "unat p" "unat q"]
    by (auto simp: usable_page_def word_less_nat_alt up word_unat_eq_iff)
  then show ?thesis using assms by (auto simp: usable_page_def)
qed

lemma freerange_loop_ok:
  assumes "kmem_ok s ps" and "set ps = {q. usable_page s q \<and> q < p}"
    and "page_aligned p" and "kend s \<le> p" and "p \<le> PHYSTOP" and "0 < kend s"
  shows "okK (freerange_loop p PHYSTOP s)
    (\<lambda>_ s'. \<exists>qs. kmem_ok s' qs \<and> set qs = {q. usable_page s q} \<and> kend s' = kend s)"
  using assms
proof (induction p PHYSTOP s arbitrary: ps rule: freerange_loop.induct)
  case (1 p s)
  have ph: "unat PHYSTOP = 0x88000000" by (simp add: PHYSTOP_def KERNBASE_def)
  show ?case
  proof (cases "p = PHYSTOP")
    case True
    then have "{q. usable_page s q \<and> q < p} = {q. usable_page s q}"
      by (auto simp: usable_page_def)
    moreover have "\<not> p + PGSIZE \<le> PHYSTOP"
      using True by (simp add: PHYSTOP_def KERNBASE_def PGSIZE_def)
    ultimately show ?thesis using 1 by (auto simp: freerange_loop.simps [of p])
  next
    case False
    with "1.prems" have up: "usable_page s p" by (auto simp: usable_page_def)
    have pn: "unat (p + PGSIZE) = unat p + 4096"
      using up by (simp add: usable_page_def riscv_const_defs word_less_nat_alt unat_word_ariths)
    have le: "p + PGSIZE \<le> PHYSTOP"
    proof -
      have "4096 dvd (0x88000000 :: nat)" by simp
      with up ph have "unat p + 4096 \<le> 0x88000000"
        using dvd_less_step [of "unat p" "0x88000000"]
        by (simp add: usable_page_def word_less_nat_alt)
      then show ?thesis using pn ph by (simp add: word_le_nat_alt)
    qed
    have "p \<notin> set ps" using "1.prems"(2) by simp
    then obtain s1 where k: "kfree p s = Ret () s1" and ok: "kmem_ok s1 (p # ps)"
      and e: "kend s1 = kend s"
      using kfree_cons [OF "1.prems"(1) up] by blast
    have us: "usable_page s1 = usable_page s" using e by (simp add: usable_page_def fun_eq_iff)
    have "okK (freerange_loop (p + PGSIZE) PHYSTOP s1)
        (\<lambda>_ s'. \<exists>qs. kmem_ok s' qs \<and> set qs = {q. usable_page s1 q} \<and> kend s' = kend s1)"
    proof (rule "1.hyps" [OF le k ok])
      show "set (p # ps) = {q. usable_page s1 q \<and> q < p + PGSIZE}"
        using usable_step [OF up] "1.prems"(2) us by simp
      show "page_aligned (p + PGSIZE)" using up pn by (simp add: usable_page_def)
      show "kend s1 \<le> p + PGSIZE" using e "1.prems"(4) pn by (simp add: word_le_nat_alt)
    qed (use le e "1.prems" in simp_all)
    then show ?thesis using le k us e by (simp add: freerange_loop.simps [of p])
  qed
qed

text \<open>
  C17: After \<^verbatim>\<open>kinit\<close> every usable page (aligned, from the end of the kernel image up to
  \<^verbatim>\<open>PHYSTOP\<close>) is on the free list, once; \<^verbatim>\<open>kinit\<close> does not panic.
\<close>

theorem kinit_frees_all:
  assumes "freelist s = 0" and "0 < kend s" and "kend s \<le> PHYSTOP"
  shows "okK (kinit s) (\<lambda>_ s'. \<exists>ps. kmem_ok s' ps \<and> set ps = {p. usable_page s p})"
proof -
  let ?p = "PGROUNDUP (kend s)"
  have ph: "unat PHYSTOP = 0x88000000" by (simp add: PHYSTOP_def KERNBASE_def)
  have k: "unat (kend s) \<le> 0x88000000" using assms(3) ph by (simp add: word_le_nat_alt)
  then have r: "unat ?p = (unat (kend s) + 4095) div 4096 * 4096" by (simp add: unat_PGROUNDUP)
  have ge: "unat (kend s) \<le> unat ?p" unfolding r by (rule round_up_ge)
  have le: "unat ?p \<le> 0x88000000" unfolding r using k by (intro round_up_least) simp_all
  have none: "{q. usable_page s q \<and> q < ?p} = {}"
    using round_up_least [of _ "unat (kend s)"]
    by (auto simp: usable_page_def word_le_nat_alt word_less_nat_alt r not_less)
  have "okK (freerange_loop ?p PHYSTOP s)
      (\<lambda>_ s'. \<exists>qs. kmem_ok s' qs \<and> set qs = {q. usable_page s q} \<and> kend s' = kend s)"
    using assms ge le ph none k
    by (intro freerange_loop_ok [of s "[]"])
       (auto simp: kmem_ok_def word_le_nat_alt PGROUNDUP_aligned)
  then show ?thesis unfolding kinit_def freerange_def by (rule okK_weaken) blast
qed

theorem kinit_frees_all_witness:
  "okK (kinit \<lparr>procs = [], cur = None, nextpid = 1, initproc = None, ticks = 0, kout = [],
       mem = (\<lambda>_. 0), freelist = 0, kend = 0x87ff0123, kernel_pagetable = 0\<rparr>)
     (\<lambda>_ s'. \<exists>ps. kmem_ok s' ps \<and> set ps = {p. usable_page \<lparr>procs = [], cur = None, nextpid = 1,
       initproc = None, ticks = 0, kout = [], mem = (\<lambda>_. 0), freelist = 0, kend = 0x87ff0123, kernel_pagetable = 0\<rparr> p})"
  by (rule kinit_frees_all) (simp_all add: PHYSTOP_def KERNBASE_def)

text \<open>
  C18: Allocation is sound: as long as the free list lasts, \<open>n\<close> calls of \<^verbatim>\<open>kalloc\<close> return \<open>n\<close>
  different, usable pages, the rest of the list stays free, and memory outside the pages
  handed out is untouched.
\<close>

theorem kalloc_distinct:
  assumes "kmem_ok s ps" and "n \<le> length ps"
  shows "distinct (fst (alloc_many kalloc n s))
    \<and> (\<forall>p \<in> set (fst (alloc_many kalloc n s)). usable_page s p)
    \<and> length (fst (alloc_many kalloc n s)) = n
    \<and> kmem_ok (snd (alloc_many kalloc n s)) (drop n ps)
    \<and> (\<forall>x. (\<forall>p \<in> set (fst (alloc_many kalloc n s)). \<not> in_page p x) \<longrightarrow>
          mem (snd (alloc_many kalloc n s)) x = mem s x)"
  using km.alloc_many_distinct [OF assms] km.alloc_many_take [OF assms] km.alloc_many_frame [OF assms]
  by auto

theorem kalloc_distinct_witness:
  "fst (alloc_many kalloc 1 \<lparr>procs = [], cur = None, nextpid = 1, initproc = None, ticks = 0, kout = [],
       mem = (\<lambda>_. 0), freelist = 0x87fff000, kend = 0x87ff0123, kernel_pagetable = 0\<rparr>) = [0x87fff000]
   \<and> distinct (fst (alloc_many kalloc 1 \<lparr>procs = [], cur = None, nextpid = 1, initproc = None, ticks = 0,
       kout = [], mem = (\<lambda>_. 0), freelist = 0x87fff000, kend = 0x87ff0123, kernel_pagetable = 0\<rparr>))"
proof -
  let ?s = "\<lparr>procs = [], cur = None, nextpid = 1, initproc = None, ticks = 0, kout = [],
       mem = (\<lambda>_. 0), freelist = 0x87fff000, kend = 0x87ff0123, kernel_pagetable = 0\<rparr> :: mem_st"
  have "kmem_ok ?s [0x87fff000]"
    by (simp add: kmem_ok_def usable_page_def load64_def PHYSTOP_def KERNBASE_def)
  from kalloc_distinct [OF this, of 1] show ?thesis by (simp add: kalloc_def Let_def)
qed

end
