(* ===== verification/Vm.thy ===== *)
theory Vm
  imports Physmem
begin

text \<open>
  Page tables, \<^verbatim>\<open>src/kernel/vm.c\<close>, and the two copying routines of \<^verbatim>\<open>src/kernel/proc.c\<close> that
  choose between user and kernel addresses. A page table is the physical address of its
  root page; entries are read and written in the byte memory, so a \<^verbatim>\<open>pte_t *\<close> is an address.
  The kernel maps physical memory one to one: a kernel pointer is a physical address.

  Bytes that the code copies from or to a kernel object outside that memory (a buffer of the
  block cache, a local variable) are lists: \<open>copyout\<close> takes the bytes to be written, \<open>copyin\<close>
  and \<open>copyinstr\<close> return the bytes they stored in their destination, also when they fail.
\<close>

section \<open>Bytes in memory\<close>

definition put_mem :: "uint64 \<Rightarrow> uchar list \<Rightarrow> mem \<Rightarrow> mem" where
  "put_mem a bs m = (\<lambda>x. if unat (x - a) < length bs then bs ! unat (x - a) else m x)"

definition get_mem :: "mem \<Rightarrow> uint64 \<Rightarrow> nat \<Rightarrow> uchar list" where
  "get_mem m a n = map (\<lambda>i. m (a + of_nat i)) [0..<n]"

section \<open>Walking a page table\<close>

text \<open>
  The levels of \<^verbatim>\<open>walk\<close> above the last one, from level \<open>l\<close> down: \<open>None\<close> is the early return of
  the null pointer.
\<close>

primrec walk_levels ::
  "nat \<Rightarrow> uint64 \<Rightarrow> uint64 \<Rightarrow> bool \<Rightarrow> 'a mem_st_scheme \<Rightarrow> uint64 option \<times> 'a mem_st_scheme" where
  "walk_levels 0 pagetable va alloc s = (Some pagetable, s)"
| "walk_levels (Suc l) pagetable va alloc s =
     (let pte = pagetable + 8 * PX (Suc l) va in
      if load64 (mem s) pte AND PTE_V \<noteq> 0
      then walk_levels l (PTE2PA (load64 (mem s) pte)) va alloc s
      else if \<not> alloc then (None, s)
      else let (pg, s) = kalloc s in
           if pg = 0 then (None, s)
           else let s = s\<lparr>mem := memset pg 0 (unat PGSIZE) (mem s)\<rparr>;
                    s = s\<lparr>mem := store64 pte (PA2PTE pg OR PTE_V) (mem s)\<rparr>
                in walk_levels l pg va alloc s)"

definition walk :: "uint64 \<Rightarrow> uint64 \<Rightarrow> bool \<Rightarrow> 'a mem_st_scheme \<Rightarrow> (uint64, 'a mem_st_scheme) outcome" where
  "walk pagetable va alloc s =
     (if va \<ge> MAXVA then Panic ''walk''
      else case walk_levels 2 pagetable va alloc s of
          (None, s) \<Rightarrow> Ret 0 s
        | (Some pt, s) \<Rightarrow> Ret (pt + 8 * PX 0 va) s)"

definition walkaddr :: "uint64 \<Rightarrow> uint64 \<Rightarrow> 'a mem_st_scheme \<Rightarrow> (uint64, 'a mem_st_scheme) outcome" where
  "walkaddr pagetable va s =
     (if va \<ge> MAXVA then Ret 0 s
      else bindK (walk pagetable va False s) (\<lambda>pte s.
        if pte = 0 then Ret 0 s
        else if load64 (mem s) pte AND PTE_V = 0 then Ret 0 s
        else if load64 (mem s) pte AND PTE_U = 0 then Ret 0 s
        else Ret (PTE2PA (load64 (mem s) pte)) s))"

section \<open>Mapping and unmapping\<close>

text \<open>The first argument bounds the iterations of the loop; one for each page is enough.\<close>

primrec mappages_loop ::
  "nat \<Rightarrow> uint64 \<Rightarrow> uint64 \<Rightarrow> uint64 \<Rightarrow> uint64 \<Rightarrow> uint64 \<Rightarrow> 'a mem_st_scheme \<Rightarrow> (int, 'a mem_st_scheme) outcome" where
  "mappages_loop 0 pagetable a lst pa perm s = Stuck"
| "mappages_loop (Suc k) pagetable a lst pa perm s =
     bindK (walk pagetable a True s) (\<lambda>pte s.
       if pte = 0 then Ret (- 1) s
       else if load64 (mem s) pte AND PTE_V \<noteq> 0 then Panic ''mappages: remap''
       else let s = s\<lparr>mem := store64 pte (PA2PTE pa OR perm OR PTE_V) (mem s)\<rparr> in
            if a = lst then Ret 0 s
            else mappages_loop k pagetable (a + PGSIZE) lst (pa + PGSIZE) perm s)"

definition mappages ::
  "uint64 \<Rightarrow> uint64 \<Rightarrow> uint64 \<Rightarrow> uint64 \<Rightarrow> uint64 \<Rightarrow> 'a mem_st_scheme \<Rightarrow> (int, 'a mem_st_scheme) outcome" where
  "mappages pagetable va sz pa perm s =
     (if va mod PGSIZE \<noteq> 0 then Panic ''mappages: va not aligned''
      else if sz mod PGSIZE \<noteq> 0 then Panic ''mappages: size not aligned''
      else if sz = 0 then Panic ''mappages: size''
      else mappages_loop (unat (sz div PGSIZE)) pagetable va (va + sz - PGSIZE) pa perm s)"

definition kvmmap ::
  "uint64 \<Rightarrow> uint64 \<Rightarrow> uint64 \<Rightarrow> uint64 \<Rightarrow> uint64 \<Rightarrow> 'a mem_st_scheme \<Rightarrow> (unit, 'a mem_st_scheme) outcome" where
  "kvmmap kpgtbl va pa sz perm s =
     bindK (mappages kpgtbl va sz pa perm s) (\<lambda>r s. if r \<noteq> 0 then Panic ''kvmmap'' else Ret () s)"

definition proc_mapstacks :: "uint64 \<Rightarrow> 'a mem_st_scheme \<Rightarrow> (unit, 'a mem_st_scheme) outcome" where
  "proc_mapstacks kpgtbl s = forK [0..<NPROC] (\<lambda>i s.
     let (pa, s) = kalloc s in
     if pa = 0 then Panic ''kalloc''
     else kvmmap kpgtbl (KSTACK i) pa PGSIZE (PTE_R OR PTE_W) s) s"

text \<open>
  \<open>etext\<close> and \<open>trampoline\<close> are the addresses the linker gives these symbols. A failed \<open>kalloc\<close>
  is used as a pointer here.
\<close>

definition kvmmake :: "uint64 \<Rightarrow> uint64 \<Rightarrow> 'a mem_st_scheme \<Rightarrow> (uint64, 'a mem_st_scheme) outcome" where
  "kvmmake etext trampoline s =
     (let (kpgtbl, s) = kalloc s in
      if kpgtbl = 0 then Stuck else
      let s = s\<lparr>mem := memset kpgtbl 0 (unat PGSIZE) (mem s)\<rparr> in
      bindK (kvmmap kpgtbl UART0 UART0 PGSIZE (PTE_R OR PTE_W) s) (\<lambda>_ s.
      bindK (kvmmap kpgtbl VIRTIO0 VIRTIO0 PGSIZE (PTE_R OR PTE_W) s) (\<lambda>_ s.
      bindK (kvmmap kpgtbl PLIC PLIC 0x4000000 (PTE_R OR PTE_W) s) (\<lambda>_ s.
      bindK (kvmmap kpgtbl KERNBASE KERNBASE (etext - KERNBASE) (PTE_R OR PTE_X) s) (\<lambda>_ s.
      bindK (kvmmap kpgtbl etext etext (PHYSTOP - etext) (PTE_R OR PTE_W) s) (\<lambda>_ s.
      bindK (kvmmap kpgtbl TRAMPOLINE trampoline PGSIZE (PTE_R OR PTE_X) s) (\<lambda>_ s.
      bindK (proc_mapstacks kpgtbl s) (\<lambda>_ s. Ret kpgtbl s))))))))"

definition kvminit :: "uint64 \<Rightarrow> uint64 \<Rightarrow> 'a mem_st_scheme \<Rightarrow> (unit, 'a mem_st_scheme) outcome" where
  "kvminit etext trampoline s =
     bindK (kvmmake etext trampoline s) (\<lambda>k s. Ret () (s\<lparr>kernel_pagetable := k\<rparr>))"

primrec uvmunmap_loop ::
  "nat \<Rightarrow> uint64 \<Rightarrow> uint64 \<Rightarrow> uint64 \<Rightarrow> bool \<Rightarrow> 'a mem_st_scheme \<Rightarrow> (unit, 'a mem_st_scheme) outcome" where
  "uvmunmap_loop 0 pagetable a e do_free s = Stuck"
| "uvmunmap_loop (Suc k) pagetable a e do_free s =
     (if a < e then
        bindK (walk pagetable a False s) (\<lambda>pte s.
          if pte = 0 then Panic ''uvmunmap: walk''
          else if load64 (mem s) pte AND PTE_V = 0 then Panic ''uvmunmap: not mapped''
          else if PTE_FLAGS (load64 (mem s) pte) = PTE_V then Panic ''uvmunmap: not a leaf''
          else bindK (if do_free then kfree (PTE2PA (load64 (mem s) pte)) s else Ret () s) (\<lambda>_ s.
            uvmunmap_loop k pagetable (a + PGSIZE) e do_free (s\<lparr>mem := store64 pte 0 (mem s)\<rparr>)))
      else Ret () s)"

definition uvmunmap :: "uint64 \<Rightarrow> uint64 \<Rightarrow> uint64 \<Rightarrow> bool \<Rightarrow> 'a mem_st_scheme \<Rightarrow> (unit, 'a mem_st_scheme) outcome" where
  "uvmunmap pagetable va npages do_free s =
     (if va mod PGSIZE \<noteq> 0 then Panic ''uvmunmap: not aligned''
      else uvmunmap_loop (Suc (unat npages)) pagetable va (va + npages * PGSIZE) do_free s)"

section \<open>User address spaces\<close>

definition uvmcreate :: "'a mem_st_scheme \<Rightarrow> uint64 \<times> 'a mem_st_scheme" where
  "uvmcreate s =
     (let (pagetable, s) = kalloc s in
      if pagetable = 0 then (0, s)
      else (pagetable, s\<lparr>mem := memset pagetable 0 (unat PGSIZE) (mem s)\<rparr>))"

definition uvmfirst :: "uint64 \<Rightarrow> uchar list \<Rightarrow> 'a mem_st_scheme \<Rightarrow> (unit, 'a mem_st_scheme) outcome" where
  "uvmfirst pagetable src s =
     (if unat PGSIZE \<le> length src then Panic ''uvmfirst: more than a page''
      else let (pg, s) = kalloc s in
           if pg = 0 then Stuck else
           let s = s\<lparr>mem := memset pg 0 (unat PGSIZE) (mem s)\<rparr> in
           bindK (mappages pagetable 0 PGSIZE pg (PTE_W OR PTE_R OR PTE_X OR PTE_U) s) (\<lambda>_ s.
             Ret () (s\<lparr>mem := put_mem pg src (mem s)\<rparr>)))"

definition uvmdealloc :: "uint64 \<Rightarrow> uint64 \<Rightarrow> uint64 \<Rightarrow> 'a mem_st_scheme \<Rightarrow> (uint64, 'a mem_st_scheme) outcome" where
  "uvmdealloc pagetable oldsz newsz s =
     (if newsz \<ge> oldsz then Ret oldsz s
      else if PGROUNDUP newsz < PGROUNDUP oldsz
      then bindK (uvmunmap pagetable (PGROUNDUP newsz)
             (scast (ucast ((PGROUNDUP oldsz - PGROUNDUP newsz) div PGSIZE) :: uint)) True s) (\<lambda>_ s. Ret newsz s)
      else Ret newsz s)"

primrec uvmalloc_loop ::
  "nat \<Rightarrow> uint64 \<Rightarrow> uint64 \<Rightarrow> uint64 \<Rightarrow> uint64 \<Rightarrow> uint64 \<Rightarrow> 'a mem_st_scheme \<Rightarrow> (uint64, 'a mem_st_scheme) outcome" where
  "uvmalloc_loop 0 pagetable oldsz a newsz xperm s = Stuck"
| "uvmalloc_loop (Suc k) pagetable oldsz a newsz xperm s =
     (if a < newsz then
        let (pg, s) = kalloc s in
        if pg = 0 then bindK (uvmdealloc pagetable a oldsz s) (\<lambda>_ s. Ret 0 s)
        else let s = s\<lparr>mem := memset pg 0 (unat PGSIZE) (mem s)\<rparr> in
          bindK (mappages pagetable a PGSIZE pg (PTE_R OR PTE_U OR xperm) s) (\<lambda>r s.
            if r \<noteq> 0
            then bindK (kfree pg s) (\<lambda>_ s. bindK (uvmdealloc pagetable a oldsz s) (\<lambda>_ s. Ret 0 s))
            else uvmalloc_loop k pagetable oldsz (a + PGSIZE) newsz xperm s)
      else Ret newsz s)"

definition uvmalloc ::
  "uint64 \<Rightarrow> uint64 \<Rightarrow> uint64 \<Rightarrow> uint64 \<Rightarrow> 'a mem_st_scheme \<Rightarrow> (uint64, 'a mem_st_scheme) outcome" where
  "uvmalloc pagetable oldsz newsz xperm s =
     (if newsz < oldsz then Ret oldsz s
      else let oldsz = PGROUNDUP oldsz in
           uvmalloc_loop (Suc (Suc (unat newsz div 4096))) pagetable oldsz oldsz newsz xperm s)"

text \<open>
  The recursion of \<^verbatim>\<open>freewalk\<close> follows entries that point to a lower table. The first argument
  bounds its depth; a page table has three levels.
\<close>

primrec freewalk :: "nat \<Rightarrow> uint64 \<Rightarrow> 'a mem_st_scheme \<Rightarrow> (unit, 'a mem_st_scheme) outcome" where
  "freewalk 0 pagetable s = Stuck"
| "freewalk (Suc d) pagetable s =
     bindK (forK [0..<512] (\<lambda>i s.
       let pte = load64 (mem s) (pagetable + 8 * of_nat i) in
       if pte AND PTE_V \<noteq> 0 \<and> pte AND (PTE_R OR PTE_W OR PTE_X) = 0
       then bindK (freewalk d (PTE2PA pte) s) (\<lambda>_ s.
              Ret () (s\<lparr>mem := store64 (pagetable + 8 * of_nat i) 0 (mem s)\<rparr>))
       else if pte AND PTE_V \<noteq> 0 then Panic ''freewalk: leaf''
       else Ret () s) s) (\<lambda>_ s. kfree pagetable s)"

definition uvmfree :: "uint64 \<Rightarrow> uint64 \<Rightarrow> 'a mem_st_scheme \<Rightarrow> (unit, 'a mem_st_scheme) outcome" where
  "uvmfree pagetable sz s =
     bindK (if sz > 0 then uvmunmap pagetable 0 (PGROUNDUP sz div PGSIZE) True s else Ret () s) (\<lambda>_ s.
       freewalk 3 pagetable s)"

definition uvmcopy_err :: "uint64 \<Rightarrow> uint64 \<Rightarrow> 'a mem_st_scheme \<Rightarrow> (int, 'a mem_st_scheme) outcome" where
  "uvmcopy_err new i s = bindK (uvmunmap new 0 (i div PGSIZE) True s) (\<lambda>_ s. Ret (- 1) s)"

primrec uvmcopy_loop ::
  "nat \<Rightarrow> uint64 \<Rightarrow> uint64 \<Rightarrow> uint64 \<Rightarrow> uint64 \<Rightarrow> 'a mem_st_scheme \<Rightarrow> (int, 'a mem_st_scheme) outcome" where
  "uvmcopy_loop 0 old new i sz s = Stuck"
| "uvmcopy_loop (Suc k) old new i sz s =
     (if i < sz then
        bindK (walk old i False s) (\<lambda>pte s.
          if pte = 0 then Panic ''uvmcopy: pte should exist''
          else if load64 (mem s) pte AND PTE_V = 0 then Panic ''uvmcopy: page not present''
          else let pa = PTE2PA (load64 (mem s) pte);
                   flags = PTE_FLAGS (load64 (mem s) pte);
                   (pg, s) = kalloc s in
            if pg = 0 then uvmcopy_err new i s
            else let s = s\<lparr>mem := memmove pg pa (ucast PGSIZE) (mem s)\<rparr> in
              bindK (mappages new i PGSIZE pg flags s) (\<lambda>r s.
                if r \<noteq> 0 then bindK (kfree pg s) (\<lambda>_ s. uvmcopy_err new i s)
                else uvmcopy_loop k old new (i + PGSIZE) sz s))
      else Ret 0 s)"

definition uvmcopy :: "uint64 \<Rightarrow> uint64 \<Rightarrow> uint64 \<Rightarrow> 'a mem_st_scheme \<Rightarrow> (int, 'a mem_st_scheme) outcome" where
  "uvmcopy old new sz s = uvmcopy_loop (Suc (Suc (unat sz div 4096))) old new 0 sz s"

definition uvmclear :: "uint64 \<Rightarrow> uint64 \<Rightarrow> 'a mem_st_scheme \<Rightarrow> (unit, 'a mem_st_scheme) outcome" where
  "uvmclear pagetable va s =
     bindK (walk pagetable va False s) (\<lambda>pte s.
       if pte = 0 then Panic ''uvmclear''
       else Ret () (s\<lparr>mem := store64 pte (load64 (mem s) pte AND NOT PTE_U) (mem s)\<rparr>))"

section \<open>Copying between user and kernel\<close>

lemma page_offset: "unat (a - PGROUNDDOWN a) < 4096"
  using in_page_iff [of "PGROUNDDOWN a" a] by (simp add: in_page_def)

function copyout :: "uint64 \<Rightarrow> uint64 \<Rightarrow> uchar list \<Rightarrow> 'a mem_st_scheme \<Rightarrow> (int, 'a mem_st_scheme) outcome" where
  "copyout pagetable dstva src s =
     (if src = [] then Ret 0 s
      else let va0 = PGROUNDDOWN dstva in
        if va0 \<ge> MAXVA then Ret (- 1) s
        else bindK (walk pagetable va0 False s) (\<lambda>pte s.
          if pte = 0 \<or> load64 (mem s) pte AND PTE_V = 0 \<or> load64 (mem s) pte AND PTE_U = 0 \<or>
             load64 (mem s) pte AND PTE_W = 0
          then Ret (- 1) s
          else let pa0 = PTE2PA (load64 (mem s) pte);
                   n = min (4096 - unat (dstva - va0)) (length src) in
               copyout pagetable (va0 + PGSIZE) (drop n src)
                 (s\<lparr>mem := put_mem (pa0 + (dstva - va0)) (take n src) (mem s)\<rparr>)))"
  by pat_completeness auto
termination
  by (relation "measure (\<lambda>(pt, va, src, s). length src)") (use page_offset in \<open>auto simp: Let_def\<close>)

declare copyout.simps [simp del]

function copyin :: "uint64 \<Rightarrow> uint64 \<Rightarrow> nat \<Rightarrow> 'a mem_st_scheme \<Rightarrow> (int \<times> uchar list, 'a mem_st_scheme) outcome" where
  "copyin pagetable srcva len s =
     (if len = 0 then Ret (0, []) s
      else let va0 = PGROUNDDOWN srcva in
        bindK (walkaddr pagetable va0 s) (\<lambda>pa0 s.
          if pa0 = 0 then Ret (- 1, []) s
          else let n = min (4096 - unat (srcva - va0)) len;
                   bs = get_mem (mem s) (pa0 + (srcva - va0)) n in
               bindK (copyin pagetable (va0 + PGSIZE) (len - n) s) (\<lambda>r s. Ret (fst r, bs @ snd r) s)))"
  by pat_completeness auto
termination
  by (relation "measure (\<lambda>(pt, va, len, s). len)") (use page_offset in \<open>auto simp: Let_def\<close>)

declare copyin.simps [simp del]

function copyinstr :: "uint64 \<Rightarrow> uint64 \<Rightarrow> nat \<Rightarrow> 'a mem_st_scheme \<Rightarrow> (int \<times> uchar list, 'a mem_st_scheme) outcome" where
  "copyinstr pagetable srcva mx s =
     (if mx = 0 then Ret (- 1, []) s
      else let va0 = PGROUNDDOWN srcva in
        bindK (walkaddr pagetable va0 s) (\<lambda>pa0 s.
          if pa0 = 0 then Ret (- 1, []) s
          else let n = min (4096 - unat (srcva - va0)) mx;
                   bs = get_mem (mem s) (pa0 + (srcva - va0)) n;
                   t = takeWhile (\<lambda>c. c \<noteq> 0) bs in
               if length t < n then Ret (0, t @ [0]) s
               else bindK (copyinstr pagetable (va0 + PGSIZE) (mx - n) s) (\<lambda>r s. Ret (fst r, bs @ snd r) s)))"
  by pat_completeness auto
termination
  by (relation "measure (\<lambda>(pt, va, mx, s). mx)") (use page_offset in \<open>auto simp: Let_def\<close>)

declare copyinstr.simps [simp del]

definition either_copyout :: "bool \<Rightarrow> uint64 \<Rightarrow> uchar list \<Rightarrow> 'a mem_st_scheme \<Rightarrow> (int, 'a mem_st_scheme) outcome" where
  "either_copyout user_dst dst src s =
     (if user_dst then
        (case cur s of None \<Rightarrow> Panic ''kerneltrap'' | Some i \<Rightarrow> copyout (p_pagetable (procs s ! i)) dst src s)
      else Ret 0 (s\<lparr>mem := put_mem dst src (mem s)\<rparr>))"

definition either_copyin :: "bool \<Rightarrow> uint64 \<Rightarrow> nat \<Rightarrow> 'a mem_st_scheme \<Rightarrow> (int \<times> uchar list, 'a mem_st_scheme) outcome" where
  "either_copyin user_src src len s =
     (if user_src then
        (case cur s of None \<Rightarrow> Panic ''kerneltrap'' | Some i \<Rightarrow> copyin (p_pagetable (procs s ! i)) src len s)
      else Ret (0, get_mem (mem s) src len) s)"

section \<open>What a page table means\<close>

text \<open>
  The table page reached after \<open>k\<close> steps of a walk for \<open>va\<close>, the leaf entry (0 when the walk
  ends early), and the frame of a user page (0 when it has none).
\<close>

primrec table :: "mem \<Rightarrow> uint64 \<Rightarrow> uint64 \<Rightarrow> nat \<Rightarrow> uint64 option" where
  "table m pt va 0 = Some pt"
| "table m pt va (Suc k) = (case table m pt va k of
      None \<Rightarrow> None
    | Some p \<Rightarrow> let e = load64 m (p + 8 * PX (2 - k) va) in if e AND PTE_V \<noteq> 0 then Some (PTE2PA e) else None)"

definition pte_of :: "mem \<Rightarrow> uint64 \<Rightarrow> uint64 \<Rightarrow> uint64" where
  "pte_of m pt va = (case table m pt va 2 of None \<Rightarrow> 0 | Some p \<Rightarrow> p + 8 * PX 0 va)"

definition leaf :: "mem \<Rightarrow> uint64 \<Rightarrow> uint64 \<Rightarrow> uint64" where
  "leaf m pt va = (if pte_of m pt va = 0 then 0 else load64 m (pte_of m pt va))"

definition frame :: "mem \<Rightarrow> uint64 \<Rightarrow> uint64 \<Rightarrow> uint64" where
  "frame m pt va =
     (if va \<ge> MAXVA \<or> leaf m pt va AND PTE_V = 0 \<or> leaf m pt va AND PTE_U = 0 then 0
      else PTE2PA (leaf m pt va))"

text \<open>The byte a user program sees at an address.\<close>

definition umem :: "mem \<Rightarrow> uint64 \<Rightarrow> uint64 \<Rightarrow> uchar option" where
  "umem m pt va = (let va0 = PGROUNDDOWN va; pa0 = frame m pt va0 in
     if pa0 = 0 then None else Some (m (pa0 + (va - va0))))"

lemma walk_noalloc: "va < MAXVA \<Longrightarrow> walk pt va False s = Ret (pte_of (mem s) pt va) s"
  by (auto simp: walk_def pte_of_def numeral_2_eq_2 Let_def not_le split: option.splits)

lemma walkaddr_frame: "walkaddr pt va s = Ret (frame (mem s) pt va) s"
  by (cases "va < MAXVA") (auto simp: walkaddr_def frame_def leaf_def walk_noalloc not_less)

lemma PTE2PA_aligned [simp]: "page_aligned (PTE2PA e)"
proof -
  have "unat (PTE2PA e) = unat (push_bit 12 (drop_bit 12 (PTE2PA e)))"
    by (intro arg_cong [where f = unat] bit_word_eqI) (auto simp: PTE2PA_def bit_simps)
  then have "unat (PTE2PA e) = unat (PTE2PA e) div 4096 * 4096" by (simp add: unat_shift_round)
  then show ?thesis by (metis dvd_triv_right)
qed

text \<open>Consecutive addresses within one page.\<close>

lemma page_run:
  assumes "i < 4096 - unat (va - PGROUNDDOWN va)"
  shows "PGROUNDDOWN (va + of_nat i) = PGROUNDDOWN va"
    and "va + of_nat i - PGROUNDDOWN va = (va - PGROUNDDOWN va) + of_nat i"
proof -
  have "unat (va - PGROUNDDOWN va + of_nat i) = unat (va - PGROUNDDOWN va) + i"
    using assms page_offset [of va] by (simp add: unat_word_ariths unat_of_nat)
  then have "in_page (PGROUNDDOWN va) (va + of_nat i)"
    using assms by (simp add: in_page_def algebra_simps)
  then show "PGROUNDDOWN (va + of_nat i) = PGROUNDDOWN va" by (simp add: in_page_iff)
qed (simp add: algebra_simps)

lemma page_next:
  assumes "n = 4096 - unat (va - PGROUNDDOWN va)"
  shows "PGROUNDDOWN va + PGSIZE = va + of_nat n"
proof -
  have "of_nat n = (4096 :: uint64) - (va - PGROUNDDOWN va)"
    using assms page_offset [of va] by (simp add: of_nat_diff)
  then show ?thesis by (simp add: PGSIZE_def)
qed

lemma page_next_min:
  assumes "n = min (4096 - unat (va - PGROUNDDOWN va)) len"
  shows "len - n = 0 \<or> PGROUNDDOWN va + PGSIZE = va + of_nat n"
proof (cases "len \<le> 4096 - unat (va - PGROUNDDOWN va)")
  case False
  then show ?thesis using assms page_next [of n va] by simp
qed (simp add: assms)

lemma umem_run:
  assumes "i < 4096 - unat (va - PGROUNDDOWN va)"
  shows "umem m pt (va + of_nat i) =
    (if frame m pt (PGROUNDDOWN va) = 0 then None
     else Some (m (frame m pt (PGROUNDDOWN va) + (va - PGROUNDDOWN va) + of_nat i)))"
  using page_run(1) [OF assms] by (simp add: umem_def Let_def algebra_simps)

text \<open>The bytes of user memory from \<open>va\<close> on, if all of them are mapped.\<close>

definition ubytes :: "mem \<Rightarrow> uint64 \<Rightarrow> uint64 \<Rightarrow> nat \<Rightarrow> uchar list option" where
  "ubytes m pt va n = those (map (\<lambda>i. umem m pt (va + of_nat i)) [0..<n])"

lemma those_append:
  "those (xs @ ys) = (case those xs of None \<Rightarrow> None | Some a \<Rightarrow> map_option (append a) (those ys))"
proof (induction xs)
  case Nil
  show ?case by (cases "those ys") auto
next
  case (Cons x xs)
  then show ?case by (cases "those ys") (auto split: option.splits)
qed

lemma those_Some: "those (map Some xs) = Some xs"
  by (induction xs) auto

lemma ubytes_split:
  assumes "n \<le> len"
  shows "ubytes m pt va len = (case ubytes m pt va n of None \<Rightarrow> None
     | Some a \<Rightarrow> map_option (append a) (ubytes m pt (va + of_nat n) (len - n)))"
proof -
  have "[0..<len] = [0..<n] @ map (\<lambda>i. n + i) [0..<len - n]"
    using assms map_add_upt [of n "len - n"] upt_add_eq_append [of 0 n "len - n"] by (simp add: add.commute)
  then show ?thesis
    by (simp add: ubytes_def those_append comp_def add.assoc split: option.split)
qed

lemma ubytes_page:
  assumes "n \<le> 4096 - unat (va - PGROUNDDOWN va)" and "0 < n"
  shows "ubytes m pt va n = (if frame m pt (PGROUNDDOWN va) = 0 then None
     else Some (get_mem m (frame m pt (PGROUNDDOWN va) + (va - PGROUNDDOWN va)) n))"
proof (cases "frame m pt (PGROUNDDOWN va) = 0")
  case True
  have "umem m pt (va + of_nat 0) = None" using umem_run [of 0 va m pt] assms True by simp
  moreover have "[0..<n] = 0 # [1..<n]" using assms(2) by (simp add: upt_conv_Cons)
  ultimately show ?thesis using True by (simp add: ubytes_def)
next
  case False
  have "map (\<lambda>i. umem m pt (va + of_nat i)) [0..<n] =
      map Some (get_mem m (frame m pt (PGROUNDDOWN va) + (va - PGROUNDDOWN va)) n)"
    using umem_run assms(1) False by (auto simp: get_mem_def)
  then show ?thesis using False by (simp add: ubytes_def those_Some)
qed

lemma ubytes_nth: "ubytes m pt va n = Some bs \<Longrightarrow> length bs = n \<and> (\<forall>i < n. umem m pt (va + of_nat i) = Some (bs ! i))"
proof -
  have "those xs = Some bs \<Longrightarrow> length bs = length xs \<and> (\<forall>i < length xs. xs ! i = Some (bs ! i))"
    for xs and bs :: "uchar list"
    by (induction xs arbitrary: bs) (auto split: option.splits simp: nth_Cons')
  from this [of "map (\<lambda>i. umem m pt (va + of_nat i)) [0..<n]" bs]
  show "ubytes m pt va n = Some bs \<Longrightarrow> length bs = n \<and> (\<forall>i < n. umem m pt (va + of_nat i) = Some (bs ! i))"
    by (simp add: ubytes_def)
qed

lemma ubytes_Some_split:
  assumes "n \<le> len"
  shows "ubytes m pt va len = Some b \<longleftrightarrow>
    (\<exists>c d. b = c @ d \<and> ubytes m pt va n = Some c \<and> ubytes m pt (va + of_nat n) (len - n) = Some d)"
  unfolding ubytes_split [OF assms] by (auto split: option.splits)

lemma ubytes_length: "ubytes m pt va n = Some bs \<Longrightarrow> length bs = n"
  using ubytes_nth by blast

lemma copyin_step:
  assumes "0 < len" and n: "n = min (4096 - unat (va - PGROUNDDOWN va)) len"
  shows "copyin pt va len s = (case ubytes (mem s) pt va n of
      None \<Rightarrow> Ret (- 1, []) s
    | Some b \<Rightarrow> bindK (copyin pt (PGROUNDDOWN va + PGSIZE) (len - n) s) (\<lambda>r s. Ret (fst r, b @ snd r) s))"
proof -
  have "0 < n" "n \<le> 4096 - unat (va - PGROUNDDOWN va)" using assms page_offset [of va] by auto
  note page = ubytes_page [OF this(2,1)]
  show ?thesis
    unfolding page copyin.simps [of pt va len] walkaddr_frame bindK.simps Let_def n [symmetric]
    using assms(1) by simp
qed

lemma copyin_spec:
  "\<exists>r bs. copyin pt va len s = Ret (r, bs) s \<and> length bs \<le> len \<and>
     (r = 0 \<and> ubytes (mem s) pt va len = Some bs \<or> r = - 1 \<and> ubytes (mem s) pt va len = None)"
proof (induction len arbitrary: va rule: less_induct)
  case (less len)
  define n where "n = min (4096 - unat (va - PGROUNDDOWN va)) len"
  let ?p = "PGROUNDDOWN va"
  show ?case
  proof (cases "len = 0")
    case True
    then show ?thesis by (simp add: copyin.simps [of pt va 0] ubytes_def)
  next
    case False
    then have n: "0 < n" "n \<le> len" using page_offset [of va] by (auto simp: n_def)
    note step = copyin_step [OF _ n_def, of pt s] and split = ubytes_split [OF n(2), of "mem s" pt va]
    show ?thesis
    proof (cases "ubytes (mem s) pt va n")
      case None
      then show ?thesis using step split False by simp
    next
      case (Some b)
      have lb: "length b = n" by (rule ubytes_length [OF Some])
      have "len - n < len" using n False by simp
      from less.IH [OF this, of "?p + PGSIZE"] obtain r bs
        where r: "copyin pt (?p + PGSIZE) (len - n) s = Ret (r, bs) s" "length bs \<le> len - n"
          "r = 0 \<and> ubytes (mem s) pt (?p + PGSIZE) (len - n) = Some bs \<or>
           r = - 1 \<and> ubytes (mem s) pt (?p + PGSIZE) (len - n) = None" by blast
      have "ubytes (mem s) pt (?p + PGSIZE) (len - n) = ubytes (mem s) pt (va + of_nat n) (len - n)"
        using page_next_min [OF n_def] by (auto simp: ubytes_def)
      then have "r = 0 \<and> ubytes (mem s) pt va len = Some (b @ bs) \<or> r = - 1 \<and> ubytes (mem s) pt va len = None"
        using r(3) split Some by auto
      moreover have "copyin pt va len s = Ret (r, b @ bs) s" using step Some r(1) False by simp
      moreover have "length (b @ bs) \<le> len" using r(2) lb n(2) by simp
      ultimately show ?thesis by blast
    qed
  qed
qed

text \<open>C14: \<open>copyin\<close> always returns and changes nothing; it succeeds exactly when all of the range is
  mapped for the user, and then what it stored are the bytes the user program sees there.\<close>

theorem copyin_correct:
  "okK (copyin pt va len s) (\<lambda>(r, bs) s'. s' = s \<and>
     (r = 0 \<and> ubytes (mem s) pt va len = Some bs \<or> r = - 1 \<and> ubytes (mem s) pt va len = None))"
  using copyin_spec [of pt va len s] by auto

text \<open>The null-terminated string at a user address.\<close>

definition ustring :: "mem \<Rightarrow> uint64 \<Rightarrow> uint64 \<Rightarrow> uchar list \<Rightarrow> bool" where
  "ustring m pt va bs \<longleftrightarrow> bs \<noteq> [] \<and> last bs = 0 \<and> 0 \<notin> set (butlast bs) \<and> ubytes m pt va (length bs) = Some bs"

lemma ubytes_take:
  assumes "ubytes m pt va n = Some b" and "k \<le> n"
  shows "ubytes m pt va k = Some (take k b)"
proof -
  obtain c d where c: "b = c @ d" "ubytes m pt va k = Some c"
    using assms ubytes_Some_split [OF assms(2)] by blast
  then show ?thesis using ubytes_length [OF c(2)] by simp
qed

lemma ustring_unique:
  assumes "ubytes m pt va n = Some b" and "0 \<notin> set b" and "ustring m pt va bs"
  shows "n < length bs" and "ustring m pt (va + of_nat n) (drop n bs)"
proof -
  have z: "0 \<in> set bs" using assms(3) unfolding ustring_def by (metis last_in_set)
  show lt: "n < length bs"
  proof (rule ccontr)
    assume "\<not> n < length bs"
    then have "bs = take (length bs) b"
      using ubytes_take [OF assms(1), of "length bs"] assms(3) by (simp add: ustring_def)
    then show False using z assms(2) by (metis in_set_takeD)
  qed
  have u: "ubytes m pt va (length bs) = Some bs" using assms(3) by (simp add: ustring_def)
  obtain c d where c: "bs = c @ d" "ubytes m pt va n = Some c" "ubytes m pt (va + of_nat n) (length bs - n) = Some d"
    using u ubytes_Some_split [of n "length bs" m pt va bs] lt by auto
  have "drop n bs = d" using c(1) ubytes_length [OF c(2)] by simp
  then have "ubytes m pt (va + of_nat n) (length bs - n) = Some (drop n bs)" using c(3) by simp
  then show "ustring m pt (va + of_nat n) (drop n bs)"
    using assms(3) lt by (auto simp: ustring_def butlast_drop dest: in_set_dropD)
qed

lemma ustring_append:
  assumes "ubytes m pt va n = Some b" and "0 \<notin> set b" and "ustring m pt (va + of_nat n) bs"
  shows "ustring m pt va (b @ bs)"
proof -
  have "length b = n" using ubytes_nth [OF assms(1)] by simp
  then show ?thesis
    using assms ubytes_split [of n "length (b @ bs)" m pt va] by (simp add: ustring_def butlast_append)
qed

lemma ustring_here:
  assumes "ubytes m pt va n = Some b" and "length (takeWhile (\<lambda>c. c \<noteq> 0) b) < n"
  shows "ustring m pt va (takeWhile (\<lambda>c. c \<noteq> 0) b @ [0])"
proof -
  let ?t = "takeWhile (\<lambda>c. c \<noteq> 0) b"
  have lb: "length b = n" using ubytes_nth [OF assms(1)] by simp
  have z: "b ! length ?t = 0" using nth_length_takeWhile [of "\<lambda>c. c \<noteq> 0" b] assms(2) lb by simp
  have "take (length ?t) b = ?t" by (metis takeWhile_eq_take)
  then have "take (Suc (length ?t)) b = ?t @ [0]"
    using assms(2) lb z by (simp add: take_Suc_conv_app_nth)
  then have "ubytes m pt va (Suc (length ?t)) = Some (?t @ [0])"
    using ubytes_take [OF assms(1), of "Suc (length ?t)"] assms(2) by simp
  moreover have "0 \<notin> set ?t" using set_takeWhileD by fastforce
  ultimately show ?thesis by (simp add: ustring_def)
qed

lemma copyinstr_step:
  assumes "0 < mx" and n: "n = min (4096 - unat (va - PGROUNDDOWN va)) mx"
  shows "copyinstr pt va mx s = (case ubytes (mem s) pt va n of
      None \<Rightarrow> Ret (- 1, []) s
    | Some b \<Rightarrow> if length (takeWhile (\<lambda>c. c \<noteq> 0) b) < n then Ret (0, takeWhile (\<lambda>c. c \<noteq> 0) b @ [0]) s
       else bindK (copyinstr pt (PGROUNDDOWN va + PGSIZE) (mx - n) s) (\<lambda>r s. Ret (fst r, b @ snd r) s))"
proof -
  have "0 < n" "n \<le> 4096 - unat (va - PGROUNDDOWN va)" using assms page_offset [of va] by auto
  note page = ubytes_page [OF this(2,1)]
  show ?thesis
    unfolding page copyinstr.simps [of pt va mx] walkaddr_frame bindK.simps Let_def n [symmetric]
    using assms(1) by simp
qed

lemma copyinstr_spec:
  "\<exists>r bs. copyinstr pt va mx s = Ret (r, bs) s \<and> length bs \<le> mx \<and>
     (r = 0 \<and> ustring (mem s) pt va bs \<or> r = - 1 \<and> (\<forall>b. ustring (mem s) pt va b \<longrightarrow> mx < length b))"
proof (induction mx arbitrary: va rule: less_induct)
  case (less mx)
  define n where "n = min (4096 - unat (va - PGROUNDDOWN va)) mx"
  let ?p = "PGROUNDDOWN va"
  show ?case
  proof (cases "mx = 0")
    case True
    then show ?thesis by (auto simp: copyinstr.simps [of pt va 0] ustring_def)
  next
    case False
    then have n: "0 < n" "n \<le> mx" using page_offset [of va] by (auto simp: n_def)
    note step = copyinstr_step [OF _ n_def, of pt s]
    show ?thesis
    proof (cases "ubytes (mem s) pt va n")
      case None
      have "umem (mem s) pt (va + of_nat 0) = None"
        using None ubytes_page [of n va "mem s" pt] umem_run [of 0 va "mem s" pt] n(1) page_offset [of va]
        by (auto simp: n_def split: if_splits)
      moreover have "umem (mem s) pt (va + of_nat 0) = Some (b ! 0)" if "ustring (mem s) pt va b" for b
        using that ubytes_nth [of "mem s" pt va "length b" b] by (auto simp: ustring_def)
      ultimately have "\<not> ustring (mem s) pt va b" for b by fastforce
      then show ?thesis using None step False by simp
    next
      case (Some b)
      have lb: "length b = n" by (rule ubytes_length [OF Some])
      show ?thesis
      proof (cases "length (takeWhile (\<lambda>c. c \<noteq> 0) b) < n")
        case True
        then show ?thesis using step False Some ustring_here [OF Some True] n(2) by auto
      next
        case all: False
        then have "takeWhile (\<lambda>c. c \<noteq> 0) b = b" using lb by (metis takeWhile_eq_take take_all not_less)
        then have nz: "0 \<notin> set b" unfolding takeWhile_eq_all_conv by blast
        obtain r bs where r: "copyinstr pt (?p + PGSIZE) (mx - n) s = Ret (r, bs) s" "length bs \<le> mx - n"
          "r = 0 \<and> ustring (mem s) pt (?p + PGSIZE) bs \<or>
           r = - 1 \<and> (\<forall>b. ustring (mem s) pt (?p + PGSIZE) b \<longrightarrow> mx - n < length b)"
          using less.IH [of "mx - n" "?p + PGSIZE"] n False by force
        have "r = 0 \<and> ustring (mem s) pt va (b @ bs) \<or> r = - 1 \<and> (\<forall>b. ustring (mem s) pt va b \<longrightarrow> mx < length b)"
        proof (cases "mx - n = 0")
          case True
          then have "r = - 1" "n = mx" using r(2,3) n(2) by (auto simp: ustring_def)
          then show ?thesis using ustring_unique(1) [OF Some nz] by auto
        next
          case more: False
          then have nx: "?p + PGSIZE = va + of_nat n" using page_next_min [OF n_def] by simp
          have "mx < length b" if "ustring (mem s) pt va b" "r = - 1" for b
          proof -
            have "ustring (mem s) pt (?p + PGSIZE) (drop n b)"
              using ustring_unique(2) [OF Some nz that(1)] nx by simp
            moreover have "\<forall>b. ustring (mem s) pt (?p + PGSIZE) b \<longrightarrow> mx - n < length b" using that(2) r(3) by simp
            ultimately have "mx - n < length (drop n b)" by blast
            then show ?thesis by simp
          qed
          moreover have "ustring (mem s) pt va (b @ bs)" if "ustring (mem s) pt (?p + PGSIZE) bs"
            using ustring_append [OF Some nz] that nx by simp
          ultimately show ?thesis using r(3) by blast
        qed
        moreover have "copyinstr pt va mx s = Ret (r, b @ bs) s" using step Some all r(1) False by simp
        moreover have "length (b @ bs) \<le> mx" using r(2) lb n(2) by simp
        ultimately show ?thesis by blast
      qed
    qed
  qed
qed

section \<open>Writing user memory\<close>

text \<open>
  A well-formed address space: no table page and no user page is page 0, user pages are not
  table pages, and different user pages have different frames.
\<close>

definition tables :: "mem \<Rightarrow> uint64 \<Rightarrow> uint64 set" where
  "tables m pt = {p. \<exists>va k. k \<le> 2 \<and> table m pt va k = Some p}"

definition space_ok :: "mem \<Rightarrow> uint64 \<Rightarrow> bool" where
  "space_ok m pt \<longleftrightarrow> page_aligned pt \<and> 0 \<notin> tables m pt \<and>
     (\<forall>va. va < MAXVA \<longrightarrow> leaf m pt va AND PTE_V \<noteq> 0 \<longrightarrow> leaf m pt va AND PTE_U \<noteq> 0 \<longrightarrow> frame m pt va \<noteq> 0) \<and>
     (\<forall>va. frame m pt va \<noteq> 0 \<longrightarrow> frame m pt va \<notin> tables m pt) \<and>
     (\<forall>va va'. frame m pt va \<noteq> 0 \<longrightarrow> frame m pt va = frame m pt va' \<longrightarrow> PGROUNDDOWN va = PGROUNDDOWN va')"

definition writable :: "mem \<Rightarrow> uint64 \<Rightarrow> uint64 \<Rightarrow> bool" where
  "writable m pt va \<longleftrightarrow> frame m pt va \<noteq> 0 \<and> leaf m pt va AND PTE_W \<noteq> 0"

lemma tablesI: "table m pt va k = Some p \<Longrightarrow> k \<le> 2 \<Longrightarrow> p \<in> tables m pt"
  unfolding tables_def by blast

lemma table_aligned: "page_aligned pt \<Longrightarrow> table m pt va k = Some p \<Longrightarrow> page_aligned p"
  by (cases k) (auto simp: Let_def split: option.splits if_splits)

lemma entry_offset: "8 * PX l va = of_nat (8 * unat (PX l va))" "8 * unat (PX l va) + 8 \<le> 4096"
  using PX_bound [of l va] by auto

text \<open>The meaning of a table depends on the table pages only.\<close>

lemma table_cong:
  assumes al: "page_aligned pt" and same: "\<And>p x. p \<in> tables m pt \<Longrightarrow> in_page p x \<Longrightarrow> m' x = m x" and "k \<le> 2"
  shows "table m' pt va k = table m pt va k"
  using assms(3)
proof (induction k)
  case (Suc k)
  then have IH: "table m' pt va k = table m pt va k" by simp
  show ?case
  proof (cases "table m pt va k")
    case (Some p)
    then have "p \<in> tables m pt" using Suc.prems by (intro tablesI) auto
    then have "load64 m' (p + 8 * PX (2 - k) va) = load64 m (p + 8 * PX (2 - k) va)"
      unfolding entry_offset(1)
      by (intro load64_other_page) (use same entry_offset(2) in auto)
    then show ?thesis using IH Some by simp
  qed (use IH in simp)
qed simp

lemma leaf_cong:
  assumes al: "page_aligned pt" and same: "\<And>p x. p \<in> tables m pt \<Longrightarrow> in_page p x \<Longrightarrow> m' x = m x"
  shows "leaf m' pt = leaf m pt" "frame m' pt = frame m pt" "tables m' pt = tables m pt"
proof -
  have t: "table m' pt va k = table m pt va k" if "k \<le> 2" for va k
    by (rule table_cong [OF al same that])
  then have pte: "pte_of m' pt va = pte_of m pt va" for va by (simp add: pte_of_def)
  have "leaf m' pt va = leaf m pt va" for va
  proof (cases "table m pt va 2")
    case None
    then show ?thesis using pte by (simp add: leaf_def pte_of_def)
  next
    case (Some p)
    then have "p \<in> tables m pt" by (rule tablesI) simp
    then have "load64 m' (p + 8 * PX 0 va) = load64 m (p + 8 * PX 0 va)"
      unfolding entry_offset(1)
      by (intro load64_other_page) (use same entry_offset(2) in auto)
    then show ?thesis using pte Some by (simp add: leaf_def pte_of_def t)
  qed
  then show l: "leaf m' pt = leaf m pt" by (rule ext)
  then show "frame m' pt = frame m pt" by (simp add: frame_def fun_eq_iff)
  show "tables m' pt = tables m pt" unfolding tables_def using t by (metis (no_types, lifting))
qed

lemma frame_aligned [simp]: "page_aligned (frame m pt va)"
  by (simp add: frame_def)

lemma put_mem_in_page:
  assumes "page_aligned p" and "unat off + length bs \<le> 4096" and "\<not> in_page p x"
  shows "put_mem (p + off) bs m x = m x"
proof -
  have "\<not> unat (x - (p + off)) < length bs"
  proof
    assume a: "unat (x - (p + off)) < length bs"
    have "x - p = off + (x - (p + off))" by simp
    then have "unat (x - p) = (unat off + unat (x - (p + off))) mod 2 ^ 64"
      using unat_word_ariths(1) [of off "x - (p + off)"] by simp
    also have "\<dots> < 4096" using a assms(2) by simp
    finally show False using assms(3) by (simp add: in_page_def)
  qed
  then show ?thesis by (simp add: put_mem_def)
qed

lemma PGROUNDDOWN_twice [simp]: "PGROUNDDOWN (PGROUNDDOWN a) = PGROUNDDOWN a"
  by (rule PGROUNDDOWN_id) simp

lemma space_okD:
  assumes "space_ok m pt"
  shows "page_aligned pt" "frame m pt va \<noteq> 0 \<Longrightarrow> frame m pt va \<notin> tables m pt"
    "frame m pt va \<noteq> 0 \<Longrightarrow> frame m pt va = frame m pt va' \<Longrightarrow> PGROUNDDOWN va = PGROUNDDOWN va'"
  using assms unfolding space_ok_def by blast+

text \<open>A store into one user page is seen at its user addresses and nowhere else.\<close>

lemma put_user_page:
  assumes ok: "space_ok m pt" and f: "frame m pt (PGROUNDDOWN va) = f" "f \<noteq> 0"
    and bs: "unat (va - PGROUNDDOWN va) + length bs \<le> 4096"
  defines "m1 \<equiv> put_mem (f + (va - PGROUNDDOWN va)) bs m"
  shows "leaf m1 pt = leaf m pt" "frame m1 pt = frame m pt" "space_ok m1 pt"
    "umem m1 pt x = (if unat (x - va) < length bs then Some (bs ! unat (x - va)) else umem m pt x)"
proof -
  note k = space_okD [OF ok]
  have fal: "page_aligned f" using f(1) frame_aligned by metis
  have out: "m1 y = m y" if "\<not> in_page f y" for y
    unfolding m1_def using put_mem_in_page [OF fal bs that] .
  have same: "m1 y = m y" if "p \<in> tables m pt" "in_page p y" for p y
  proof -
    obtain v j where "table m pt v j = Some p" using \<open>p \<in> tables m pt\<close> by (auto simp: tables_def)
    then have "page_aligned p" using table_aligned k(1) by blast
    moreover have "p \<noteq> f" using k(2) [of "PGROUNDDOWN va"] f that(1) by blast
    ultimately show ?thesis using out in_page_disjoint [OF _ fal] that(2) by blast
  qed
  have c: "leaf m1 pt = leaf m pt" "frame m1 pt = frame m pt" "tables m1 pt = tables m pt"
    using leaf_cong [OF k(1), of m m1] same by blast+
  show l: "leaf m1 pt = leaf m pt" "frame m1 pt = frame m pt" using c by blast+
  show "space_ok m1 pt" using ok unfolding space_ok_def l c(3) .
  show "umem m1 pt x = (if unat (x - va) < length bs then Some (bs ! unat (x - va)) else umem m pt x)"
  proof (cases "unat (x - va) < length bs")
    case True
    define i where "i = unat (x - va)"
    have x: "x = va + of_nat i" by (simp add: i_def)
    have "i < 4096 - unat (va - PGROUNDDOWN va)" using True bs by (simp add: i_def)
    then have "umem m1 pt x = Some (m1 (f + (va - PGROUNDDOWN va) + of_nat i))"
      using umem_run [of i va m1 pt] f l(2) x by simp
    then show ?thesis using True by (simp add: m1_def put_mem_def i_def)
  next
    case False
    let ?f = "frame m pt (PGROUNDDOWN x)" and ?a = "frame m pt (PGROUNDDOWN x) + (x - PGROUNDDOWN x)"
    have "m1 ?a = m ?a" if "?f \<noteq> 0"
    proof (cases "?f = f")
      case True
      then have "PGROUNDDOWN x = PGROUNDDOWN va" using k(3) [of "PGROUNDDOWN x" "PGROUNDDOWN va"] f that by simp
      then have e: "?a - (f + (va - PGROUNDDOWN va)) = x - va" using True by simp
      show ?thesis unfolding m1_def put_mem_def e using False by simp
    next
      case other: False
      have "in_page ?f ?a" using page_offset [of x] by (simp add: in_page_def)
      then show ?thesis using out in_page_disjoint [OF frame_aligned fal other] by blast
    qed
    then show ?thesis using False l(2) by (simp add: umem_def Let_def)
  qed
qed

lemma copyout_step:
  assumes ok: "space_ok (mem s) pt" and "src \<noteq> []" and n: "n = min (4096 - unat (va - PGROUNDDOWN va)) (length src)"
  shows "copyout pt va src s = (if writable (mem s) pt (PGROUNDDOWN va)
      then copyout pt (PGROUNDDOWN va + PGSIZE) (drop n src)
        (s\<lparr>mem := put_mem (frame (mem s) pt (PGROUNDDOWN va) + (va - PGROUNDDOWN va)) (take n src) (mem s)\<rparr>)
      else Ret (- 1) s)"
proof (cases "PGROUNDDOWN va \<ge> MAXVA")
  case True
  then show ?thesis
    using assms(2) by (simp add: copyout.simps [of pt va src] writable_def frame_def Let_def)
next
  case False
  let ?p = "PGROUNDDOWN va" and ?e = "pte_of (mem s) pt (PGROUNDDOWN va)"
  have w: "walk pt ?p False s = Ret ?e s" using False by (simp add: walk_noalloc not_le)
  have fr: "frame (mem s) pt ?p \<noteq> 0" if "?e \<noteq> 0" "load64 (mem s) ?e AND PTE_V \<noteq> 0" "load64 (mem s) ?e AND PTE_U \<noteq> 0"
    using ok that False unfolding space_ok_def by (auto simp: leaf_def not_le)
  have wr: "writable (mem s) pt ?p \<longleftrightarrow> \<not> (?e = 0 \<or> load64 (mem s) ?e AND PTE_V = 0 \<or> load64 (mem s) ?e AND PTE_U = 0 \<or>
      load64 (mem s) ?e AND PTE_W = 0)"
    using fr False by (auto simp: writable_def frame_def leaf_def split: if_splits)
  have "frame (mem s) pt ?p = PTE2PA (load64 (mem s) ?e)" if "writable (mem s) pt ?p"
    using that by (auto simp: writable_def frame_def leaf_def split: if_splits)
  then show ?thesis
    using False assms(2) unfolding copyout.simps [of pt va src] w bindK.simps Let_def n [symmetric] wr
    by auto
qed

lemma window_shift:
  fixes x va :: uint64
  assumes "n + k < 2 ^ 64"
  shows "unat (x - va) < n + k \<longleftrightarrow> unat (x - va) < n \<or> unat (x - (va + of_nat n)) < k"
    and "\<not> unat (x - va) < n \<Longrightarrow> unat (x - (va + of_nat n)) = unat (x - va) - n"
    and "unat (x - va) < n \<Longrightarrow> \<not> unat (x - (va + of_nat n)) < k"
proof -
  have e: "x - (va + of_nat n) = (x - va) - of_nat n" by simp
  have n: "unat (of_nat n :: uint64) = n" using assms by (simp add: unat_of_nat take_bit_eq_mod)
  show s: "unat (x - (va + of_nat n)) = unat (x - va) - n" if "\<not> unat (x - va) < n"
    unfolding e using that n by (simp add: unat_sub word_le_nat_alt)
  show "unat (x - va) < n + k \<longleftrightarrow> unat (x - va) < n \<or> unat (x - (va + of_nat n)) < k"
    by (cases "unat (x - va) < n") (use s in auto)
  show "\<not> unat (x - (va + of_nat n)) < k" if "unat (x - va) < n"
    unfolding e using that n assms by (simp add: unat_sub_if_size word_size)
qed

lemma copyout_spec:
  assumes "space_ok (mem s) pt" and "length src < 2 ^ 64"
  shows "\<exists>r k s'. copyout pt va src s = Ret r s' \<and> k \<le> length src \<and> s' = s\<lparr>mem := mem s'\<rparr> \<and>
     space_ok (mem s') pt \<and> leaf (mem s') pt = leaf (mem s) pt \<and>
     (\<forall>x. umem (mem s') pt x = (if unat (x - va) < k then Some (src ! unat (x - va)) else umem (mem s) pt x)) \<and>
     (r = 0 \<and> k = length src \<or> r = - 1 \<and> k < length src \<and> \<not> writable (mem s) pt (PGROUNDDOWN (va + of_nat k)))"
  using assms
proof (induction "length src" arbitrary: va src s rule: less_induct)
  case less
  define n where "n = min (4096 - unat (va - PGROUNDDOWN va)) (length src)"
  let ?p = "PGROUNDDOWN va"
  show ?case
  proof (cases "src = []")
    case True
    then show ?thesis using less.prems by (simp add: copyout.simps [of pt va "[]"])
  next
    case False
    then have n: "0 < n" "n \<le> length src" "unat (va - ?p) + n \<le> 4096" using page_offset [of va] by (auto simp: n_def)
    note step = copyout_step [OF less.prems(1) False n_def]
    show ?thesis
    proof (cases "writable (mem s) pt ?p")
      case no: False
      have "\<not> writable (mem s) pt (PGROUNDDOWN (va + of_nat 0))" using no by simp
      then show ?thesis using step no False less.prems(1)
        by (intro exI [of _ "- 1"] exI [of _ 0] exI [of _ s]) simp
    next
      case w: True
      let ?f = "frame (mem s) pt ?p"
      let ?s = "s\<lparr>mem := put_mem (?f + (va - ?p)) (take n src) (mem s)\<rparr>"
      have f: "?f \<noteq> 0" using w by (simp add: writable_def)
      have ln: "length (take n src) = n" using n by simp
      note put = put_user_page [OF less.prems(1) refl f, of "take n src", unfolded ln, OF n(3)]
      have "length (drop n src) < length src" using n False by simp
      moreover have "space_ok (mem ?s) pt" using put(3) by simp
      moreover have "length (drop n src) < 2 ^ 64" using less.prems(2) by simp
      ultimately have "\<exists>r k s'. copyout pt (?p + PGSIZE) (drop n src) ?s = Ret r s' \<and> k \<le> length (drop n src) \<and>
          s' = ?s\<lparr>mem := mem s'\<rparr> \<and> space_ok (mem s') pt \<and> leaf (mem s') pt = leaf (mem ?s) pt \<and>
          (\<forall>x. umem (mem s') pt x = (if unat (x - (?p + PGSIZE)) < k then Some (drop n src ! unat (x - (?p + PGSIZE)))
             else umem (mem ?s) pt x)) \<and>
          (r = 0 \<and> k = length (drop n src) \<or> r = - 1 \<and> k < length (drop n src) \<and>
             \<not> writable (mem ?s) pt (PGROUNDDOWN (?p + PGSIZE + of_nat k)))"
        by (rule less.hyps)
      then obtain r k s'
        where r: "copyout pt (?p + PGSIZE) (drop n src) ?s = Ret r s'" "k \<le> length (drop n src)"
          "s' = ?s\<lparr>mem := mem s'\<rparr>" "space_ok (mem s') pt" "leaf (mem s') pt = leaf (mem ?s) pt"
          and u: "\<And>x. umem (mem s') pt x = (if unat (x - (?p + PGSIZE)) < k then Some (drop n src ! unat (x - (?p + PGSIZE)))
             else umem (mem ?s) pt x)"
          and q: "r = 0 \<and> k = length (drop n src) \<or> r = - 1 \<and> k < length (drop n src) \<and>
             \<not> writable (mem ?s) pt (PGROUNDDOWN (?p + PGSIZE + of_nat k))"
        by blast
      have sh: "k = 0 \<or> ?p + PGSIZE = va + of_nat n"
        using page_next_min [OF n_def] r(2) by auto
      have small: "n + k < 2 ^ 64" using r(2) less.prems(2) n(2) by simp
      have um: "umem (mem s') pt x = (if unat (x - va) < n + k then Some (src ! unat (x - va)) else umem (mem s) pt x)" for x
      proof (cases "k = 0")
        case True
        then show ?thesis using u [of x] put(4) [of x] n(2) by simp
      next
        case False
        then have e: "?p + PGSIZE = va + of_nat n" using sh by simp
        show ?thesis
        proof (cases "unat (x - va) < n")
          case True
          then show ?thesis using u [of x] put(4) [of x] window_shift(3) [OF small True] n(2) unfolding e by simp
        next
          case False
          then show ?thesis
            using u [of x] put(4) [of x] window_shift(1,2) [OF small, of x va] n(2) unfolding e by auto
        qed
      qed
      have wr: "writable (mem ?s) pt = writable (mem s) pt" using put(1,2) by (simp add: writable_def fun_eq_iff)
      have "r = 0 \<and> n + k = length src \<or> r = - 1 \<and> n + k < length src \<and>
          \<not> writable (mem s) pt (PGROUNDDOWN (va + of_nat (n + k)))"
      proof (cases "r = 0")
        case True
        then show ?thesis using q n(2) by auto
      next
        case False
        then have q': "r = - 1" "k < length (drop n src)" "\<not> writable (mem ?s) pt (PGROUNDDOWN (?p + PGSIZE + of_nat k))"
          using q by auto
        then have "?p + PGSIZE = va + of_nat n" using page_next_min [OF n_def] by auto
        then show ?thesis using q' wr by (simp add: add.assoc)
      qed
      moreover have "s' = s\<lparr>mem := mem s'\<rparr>" using r(3) by simp
      moreover have "copyout pt va src s = Ret r s'" using step w r(1) by simp
      moreover have "leaf (mem s') pt = leaf (mem s) pt" using r(5) put(1) by simp
      moreover have "n + k \<le> length src" using r(2) n(2) by simp
      ultimately show ?thesis using um r(4) by blast
    qed
  qed
qed

end
