(* ===== verification/Vm_Maps.thy ===== *)
theory Vm_Maps
  imports Vm
begin

text \<open>
  What \<^verbatim>\<open>mappages\<close> and \<^verbatim>\<open>uvmunmap\<close> do to an address space. A page table whose pages form a
  tree is a map from virtual pages to leaf entries: allocating table pages on the way of a
  walk does not change this map, and storing a leaf entry changes it at one page only.
\<close>

section \<open>Entries of table pages\<close>

lemma store64_apart:
  assumes "k < 4096" "l < 4096" "l + 8 \<le> k \<or> k + 8 \<le> l"
  shows "load64 (store64 (p + of_nat k) v m) (p + of_nat l) = load64 m (p + of_nat l)"
proof (rule load64_cong)
  fix i :: nat assume i: "i < 8"
  have e: "p + of_nat l + of_nat i - (p + of_nat k) = of_nat (l + i) - of_nat k" by simp
  have "unat (of_nat (l + i) :: uint64) = l + i" "unat (of_nat k :: uint64) = k"
    using assms i by (simp_all only: unat_of_nat take_bit_eq_mod) simp_all
  then have "\<not> unat (of_nat (l + i) - of_nat k :: uint64) < 8"
    using assms i by (auto simp: unat_sub_if_size word_size simp del: of_nat_add)
  then show "store64 (p + of_nat k) v m (p + of_nat l + of_nat i) = m (p + of_nat l + of_nat i)"
    unfolding store64_def e by simp
qed

lemma load_store_entry:
  assumes "page_aligned p" "page_aligned q"
  shows "load64 (store64 (p + 8 * PX l va) e m) (q + 8 * PX l' va') =
    (if p = q \<and> PX l va = PX l' va' then e else load64 m (q + 8 * PX l' va'))"
proof (cases "p = q")
  case True
  show ?thesis
  proof (cases "PX l va = PX l' va'")
    case False
    then have "unat (PX l va) \<noteq> unat (PX l' va')" by (simp add: word_unat_eq_iff)
    then show ?thesis
      unfolding entry_offset(1) using store64_apart [of "8 * unat (PX l va)" "8 * unat (PX l' va')" p]
        PX_bound [of l va] PX_bound [of l' va'] True False by force
  qed (use True in simp)
next
  case False
  have "load64 (store64 (p + 8 * PX l va) e m) (q + of_nat (8 * unat (PX l' va'))) = load64 m (q + of_nat (8 * unat (PX l' va')))"
  proof (rule load64_other_page [OF entry_offset(2)])
    fix x assume "in_page q x"
    then have "\<not> in_page p x" using in_page_disjoint [OF assms(2,1)] False by blast
    then show "store64 (p + 8 * PX l va) e m x = m x"
      unfolding entry_offset(1) by (rule store64_other_page [OF assms(1) entry_offset(2)])
  qed
  then show ?thesis unfolding entry_offset(1) using False by simp
qed

lemma load_memset_page:
  assumes "page_aligned p" "page_aligned q"
  shows "load64 (memset p c 4096 m) (q + 8 * PX l va) =
    (if p = q then load64 (\<lambda>_. c) 0 else load64 m (q + 8 * PX l va))"
proof (cases "p = q")
  case True
  have "load64 (memset p c 4096 m) (p + of_nat (8 * unat (PX l va))) = load64 (\<lambda>_. c) (p + of_nat (8 * unat (PX l va)))"
    by (rule load64_other_page [OF entry_offset(2)]) (simp add: memset_page)
  also have "\<dots> = load64 (\<lambda>_. c) 0" by (simp add: load64_def)
  finally show ?thesis unfolding entry_offset(1) using True by simp
next
  case False
  have "load64 (memset p c 4096 m) (q + of_nat (8 * unat (PX l va))) = load64 m (q + of_nat (8 * unat (PX l va)))"
    by (rule load64_other_page [OF entry_offset(2)])
      (use in_page_disjoint [OF assms(2,1)] False in \<open>auto simp: memset_page\<close>)
  then show ?thesis unfolding entry_offset(1) using False by simp
qed

section \<open>Page tables as trees\<close>

definition prefix_eq :: "nat \<Rightarrow> uint64 \<Rightarrow> uint64 \<Rightarrow> bool" where
  "prefix_eq k va va' \<longleftrightarrow> (\<forall>i < k. PX (2 - i) va = PX (2 - i) va')"

definition tree :: "mem \<Rightarrow> uint64 \<Rightarrow> bool" where
  "tree m pt \<longleftrightarrow> page_aligned pt \<and> 0 \<notin> tables m pt \<and>
     (\<forall>va va' k k' p. k \<le> 2 \<longrightarrow> k' \<le> 2 \<longrightarrow> table m pt va k = Some p \<longrightarrow> table m pt va' k' = Some p \<longrightarrow>
        k = k' \<and> prefix_eq k va va')"

lemma prefix_eq_Suc: "prefix_eq (Suc k) va va' \<longleftrightarrow> prefix_eq k va va' \<and> PX (2 - k) va = PX (2 - k) va'"
  by (auto simp: prefix_eq_def less_Suc_eq)

lemma prefix_eq_refl [simp]: "prefix_eq k va va" "prefix_eq 0 va va'"
  by (simp_all add: prefix_eq_def)

lemma prefix_eq_less: "prefix_eq k va va' \<Longrightarrow> j \<le> k \<Longrightarrow> prefix_eq j va va'"
  by (simp add: prefix_eq_def)

lemma table_prefix: "prefix_eq k va va' \<Longrightarrow> table m pt va k = table m pt va' k"
proof (induction k)
  case (Suc k)
  then show ?case by (simp add: prefix_eq_Suc split: option.split)
qed simp

lemma table_None: "table m pt va j = None \<Longrightarrow> j \<le> i \<Longrightarrow> table m pt va i = None"
  by (induction i) (auto simp: le_Suc_eq)

lemma treeD:
  assumes "tree m pt"
  shows "page_aligned pt" "p \<in> tables m pt \<Longrightarrow> p \<noteq> 0 \<and> page_aligned p"
    "k \<le> 2 \<Longrightarrow> k' \<le> 2 \<Longrightarrow> table m pt va k = Some p \<Longrightarrow> table m pt va' k' = Some p \<Longrightarrow> k = k' \<and> prefix_eq k va va'"
proof -
  show "page_aligned pt" using assms by (simp add: tree_def)
  then show "p \<in> tables m pt \<Longrightarrow> p \<noteq> 0 \<and> page_aligned p"
    using assms table_aligned unfolding tree_def tables_def by blast
  show "k \<le> 2 \<Longrightarrow> k' \<le> 2 \<Longrightarrow> table m pt va k = Some p \<Longrightarrow> table m pt va' k' = Some p \<Longrightarrow> k = k' \<and> prefix_eq k va va'"
    using assms unfolding tree_def by blast
qed

definition agree_on :: "uint64 set \<Rightarrow> mem \<Rightarrow> mem \<Rightarrow> bool" where
  "agree_on T m m' \<longleftrightarrow> (\<forall>q \<in> T. \<forall>x. in_page q x \<longrightarrow> m x = m' x)"

text \<open>A new, zeroed table page \<open>pg\<close> is linked where the walk for \<open>va\<close> had ended.\<close>

lemma entry_link:
  fixes l :: nat and va e :: uint64
  assumes t: "tree m pt" and p: "p \<in> tables m pt" and pg: "page_aligned pg" "pg \<notin> tables m pt"
    and same: "agree_on (tables m pt) m0 m"
  defines "m' \<equiv> store64 (p + 8 * PX l va) e (memset pg 0 4096 m0)"
  shows "q \<in> tables m pt \<Longrightarrow> load64 m' (q + 8 * PX l' va') =
      (if p = q \<and> PX l va = PX l' va' then e else load64 m (q + 8 * PX l' va'))"
    and "load64 m' (pg + 8 * PX l' va') = 0"
proof -
  have pal: "page_aligned p" using treeD(2) [OF t p] by simp
  show "load64 m' (q + 8 * PX l' va') =
      (if p = q \<and> PX l va = PX l' va' then e else load64 m (q + 8 * PX l' va'))" if "q \<in> tables m pt"
  proof -
    have "page_aligned q" "pg \<noteq> q" using treeD(2) [OF t that] pg(2) that by auto
    moreover have "load64 m0 (q + 8 * PX l' va') = load64 m (q + 8 * PX l' va')"
      unfolding entry_offset(1) by (rule load64_other_page [OF entry_offset(2)]) (use same that in \<open>simp add: agree_on_def\<close>)
    ultimately show ?thesis
      unfolding m'_def by (simp add: load_store_entry [OF pal] load_memset_page pg(1))
  qed
  have "p \<noteq> pg" using p pg(2) by auto
  then show "load64 m' (pg + 8 * PX l' va') = 0"
    unfolding m'_def load_store_entry [OF pal pg(1)] load_memset_page [OF pg(1) pg(1)]
    by (simp add: load64_def)
qed

lemma valid_bit: "(x OR PTE_V) AND PTE_V \<noteq> 0"
proof
  assume "(x OR PTE_V) AND PTE_V = 0"
  then have "bit ((x OR PTE_V) AND PTE_V) 0 = bit (0 :: uint64) 0" by simp
  then show False by (simp add: PTE_V_def bit_simps)
qed

lemma table_link:
  assumes t: "tree m pt" and p: "table m pt va k = Some p" and k: "k < 2"
    and e: "load64 m (p + 8 * PX (2 - k) va) AND PTE_V = 0"
    and pg: "page_aligned pg" "pg \<notin> tables m pt" "PTE2PA (PA2PTE pg OR PTE_V) = pg"
    and same: "agree_on (tables m pt) m0 m"
  defines "m' \<equiv> store64 (p + 8 * PX (2 - k) va) (PA2PTE pg OR PTE_V) (memset pg 0 4096 m0)"
  shows "j \<le> 2 \<Longrightarrow> table m' pt va' j =
    (if k < j \<and> prefix_eq (Suc k) va va' then (if j = Suc k then Some pg else None) else table m pt va' j)"
proof (induction j)
  case 0
  then show ?case by simp
next
  case (Suc j)
  have pt: "p \<in> tables m pt" using p k by (intro tablesI) auto
  note old = entry_link(1) [where l = "2 - k" and va = va and e = "PA2PTE pg OR PTE_V" and ?m0.0 = m0, OF t pt pg(1,2) same, folded m'_def]
    and new = entry_link(2) [where l = "2 - k" and va = va and e = "PA2PTE pg OR PTE_V" and ?m0.0 = m0, OF t pt pg(1,2) same, folded m'_def]
  show ?case
  proof (cases "k < j \<and> prefix_eq (Suc k) va va'")
    case True
    then have j: "j = 1" "k = 0" using Suc.prems by auto
    have "load64 m' (pg + 8 * PX (2 - j) va') = 0" by (rule new)
    then show ?thesis using Suc True j by simp
  next
    case False
    then have IH: "table m' pt va' j = table m pt va' j" using Suc by auto
    show ?thesis
    proof (cases "table m pt va' j")
      case None
      have "\<not> (k < Suc j \<and> prefix_eq (Suc k) va va')"
      proof
        assume a: "k < Suc j \<and> prefix_eq (Suc k) va va'"
        then have "k = j" using False by auto
        then have "table m pt va' j = Some p"
          using p table_prefix [of k va va' m pt] a by (auto simp: prefix_eq_Suc)
        then show False using None by simp
      qed
      then show ?thesis using IH None by auto
    next
      case (Some q)
      have q: "q \<in> tables m pt" using Some Suc.prems by (intro tablesI) auto
      have hit: "p = q \<and> PX (2 - k) va = PX (2 - j) va' \<longleftrightarrow> k = j \<and> prefix_eq (Suc k) va va'"
      proof
        assume a: "p = q \<and> PX (2 - k) va = PX (2 - j) va'"
        moreover have "k \<le> 2" "j \<le> 2" using k Suc.prems by auto
        ultimately have "k = j \<and> prefix_eq k va va'" using treeD(3) [OF t _ _ p, of j va'] Some by blast
        then show "k = j \<and> prefix_eq (Suc k) va va'" using a by (auto simp: prefix_eq_Suc)
      next
        assume a: "k = j \<and> prefix_eq (Suc k) va va'"
        then have "table m pt va k = table m pt va' k" by (intro table_prefix) (auto simp: prefix_eq_Suc)
        then show "p = q \<and> PX (2 - k) va = PX (2 - j) va'" using a p Some by (auto simp: prefix_eq_Suc)
      qed
      show ?thesis
      proof (cases "k = j \<and> prefix_eq (Suc k) va va'")
        case True
        then show ?thesis using IH Some old [OF q] hit valid_bit pg(3) by simp
      next
        case no: False
        then have "\<not> (k < Suc j \<and> prefix_eq (Suc k) va va')" using False by (auto simp: less_Suc_eq)
        moreover have "load64 m' (q + 8 * PX (2 - j) va') = load64 m (q + 8 * PX (2 - j) va')"
          using old [OF q, where l' = "2 - j" and va' = va'] hit no by auto
        ultimately show ?thesis using IH Some by auto
      qed
    qed
  qed
qed

lemma leaf_link:
  assumes t: "tree m pt" and p: "table m pt va k = Some p" and k: "k < 2"
    and e: "load64 m (p + 8 * PX (2 - k) va) AND PTE_V = 0"
    and pg: "page_aligned pg" "pg \<notin> tables m pt" "PTE2PA (PA2PTE pg OR PTE_V) = pg" "pg \<noteq> 0"
    and same: "agree_on (tables m pt) m0 m"
  defines "m' \<equiv> store64 (p + 8 * PX (2 - k) va) (PA2PTE pg OR PTE_V) (memset pg 0 4096 m0)"
  shows "leaf m' pt = leaf m pt" "tree m' pt" "tables m' pt \<subseteq> insert pg (tables m pt)"
    "table m' pt va (Suc k) = Some pg" "tables m pt \<subseteq> tables m' pt"
proof -
  have pt: "p \<in> tables m pt" using p k by (intro tablesI) auto
  have tl: "table m' pt v j = (if k < j \<and> prefix_eq (Suc k) va v then (if j = Suc k then Some pg else None) else table m pt v j)"
    if "j \<le> 2" for j v
    unfolding m'_def by (rule table_link [OF t p k e pg(1-3) same that])
  note old = entry_link(1) [where l = "2 - k" and va = va and e = "PA2PTE pg OR PTE_V" and ?m0.0 = m0, OF t pt pg(1,2) same, folded m'_def]
    and new = entry_link(2) [where l = "2 - k" and va = va and e = "PA2PTE pg OR PTE_V" and ?m0.0 = m0, OF t pt pg(1,2) same, folded m'_def]
  show "table m' pt va (Suc k) = Some pg" using tl [of "Suc k" va] k by simp
  show sub: "tables m' pt \<subseteq> insert pg (tables m pt)"
  proof
    fix q assume "q \<in> tables m' pt"
    then obtain va' j where j: "j \<le> 2" "table m' pt va' j = Some q" by (auto simp: tables_def)
    then have "q = pg \<or> table m pt va' j = Some q" using tl [of j va'] by (auto split: if_splits)
    then show "q \<in> insert pg (tables m pt)" using tablesI [OF _ j(1)] by auto
  qed
  have none: "table m pt va' j = None" if "k < j" "prefix_eq (Suc k) va va'" for va' j
  proof -
    have pk: "prefix_eq k va va'" "PX (2 - k) va = PX (2 - k) va'" using that(2) by (simp_all add: prefix_eq_Suc)
    have "table m pt va' k = Some p" using table_prefix [OF pk(1), of m pt] p by simp
    then have "table m pt va' (Suc k) = None" using pk(2) e by simp
    then show ?thesis by (rule table_None) (use that in simp)
  qed
  show "tables m pt \<subseteq> tables m' pt"
  proof
    fix q assume "q \<in> tables m pt"
    then obtain va' j where j: "j \<le> 2" "table m pt va' j = Some q" by (auto simp: tables_def)
    then have "table m' pt va' j = Some q" using tl [OF j(1), of va'] none [of j va'] by auto
    then show "q \<in> tables m' pt" using j(1) by (rule tablesI)
  qed
  show "leaf m' pt = leaf m pt"
  proof
    fix va'
    show "leaf m' pt va' = leaf m pt va'"
    proof (cases "prefix_eq (Suc k) va va'")
      case True
      then have "table m pt va' 2 = None" using none k by simp
      then have "leaf m pt va' = 0" by (simp add: leaf_def pte_of_def)
      moreover have "leaf m' pt va' = 0"
        using tl [of 2 va'] True k new [where l' = 0 and va' = va'] by (auto simp: leaf_def pte_of_def split: if_splits)
      ultimately show ?thesis by simp
    next
      case False
      then have eq: "table m' pt va' 2 = table m pt va' 2" using tl [of 2 va'] by simp
      show ?thesis
      proof (cases "table m pt va' 2")
        case (Some q)
        then have q: "q \<in> tables m pt" by (rule tablesI) simp
        have "p \<noteq> q" using treeD(3) [OF t _ _ p, of 2 va'] Some k by auto
        then show ?thesis using eq Some old [OF q, where l' = 0 and va' = va'] by (simp add: leaf_def pte_of_def)
      qed (use eq in \<open>simp add: leaf_def pte_of_def\<close>)
    qed
  qed
  show "tree m' pt"
    unfolding tree_def
  proof (intro conjI allI impI)
    show "page_aligned pt" by (rule treeD(1) [OF t])
    show "0 \<notin> tables m' pt" using sub pg(4) treeD(2) [OF t] by blast
    fix va1 va2 k1 k2 q
    assume a: "k1 \<le> 2" "k2 \<le> 2" "table m' pt va1 k1 = Some q" "table m' pt va2 k2 = Some q"
    have cases: "q = pg \<and> j = Suc k \<and> prefix_eq (Suc k) va v \<or> q \<noteq> pg \<and> table m pt v j = Some q"
      if "j \<le> 2" "table m' pt v j = Some q" for j v
      using tl [OF that(1), of v] that pg(2) tablesI [of m pt v j q] by (auto split: if_splits)
    have "k1 = k2 \<and> prefix_eq k1 va1 va2"
    proof (cases "q = pg")
      case True
      then show ?thesis using cases [OF a(1,3)] cases [OF a(2,4)] by (auto simp: prefix_eq_def)
    next
      case False
      then show ?thesis using cases [OF a(1,3)] cases [OF a(2,4)] treeD(3) [OF t a(1,2)] by auto
    qed
    then show "k1 = k2" "prefix_eq k1 va1 va2" by auto
  qed
qed

section \<open>Walking with allocation\<close>

lemma kmem_ok_mem:
  assumes "kmem_ok s ps" and "\<And>q x. q \<in> set ps \<Longrightarrow> in_page q x \<Longrightarrow> m' x = mem s x"
  shows "kmem_ok (s\<lparr>mem := m'\<rparr>) ps"
proof -
  have "free_run m' (freelist s) ps = free_run (mem s) (freelist s) ps"
    by (rule free_run_cong) (use assms(2) in blast)
  then show ?thesis using assms(1) by (simp add: kmem_ok_def)
qed

lemma usable_pte:
  assumes "usable_page s p"
  shows "PTE2PA (PA2PTE p OR PTE_V) = p"
proof (rule PTE2PA_PA2PTE)
  show "page_aligned p" using assms by (simp add: usable_page_def)
  show "unat p < 2 ^ 56"
    using assms by (simp add: usable_page_def word_less_nat_alt PHYSTOP_def KERNBASE_def)
  show "PTE_V AND NOT 0x3FF = 0" by (simp add: PTE_V_def)
qed

text \<open>Only memory and the free list differ.\<close>

definition mframe :: "'a mem_st_scheme \<Rightarrow> 'a mem_st_scheme \<Rightarrow> bool" where
  "mframe s s' \<longleftrightarrow> s\<lparr>mem := (\<lambda>_. 0), freelist := 0\<rparr> = s'\<lparr>mem := (\<lambda>_. 0), freelist := 0\<rparr>"

lemma mframe_refl [simp]: "mframe s s" "mframe s (s\<lparr>mem := m\<rparr>)" "mframe s (s\<lparr>freelist := f\<rparr>)"
  by (simp_all add: mframe_def)

lemma mframe_sym: "mframe s s' \<Longrightarrow> mframe s' s"
  by (simp add: mframe_def)

lemma mframe_trans [trans]: "mframe s s' \<Longrightarrow> mframe s' s'' \<Longrightarrow> mframe s s''"
  by (simp add: mframe_def)

lemma mframe_mem [simp]: "mframe s (t\<lparr>mem := m\<rparr>) = mframe s t" "mframe (s\<lparr>mem := m\<rparr>) t = mframe s t"
  by (simp_all add: mframe_def)

lemma mframe_kend: "mframe s s' \<Longrightarrow> kend s' = kend s"
  unfolding mframe_def by (drule arg_cong [where f = kend]) simp

lemma mframe_usable: "mframe s s' \<Longrightarrow> usable_page s' = usable_page s"
  by (simp add: usable_page_def fun_eq_iff mframe_kend)

lemma mframe_kalloc: "mframe s (snd (kalloc s))"
  by (simp add: kalloc_def Let_def mframe_def)

text \<open>What allocating table pages keeps: the map, the tree, the free list, all other memory.\<close>

definition kept :: "uint64 \<Rightarrow> 'a mem_st_scheme \<Rightarrow> uint64 list \<Rightarrow> 'a mem_st_scheme \<Rightarrow> uint64 list \<Rightarrow> bool" where
  "kept pt s ps s' ps' \<longleftrightarrow> kmem_ok s' ps' \<and> (\<exists>c. ps' = drop c ps) \<and> tree (mem s') pt \<and>
     tables (mem s) pt \<subseteq> tables (mem s') pt \<and>
     tables (mem s') pt \<subseteq> tables (mem s) pt \<union> set ps \<and> tables (mem s') pt \<inter> set ps' = {} \<and>
     (\<forall>x. (\<forall>q \<in> tables (mem s') pt. \<not> in_page q x) \<longrightarrow> mem s' x = mem s x) \<and>
     mframe s s'"

definition grown :: "uint64 \<Rightarrow> 'a mem_st_scheme \<Rightarrow> uint64 list \<Rightarrow> 'a mem_st_scheme \<Rightarrow> uint64 list \<Rightarrow> bool" where
  "grown pt s ps s' ps' \<longleftrightarrow> kept pt s ps s' ps' \<and> leaf (mem s') pt = leaf (mem s) pt"

lemma kept_refl: "kmem_ok s ps \<Longrightarrow> tree (mem s) pt \<Longrightarrow> tables (mem s) pt \<inter> set ps = {} \<Longrightarrow> kept pt s ps s ps"
  by (auto simp: kept_def intro: exI [of _ 0])

lemma kept_trans:
  assumes a: "kept pt s ps s' ps'" and b: "kept pt s' ps' s'' ps''"
  shows "kept pt s ps s'' ps''"
proof -
  obtain c c' where c: "ps' = drop c ps" "ps'' = drop c' ps'" using a b by (auto simp: kept_def)
  have sub: "set ps' \<subseteq> set ps" unfolding c by (rule set_drop_subset)
  have ta: "tables (mem s) pt \<subseteq> tables (mem s') pt" "tables (mem s') pt \<subseteq> tables (mem s) pt \<union> set ps"
    and tb: "tables (mem s') pt \<subseteq> tables (mem s'') pt" "tables (mem s'') pt \<subseteq> tables (mem s') pt \<union> set ps'"
    using a b by (simp_all add: kept_def)
  have "mem s'' x = mem s x" if x: "\<forall>q \<in> tables (mem s'') pt. \<not> in_page q x" for x
  proof -
    have "mem s'' x = mem s' x" using b x by (simp add: kept_def)
    also have "\<forall>q \<in> tables (mem s') pt. \<not> in_page q x" using x tb(1) by blast
    then have "mem s' x = mem s x" using a by (simp add: kept_def)
    finally show ?thesis .
  qed
  moreover have "mframe s s''" using a b mframe_trans by (auto simp: kept_def)
  moreover have "\<exists>c. ps'' = drop c ps" unfolding c by auto
  ultimately show ?thesis using a b ta tb sub unfolding kept_def by auto
qed

lemma grown_refl: "kmem_ok s ps \<Longrightarrow> tree (mem s) pt \<Longrightarrow> tables (mem s) pt \<inter> set ps = {} \<Longrightarrow> grown pt s ps s ps"
  by (simp add: grown_def kept_refl)

lemma grown_trans: "grown pt s ps s' ps' \<Longrightarrow> grown pt s' ps' s'' ps'' \<Longrightarrow> grown pt s ps s'' ps''"
  unfolding grown_def using kept_trans by auto

lemma walk_levels_ok:
  assumes "kmem_ok s ps" "tree (mem s) pt" "tables (mem s) pt \<inter> set ps = {}"
    and "table (mem s) pt va k = Some p" "k + l = 2"
  shows "\<exists>r s' ps'. walk_levels l p va True s = (r, s') \<and> grown pt s ps s' ps' \<and>
    (case r of Some q \<Rightarrow> table (mem s') pt va 2 = Some q | None \<Rightarrow> ps' = [])"
  using assms
proof (induction l arbitrary: k p s ps)
  case 0
  then show ?case using grown_refl by fastforce
next
  case (Suc l)
  then have k: "k < 2" "2 - k = Suc l" by auto
  let ?a = "p + 8 * PX (Suc l) va"
  note t = Suc.prems(2) and p = Suc.prems(4)
  show ?case
  proof (cases "load64 (mem s) ?a AND PTE_V = 0")
    case False
    then have "table (mem s) pt va (Suc k) = Some (PTE2PA (load64 (mem s) ?a))" using p k(2) by simp
    then show ?thesis using Suc.IH [OF Suc.prems(1-3), of "Suc k"] Suc.prems(5) False by (simp add: Let_def)
  next
    case True
    show ?thesis
    proof (cases ps)
      case Nil
      then have "kalloc s = (0, s)" using Suc.prems(1) km.alloc_nil by blast
      then show ?thesis
        using True Nil grown_refl [OF Suc.prems(1-3)] by (auto simp: Let_def)
    next
      case (Cons pg qs)
      note ka = kalloc_cons [OF Suc.prems(1) [unfolded Cons]]
      let ?s1 = "snd (kalloc s)"
      let ?m' = "store64 ?a (PA2PTE pg OR PTE_V) (memset pg 0 4096 (mem ?s1))"
      have u: "usable_page s pg" using Suc.prems(1) Cons by (simp add: kmem_ok_def)
      then have pg: "page_aligned pg" "pg \<notin> tables (mem s) pt" "PTE2PA (PA2PTE pg OR PTE_V) = pg" "pg \<noteq> 0"
        using Suc.prems(3) Cons usable_pte [OF u] by (auto simp: usable_page_def)
      have pt: "p \<in> tables (mem s) pt" using p k by (intro tablesI) auto
      have al: "page_aligned q" if "q \<in> tables (mem s) pt" for q using treeD(2) [OF t that] by simp
      have ag: "agree_on (tables (mem s) pt) (mem ?s1) (mem s)"
        unfolding agree_on_def ka(3)
        using in_page_disjoint [OF al pg(1)] pg(2) by (auto simp: memset_page)
      note ll = leaf_link [OF t p k(1) _ pg ag, unfolded k(2), OF True]
      have out: "?m' x = mem s x" if "\<not> in_page p x" "\<not> in_page pg x" for x
      proof -
        have "?m' x = memset pg 0 4096 (mem ?s1) x"
          unfolding entry_offset(1) by (rule store64_other_page [OF al [OF pt] entry_offset(2) that(1)])
        then show ?thesis using that(2) by (simp add: ka(3) memset_page)
      qed
      have fr: "q \<noteq> p" "q \<noteq> pg" "page_aligned q" if "q \<in> set qs" for q
        using that Suc.prems(1,3) Cons pt by (auto simp: kmem_ok_def usable_page_def)
      let ?s2 = "?s1\<lparr>mem := ?m'\<rparr>"
      have k2: "kmem_ok ?s2 qs"
      proof (rule kmem_ok_mem [OF ka(2)])
        fix q x assume q: "q \<in> set qs" "in_page q x"
        then have "\<not> in_page p x" "\<not> in_page pg x"
          using in_page_disjoint [OF fr(3) al [OF pt]] in_page_disjoint [OF fr(3) pg(1)] fr by blast+
        then show "?m' x = mem ?s1 x" using out by (simp add: ka(3) memset_page)
      qed
      have pgt: "pg \<in> tables ?m' pt" by (rule tablesI [OF ll(4)]) (use k in simp)
      have disj: "tables ?m' pt \<inter> set qs = {}"
        using ll(3) Suc.prems(1,3) Cons by (auto simp: kmem_ok_def)
      have "mem ?s2 x = mem s x" if "\<forall>q \<in> tables ?m' pt. \<not> in_page q x" for x
        using out [of x] that pgt ll(5) pt by auto
      moreover have "mframe s ?s2" using mframe_kalloc [of s] by simp
      moreover have "\<exists>c. qs = drop c ps" using Cons by (intro exI [of _ 1]) simp
      ultimately have g: "grown pt s ps ?s2 qs"
        using k2 ll disj Cons unfolding grown_def kept_def by auto
      have w: "walk_levels (Suc l) p va True s = walk_levels l pg va True ?s2"
      proof -
        obtain s1 where "kalloc s = (pg, s1)" using ka(1) by (metis prod.collapse)
        then show ?thesis using True pg(4) by (simp add: Let_def PGSIZE_def)
      qed
      have "\<exists>r s' ps'. walk_levels l pg va True ?s2 = (r, s') \<and> grown pt ?s2 qs s' ps' \<and>
          (case r of Some q \<Rightarrow> table (mem s') pt va 2 = Some q | None \<Rightarrow> ps' = [])"
        by (rule Suc.IH [of ?s2 qs "Suc k"]) (use k2 ll(2,4) disj Suc.prems(5) in auto)
      then show ?thesis unfolding w using grown_trans [OF g] by blast
    qed
  qed
qed

lemma entry_nonzero:
  assumes "page_aligned q" "q \<noteq> 0"
  shows "q + 8 * PX l va \<noteq> 0"
proof
  assume "q + 8 * PX l va = 0"
  moreover have "in_page q (q + of_nat (8 * unat (PX l va)))"
    using PX_bound [of l va] by (intro in_page_offset) simp
  ultimately have "in_page q 0" unfolding entry_offset(1) by simp
  then have "PGROUNDDOWN 0 = q" using in_page_iff [OF assms(1)] by simp
  then show False using assms(2) by (simp add: PGROUNDDOWN_def)
qed

lemma walk_alloc_ok:
  assumes "kmem_ok s ps" "tree (mem s) pt" "tables (mem s) pt \<inter> set ps = {}" "va < MAXVA"
  shows "okK (walk pt va True s) (\<lambda>pte s'. \<exists>ps'. grown pt s ps s' ps' \<and>
     (pte = 0 \<and> ps' = [] \<or> pte \<noteq> 0 \<and> pte = pte_of (mem s') pt va))"
proof -
  obtain r s' ps' where w: "walk_levels 2 pt va True s = (r, s')" "grown pt s ps s' ps'"
    "case r of Some q \<Rightarrow> table (mem s') pt va 2 = Some q | None \<Rightarrow> ps' = []"
    using walk_levels_ok [OF assms(1-3), of va 0 pt 2] by auto
  show ?thesis
  proof (cases r)
    case None
    then show ?thesis using w assms(4) by (auto simp: walk_def not_le)
  next
    case (Some q)
    then have q: "table (mem s') pt va 2 = Some q" using w by simp
    have "q \<in> tables (mem s') pt" using q by (rule tablesI) simp
    then have "q \<noteq> 0" "page_aligned q" using treeD(2) w(2) unfolding grown_def kept_def by blast+
    then have "q + 8 * PX 0 va \<noteq> 0" by (intro entry_nonzero)
    then show ?thesis using w q Some assms(4) by (auto simp: walk_def not_le pte_of_def)
  qed
qed

text \<open>Storing a leaf entry.\<close>

lemma leaf_store:
  fixes e
  assumes t: "tree m pt" and q: "table m pt va 2 = Some q"
  defines "m' \<equiv> store64 (q + 8 * PX 0 va) e m"
  shows "tree m' pt" "tables m' pt = tables m pt" "table m' pt va 2 = Some q"
    "leaf m' pt va' = (if prefix_eq 3 va va' then e else leaf m pt va')"
proof -
  have qt: "q \<in> tables m pt" using q by (rule tablesI) simp
  have al: "page_aligned q" "q \<noteq> 0" using treeD(2) [OF t qt] by auto
  have tab: "table m' pt va' k = table m pt va' k" if "k \<le> 2" for va' k
    using that
  proof (induction k)
    case (Suc k)
    then have IH: "table m' pt va' k = table m pt va' k" by simp
    show ?case
    proof (cases "table m pt va' k")
      case (Some p)
      then have p: "p \<in> tables m pt" using Suc.prems by (intro tablesI) auto
      have "k \<noteq> 2" using Suc.prems by simp
      then have "q \<noteq> p" using treeD(3) [OF t _ _ q, of k va'] Some Suc.prems by auto
      then have "load64 m' (p + 8 * PX (2 - k) va') = load64 m (p + 8 * PX (2 - k) va')"
        unfolding m'_def using load_store_entry [OF al(1)] treeD(2) [OF t p] by simp
      then show ?thesis using IH Some by simp
    qed (use IH in simp)
  qed simp
  show ts: "tables m' pt = tables m pt" unfolding tables_def using tab by (metis (no_types, lifting))
  show "table m' pt va 2 = Some q" using tab q by simp
  show "tree m' pt" using t unfolding tree_def ts using tab by (metis (no_types, lifting))
  show "leaf m' pt va' = (if prefix_eq 3 va va' then e else leaf m pt va')"
  proof (cases "table m pt va' 2")
    case None
    then have "\<not> prefix_eq 2 va va'" using q table_prefix [of 2 va va' m pt] by auto
    then have "\<not> prefix_eq 3 va va'" using prefix_eq_less [of 3 va va' 2] by auto
    then show ?thesis using None tab [of 2 va'] by (simp add: leaf_def pte_of_def)
  next
    case (Some p)
    then have p: "p \<in> tables m pt" by (rule tablesI) simp
    have pal: "page_aligned p" using treeD(2) [OF t p] by simp
    have eq: "q = p \<and> PX 0 va = PX 0 va' \<longleftrightarrow> prefix_eq 3 va va'"
      using treeD(3) [OF t _ _ q, of 2 va'] Some table_prefix [of 2 va va' m pt] q
      by (auto simp: prefix_eq_Suc eval_nat_numeral)
    note nz = entry_nonzero [OF al]
    show ?thesis
      using Some tab [of 2 va'] load_store_entry [OF al(1) pal, of 0 va e m 0 va'] eq nz
      by (auto simp: leaf_def pte_of_def m'_def)
  qed
qed

section \<open>Mapping a range\<close>

lemma prefix_eq_page:
  assumes "va < MAXVA" "v < MAXVA"
  shows "prefix_eq 3 va v \<longleftrightarrow> PGROUNDDOWN va = PGROUNDDOWN v"
proof
  assume "prefix_eq 3 va v"
  then have "PX 2 va = PX 2 v" "PX 1 va = PX 1 v" "PX 0 va = PX 0 v"
    by (auto simp: prefix_eq_def eval_nat_numeral less_Suc_eq)
  then have "unat va - unat va mod 4096 = unat v - unat v mod 4096"
    using va_decompose [OF assms(1)] va_decompose [OF assms(2)] by (metis add_diff_cancel_right')
  then have "unat va div 4096 * 4096 = unat v div 4096 * 4096" by (simp only: minus_mod_eq_div_mult)
  then show "PGROUNDDOWN va = PGROUNDDOWN v" by (simp add: word_unat_eq_iff unat_PGROUNDDOWN)
next
  assume "PGROUNDDOWN va = PGROUNDDOWN v"
  then have "unat va div 4096 = unat v div 4096" by (simp add: word_unat_eq_iff unat_PGROUNDDOWN)
  then have "PX l va = PX l v" for l
    by (simp add: word_unat_eq_iff unat_PX div_mult2_eq power_add)
  then show "prefix_eq 3 va v" by (simp add: prefix_eq_def)
qed

text \<open>The map after \<open>n\<close> pages from \<open>va\<close> on were mapped to the physical pages from \<open>pa\<close> on.\<close>

definition mapped :: "nat \<Rightarrow> uint64 \<Rightarrow> uint64 \<Rightarrow> uint64 \<Rightarrow> (uint64 \<Rightarrow> uint64) \<Rightarrow> uint64 \<Rightarrow> uint64" where
  "mapped n va pa perm f v =
     (if unat va \<le> unat v \<and> unat v < unat va + 4096 * n
      then PA2PTE (pa + (PGROUNDDOWN v - va)) OR perm OR PTE_V else f v)"

lemma in_first_page:
  assumes "page_aligned a" "unat a + 4096 < 2 ^ 64"
  shows "PGROUNDDOWN a = PGROUNDDOWN v \<longleftrightarrow> unat a \<le> unat v \<and> unat v < unat a + 4096"
proof -
  obtain k where k: "unat a = 4096 * k" using assms(1) by (auto elim: dvdE)
  have "PGROUNDDOWN a = PGROUNDDOWN v \<longleftrightarrow> k = unat v div 4096"
    by (simp add: word_unat_eq_iff unat_PGROUNDDOWN k)
  also have "\<dots> \<longleftrightarrow> unat a \<le> unat v \<and> unat v < unat a + 4096" unfolding k by auto
  finally show ?thesis .
qed

lemma mapped_Suc:
  assumes "page_aligned a" "unat a + 4096 * Suc n \<le> 2 ^ 38"
  shows "mapped (Suc n) a pa perm f v =
    mapped n (a + PGSIZE) (pa + PGSIZE) perm
      (\<lambda>v. if PGROUNDDOWN a = PGROUNDDOWN v then PA2PTE pa OR perm OR PTE_V else f v) v"
proof -
  have a: "unat (a + PGSIZE) = unat a + 4096" using assms(2) by (simp add: unat_word_ariths PGSIZE_def)
  have "unat a + 4096 < 2 ^ 64" using assms(2) by simp
  note ip = in_first_page [OF assms(1) this, of v]
  have "PGROUNDDOWN v = a" if "PGROUNDDOWN a = PGROUNDDOWN v"
    using that PGROUNDDOWN_id [OF assms(1)] by simp
  moreover have "pa + PGSIZE + (x - (a + PGSIZE)) = pa + (x - a)" for x by simp
  moreover have "unat a + 4096 * Suc n = unat a + 4096 + 4096 * n" by simp
  ultimately show ?thesis using ip unfolding mapped_def a by auto
qed

lemma mapped_0 [simp]: "mapped 0 va pa perm f v = f v"
  by (auto simp: mapped_def)

lemma mapped_cong: "f v = g v \<Longrightarrow> mapped n va pa perm f v = mapped n va pa perm g v"
  by (simp add: mapped_def)

lemma kept_store_leaf:
  assumes "kept pt s ps s' ps'" "table (mem s') pt va 2 = Some q"
  shows "kept pt s ps (s'\<lparr>mem := store64 (q + 8 * PX 0 va) e (mem s')\<rparr>) ps'"
proof -
  have t: "tree (mem s') pt" and k: "kmem_ok s' ps'" and dj: "tables (mem s') pt \<inter> set ps' = {}"
    using assms(1) by (simp_all add: kept_def)
  have q: "q \<in> tables (mem s') pt" using assms(2) by (rule tablesI) simp
  then have al: "page_aligned q" using treeD(2) [OF t] by simp
  have out: "store64 (q + 8 * PX 0 va) e (mem s') x = mem s' x" if "\<not> in_page q x" for x
    unfolding entry_offset(1) by (rule store64_other_page [OF al entry_offset(2) that])
  have "kmem_ok (s'\<lparr>mem := store64 (q + 8 * PX 0 va) e (mem s')\<rparr>) ps'"
  proof (rule kmem_ok_mem [OF k])
    fix r x assume "r \<in> set ps'" "in_page r x"
    then have "page_aligned r" "r \<noteq> q" using k q dj by (auto simp: kmem_ok_def usable_page_def)
    then show "store64 (q + 8 * PX 0 va) e (mem s') x = mem s' x"
      using out in_page_disjoint [OF _ al] \<open>in_page r x\<close> by blast
  qed
  then show ?thesis
    using assms(1) leaf_store(1,2) [OF t assms(2), of e] out q unfolding kept_def by simp
qed

lemma map_page_ok:
  assumes "kmem_ok s ps" "tree (mem s) pt" "tables (mem s) pt \<inter> set ps = {}" "a < MAXVA"
  shows "okK (walk pt a True s) (\<lambda>pte s1. \<exists>ps1. grown pt s ps s1 ps1 \<and>
     (pte = 0 \<and> ps1 = [] \<or> pte \<noteq> 0 \<and> load64 (mem s1) pte = leaf (mem s) pt a \<and>
      (\<forall>e. kept pt s ps (s1\<lparr>mem := store64 pte e (mem s1)\<rparr>) ps1 \<and>
        (\<forall>v < MAXVA. leaf (store64 pte e (mem s1)) pt v =
           (if PGROUNDDOWN a = PGROUNDDOWN v then e else leaf (mem s) pt v)))))"
proof (rule okK_weaken [OF walk_alloc_ok [OF assms]], elim exE conjE disjE, goal_cases)
  case (1 pte s1 ps1)
  then show ?case by blast
next
  case (2 pte s1 ps1)
  have l: "leaf (mem s1) pt = leaf (mem s) pt" and k: "kept pt s ps s1 ps1" and t: "tree (mem s1) pt"
    using 2 by (auto simp: grown_def kept_def)
  obtain q where q: "table (mem s1) pt a 2 = Some q" "pte = q + 8 * PX 0 a"
    using 2 by (auto simp: pte_of_def split: option.splits)
  have "load64 (mem s1) pte = leaf (mem s) pt a"
    unfolding l [symmetric] leaf_def using 2 by simp
  moreover have "kept pt s ps (s1\<lparr>mem := store64 pte e (mem s1)\<rparr>) ps1" for e
    unfolding q(2) by (rule kept_store_leaf [OF k q(1)])
  moreover have "leaf (store64 pte e (mem s1)) pt v =
      (if PGROUNDDOWN a = PGROUNDDOWN v then e else leaf (mem s) pt v)" if "v < MAXVA" for e v
    unfolding q(2) leaf_store(4) [OF t q(1)] l prefix_eq_page [OF assms(4) that] by simp
  ultimately show ?case using 2 by blast
qed

lemma mappages_loop_ok:
  assumes "kmem_ok s ps" "tree (mem s) pt" "tables (mem s) pt \<inter> set ps = {}"
    and "page_aligned a" "unat a + 4096 * Suc n \<le> 2 ^ 38"
    and "\<And>v. unat a \<le> unat v \<Longrightarrow> unat v < unat a + 4096 * Suc n \<Longrightarrow> leaf (mem s) pt v AND PTE_V = 0"
  shows "okK (mappages_loop (Suc n) pt a (a + of_nat n * PGSIZE) pa perm s) (\<lambda>r s'. \<exists>ps' k. kept pt s ps s' ps' \<and>
     (\<forall>v < MAXVA. leaf (mem s') pt v = mapped k a pa perm (leaf (mem s) pt) v) \<and>
     (r = 0 \<and> k = Suc n \<or> r = - 1 \<and> k < Suc n \<and> ps' = []))"
  using assms
proof (induction n arbitrary: a pa s ps)
  case 0
  have "a < MAXVA" using 0 by (simp add: word_less_nat_alt unat_MAXVA)
  have m: "mapped (Suc 0) a pa perm f v = (if PGROUNDDOWN a = PGROUNDDOWN v then PA2PTE pa OR perm OR PTE_V else f v)" for f v
    using mapped_Suc [of a 0] 0 by simp
  show ?case
    unfolding mappages_loop.simps
    apply (rule okK_bindI [OF map_page_ok [OF 0(1-3) \<open>a < MAXVA\<close>]])
    apply (elim exE conjE disjE)
    subgoal by (auto simp: grown_def)
    subgoal using 0(6) [of a] by (auto simp: Let_def m)
    done
next
  case (Suc n)
  have b: "unat (a + PGSIZE) = unat a + 4096" using Suc.prems(5) by (simp add: unat_word_ariths PGSIZE_def)
  have lst: "a + of_nat (Suc n) * PGSIZE = (a + PGSIZE) + of_nat n * PGSIZE" by (simp add: algebra_simps)
  have ne: "a \<noteq> a + PGSIZE + of_nat n * PGSIZE"
  proof
    assume "a = a + PGSIZE + of_nat n * PGSIZE"
    then have "(of_nat (4096 * Suc n) :: uint64) = 0" by (simp add: PGSIZE_def algebra_simps)
    then have "unat (of_nat (4096 * Suc n) :: uint64) = 0" by simp
    moreover have "4096 * Suc n < 2 ^ 64" using Suc.prems(5) by simp
    ultimately show False by (simp only: unat_of_nat take_bit_eq_mod) simp
  qed
  have al: "page_aligned (a + PGSIZE)" using Suc.prems(4) b by simp
  have "a < MAXVA" using Suc.prems(5) by (simp add: word_less_nat_alt unat_MAXVA)
  let ?e = "PA2PTE pa OR perm OR PTE_V"
  show ?case
    unfolding mappages_loop.simps(2) [of "Suc n"]
  proof (rule okK_bindI [OF map_page_ok [OF Suc.prems(1-3) \<open>a < MAXVA\<close>]], elim exE conjE disjE, goal_cases)
    case (1 pte s1 ps1)
    then show ?case by (auto simp: grown_def intro!: exI [of _ 0])
  next
    case (2 pte s1 ps1)
    let ?s2 = "s1\<lparr>mem := store64 pte ?e (mem s1)\<rparr>"
    have k: "kept pt s ps ?s2 ps1" and
      l: "\<And>v. v < MAXVA \<Longrightarrow> leaf (mem ?s2) pt v = (if PGROUNDDOWN a = PGROUNDDOWN v then ?e else leaf (mem s) pt v)"
      using 2 by auto
    have "leaf (mem ?s2) pt v AND PTE_V = 0"
      if "unat (a + PGSIZE) \<le> unat v" "unat v < unat (a + PGSIZE) + 4096 * Suc n" for v
    proof -
      have "v < MAXVA" using that Suc.prems(5) b by (simp add: word_less_nat_alt unat_MAXVA)
      moreover have "PGROUNDDOWN a \<noteq> PGROUNDDOWN v"
        using in_first_page [OF Suc.prems(4), of v] that(1) Suc.prems(5) b by simp
      ultimately show ?thesis using l [of v] Suc.prems(6) [of v] that b by simp
    qed
    then have "okK (mappages_loop (Suc n) pt (a + PGSIZE) (a + PGSIZE + of_nat n * PGSIZE) (pa + PGSIZE) perm ?s2)
      (\<lambda>r s'. \<exists>ps' k. kept pt ?s2 ps1 s' ps' \<and>
        (\<forall>v < MAXVA. leaf (mem s') pt v = mapped k (a + PGSIZE) (pa + PGSIZE) perm (leaf (mem ?s2) pt) v) \<and>
        (r = 0 \<and> k = Suc n \<or> r = - 1 \<and> k < Suc n \<and> ps' = []))"
      using k al Suc.prems(5) b by (intro Suc.IH) (auto simp: kept_def)
    moreover have "mapped j (a + PGSIZE) (pa + PGSIZE) perm (leaf (mem ?s2) pt) v = mapped (Suc j) a pa perm (leaf (mem s) pt) v"
      if "v < MAXVA" "j < Suc (Suc n)" for j v
      using mapped_Suc [OF Suc.prems(4), of j pa perm "leaf (mem s) pt" v] Suc.prems(5) that l [OF that(1)]
      by (simp add: mapped_def)
    ultimately have "okK (mappages_loop (Suc n) pt (a + PGSIZE) (a + PGSIZE + of_nat n * PGSIZE) (pa + PGSIZE) perm ?s2)
      (\<lambda>r s'. \<exists>ps' k. kept pt s ps s' ps' \<and>
        (\<forall>v < MAXVA. leaf (mem s') pt v = mapped k a pa perm (leaf (mem s) pt) v) \<and>
        (r = 0 \<and> k = Suc (Suc n) \<or> r = - 1 \<and> k < Suc (Suc n) \<and> ps' = []))"
      apply (elim okK_weaken exE conjE)
      subgoal for r s' ps' j
        by (intro exI [of _ ps'] exI [of _ "Suc j"] conjI) (auto intro: kept_trans [OF k])
      done
    moreover have "pte \<noteq> 0" "load64 (mem s1) pte AND PTE_V = 0" using 2 Suc.prems(6) [of a] by auto
    ultimately show ?case using ne unfolding lst by (simp add: Let_def del: mappages_loop.simps)
  qed
qed

lemma mappages_ok:
  assumes "kmem_ok s ps" "tree (mem s) pt" "tables (mem s) pt \<inter> set ps = {}"
    and "page_aligned va" "page_aligned sz" "0 < sz" "unat va + unat sz \<le> 2 ^ 38"
    and "\<And>v. unat va \<le> unat v \<Longrightarrow> unat v < unat va + unat sz \<Longrightarrow> leaf (mem s) pt v AND PTE_V = 0"
  shows "okK (mappages pt va sz pa perm s) (\<lambda>r s'. \<exists>ps' k. kept pt s ps s' ps' \<and>
     (\<forall>v < MAXVA. leaf (mem s') pt v = mapped k va pa perm (leaf (mem s) pt) v) \<and>
     (r = 0 \<and> k = unat sz div 4096 \<or> r = - 1 \<and> k < unat sz div 4096 \<and> ps' = []))"
proof -
  obtain n where n: "unat sz = 4096 * Suc n"
  proof -
    obtain k where "unat sz = 4096 * k" using assms(5) by (auto elim: dvdE)
    moreover have "unat sz > 0" using assms(6) by (simp add: word_less_nat_alt)
    ultimately show thesis using that by (cases k) auto
  qed
  have d: "va mod PGSIZE = 0" "sz mod PGSIZE = 0"
    using assms(4,5) by (auto simp: word_unat_eq_iff unat_mod PGSIZE_def)
  have q: "unat (sz div PGSIZE) = Suc n" by (simp add: unat_div PGSIZE_def n)
  have "sz = of_nat (unat sz)" by simp
  then have "sz = of_nat (4096 * Suc n)" unfolding n .
  then have l: "va + sz - PGSIZE = va + of_nat n * PGSIZE" by (simp add: PGSIZE_def)
  have k: "unat sz div 4096 = Suc n" using n by simp
  have "mappages pt va sz pa perm s = mappages_loop (Suc n) pt va (va + of_nat n * PGSIZE) pa perm s"
    unfolding mappages_def d q l using assms(6) by (auto simp del: mappages_loop.simps)
  then show ?thesis
    using mappages_loop_ok [OF assms(1-4) assms(7) [unfolded n] assms(8) [unfolded n]]
    by (simp only: k)
qed

text \<open>A zeroed page is an empty page table.\<close>

lemma zero_table:
  assumes "page_aligned pt" "pt \<noteq> 0" "\<And>x. in_page pt x \<Longrightarrow> m x = 0"
  shows "tables m pt = {pt}" "tree m pt" "leaf m pt v = 0"
proof -
  have z: "load64 m (pt + 8 * PX l v) = 0" for l v
  proof -
    have "load64 m (pt + of_nat (8 * unat (PX l v))) = load64 (\<lambda>_. 0) (pt + of_nat (8 * unat (PX l v)))"
      by (rule load64_other_page [OF entry_offset(2)]) (rule assms(3))
    then show ?thesis unfolding entry_offset(1) by (simp add: load64_def)
  qed
  have t: "table m pt v k = (if k = 0 then Some pt else None)" for v k
    by (induction k) (simp_all add: z)
  show ts: "tables m pt = {pt}" by (auto simp: tables_def t)
  show "tree m pt" unfolding tree_def ts using assms by (auto simp: t split: if_splits)
  show "leaf m pt v = 0" by (simp add: leaf_def pte_of_def t)
qed

text \<open>
  C13: \<^verbatim>\<open>mappages\<close> refines the update of a map from virtual pages to entries. On an unmapped,
  aligned range below \<^verbatim>\<open>MAXVA\<close> it returns 0 and then exactly the pages of the range are
  mapped, each to its physical page with the given permissions; or it returns -1, and then the
  free list is exhausted and a proper prefix of the range has been mapped. Either way the table
  pages still form a tree, the pages added to it come from the free list, the rest of the free
  list is intact, and no memory outside the page table changes.
\<close>

theorem mappages_correct:
  assumes "kmem_ok s ps" and "tree (mem s) pt" and "tables (mem s) pt \<inter> set ps = {}"
    and "page_aligned va" and "page_aligned sz" and "0 < sz" and "unat va + unat sz \<le> 2 ^ 38"
    and "\<forall>v. unat va \<le> unat v \<longrightarrow> unat v < unat va + unat sz \<longrightarrow> leaf (mem s) pt v AND PTE_V = 0"
  shows "okK (mappages pt va sz pa perm s) (\<lambda>r s'. \<exists>ps' k.
     (r = 0 \<and> k = unat sz div 4096 \<or> r = - 1 \<and> k < unat sz div 4096 \<and> ps' = []) \<and>
     (\<forall>v < MAXVA. leaf (mem s') pt v =
        (if unat va \<le> unat v \<and> unat v < unat va + 4096 * k
         then PA2PTE (pa + (PGROUNDDOWN v - va)) OR perm OR PTE_V else leaf (mem s) pt v)) \<and>
     tree (mem s') pt \<and> tables (mem s') pt \<subseteq> tables (mem s) pt \<union> set ps \<and>
     kmem_ok s' ps' \<and> tables (mem s') pt \<inter> set ps' = {} \<and>
     (\<forall>x. (\<forall>q \<in> tables (mem s') pt. \<not> in_page q x) \<longrightarrow> mem s' x = mem s x))"
proof -
  have "okK (mappages pt va sz pa perm s) (\<lambda>r s'. \<exists>ps' k. kept pt s ps s' ps' \<and>
     (\<forall>v < MAXVA. leaf (mem s') pt v = mapped k va pa perm (leaf (mem s) pt) v) \<and>
     (r = 0 \<and> k = unat sz div 4096 \<or> r = - 1 \<and> k < unat sz div 4096 \<and> ps' = []))"
    using assms(8) by (intro mappages_ok assms(1-7)) blast
  then show ?thesis
  proof (rule okK_weaken, elim exE conjE)
    fix r s' ps' k
    assume "kept pt s ps s' ps'"
      and "\<forall>v < MAXVA. leaf (mem s') pt v = mapped k va pa perm (leaf (mem s) pt) v"
      and "r = 0 \<and> k = unat sz div 4096 \<or> r = - 1 \<and> k < unat sz div 4096 \<and> ps' = []"
    then show "\<exists>ps' k. (r = 0 \<and> k = unat sz div 4096 \<or> r = - 1 \<and> k < unat sz div 4096 \<and> ps' = []) \<and>
       (\<forall>v < MAXVA. leaf (mem s') pt v =
          (if unat va \<le> unat v \<and> unat v < unat va + 4096 * k
           then PA2PTE (pa + (PGROUNDDOWN v - va)) OR perm OR PTE_V else leaf (mem s) pt v)) \<and>
       tree (mem s') pt \<and> tables (mem s') pt \<subseteq> tables (mem s) pt \<union> set ps \<and>
       kmem_ok s' ps' \<and> tables (mem s') pt \<inter> set ps' = {} \<and>
       (\<forall>x. (\<forall>q \<in> tables (mem s') pt. \<not> in_page q x) \<longrightarrow> mem s' x = mem s x)"
      unfolding kept_def mapped_def by blast
  qed
qed

definition demo_vm :: mem_st where
  "demo_vm = \<lparr>procs = [], cur = None, nextpid = 1, initproc = None, ticks = 0, kout = [],
     mem = store64 0x87fff000 0x87ffe000 (\<lambda>_. 0), freelist = 0x87fff000, kend = 0x80200000,
     kernel_pagetable = 0\<rparr>"

lemma demo_vm_out: "\<not> in_page 0x87fff000 x \<Longrightarrow> mem demo_vm x = 0"
  using store64_other_page [of "0x87fff000" 0 x] by (simp add: demo_vm_def)

lemma demo_vm_ok: "kmem_ok demo_vm [0x87fff000, 0x87ffe000]"
proof -
  have "load64 (mem demo_vm) (0x87ffe000 + of_nat 0) = load64 (\<lambda>_. 0) (0x87ffe000 + of_nat 0)"
    by (rule load64_other_page) (use in_page_disjoint [of "0x87ffe000" "0x87fff000"] in \<open>auto intro!: demo_vm_out\<close>)
  then have "load64 (mem demo_vm) 0x87ffe000 = 0" by (simp add: load64_def)
  then show ?thesis
    by (simp add: demo_vm_def kmem_ok_def usable_page_def PHYSTOP_def KERNBASE_def)
qed

lemma demo_vm_table: "tables (mem demo_vm) 0x80100000 = {0x80100000}" "tree (mem demo_vm) 0x80100000"
  "leaf (mem demo_vm) 0x80100000 v = 0"
proof -
  have "mem demo_vm x = 0" if "in_page 0x80100000 x" for x
    using in_page_disjoint [of "0x80100000" "0x87fff000" x] that by (intro demo_vm_out) simp
  note z = zero_table [OF _ _ this]
  show "tables (mem demo_vm) 0x80100000 = {0x80100000}" by (rule z) simp_all
  show "tree (mem demo_vm) 0x80100000" by (rule z) simp_all
  show "leaf (mem demo_vm) 0x80100000 v = 0" by (rule z) simp_all
qed

theorem mappages_correct_witness:
  "okK (mappages 0x80100000 0x1000 0x1000 0x80300000 (PTE_R OR PTE_U) demo_vm) (\<lambda>r s'. \<exists>ps' k.
     (r = 0 \<and> k = unat (0x1000 :: uint64) div 4096 \<or> r = - 1 \<and> k < unat (0x1000 :: uint64) div 4096 \<and> ps' = []) \<and>
     (\<forall>v < MAXVA. leaf (mem s') 0x80100000 v =
        (if unat (0x1000 :: uint64) \<le> unat v \<and> unat v < unat (0x1000 :: uint64) + 4096 * k
         then PA2PTE (0x80300000 + (PGROUNDDOWN v - 0x1000)) OR (PTE_R OR PTE_U) OR PTE_V
         else leaf (mem demo_vm) 0x80100000 v)) \<and>
     tree (mem s') 0x80100000 \<and>
     tables (mem s') 0x80100000 \<subseteq> tables (mem demo_vm) 0x80100000 \<union> set [0x87fff000, 0x87ffe000] \<and>
     kmem_ok s' ps' \<and> tables (mem s') 0x80100000 \<inter> set ps' = {} \<and>
     (\<forall>x. (\<forall>q \<in> tables (mem s') 0x80100000. \<not> in_page q x) \<longrightarrow> mem s' x = mem demo_vm x))"
  by (rule mappages_correct [OF demo_vm_ok demo_vm_table(2)]) (simp_all add: demo_vm_table)

section \<open>Writing to user memory\<close>


text \<open>A page table that maps one page, for user code, at address 0.\<close>

definition demo_space :: mem where
  "demo_space = store64 0x3000 (PA2PTE 0x4000 OR (PTE_R OR PTE_W OR PTE_U) OR PTE_V)
     (store64 0x2000 (PA2PTE 0x3000 OR PTE_V) (store64 0x1000 (PA2PTE 0x2000 OR PTE_V) (\<lambda>_. 0)))"

lemma memset_id: "(\<And>x. in_page p x \<Longrightarrow> m x = 0) \<Longrightarrow> memset p 0 4096 m = m"
  by (auto simp: memset_page fun_eq_iff)

lemma PX_0 [simp]: "PX l 0 = 0"
  by (simp add: PX_def)

lemma demo_space_leaf:
  shows "tree demo_space 0x1000" "tables demo_space 0x1000 \<subseteq> {0x1000, 0x2000, 0x3000}"
    "leaf demo_space 0x1000 v =
      (if prefix_eq 3 0 v then PA2PTE 0x4000 OR (PTE_R OR PTE_W OR PTE_U) OR PTE_V else 0)"
proof -
  define m0 :: mem where "m0 = (\<lambda>_. 0)"
  define m1 where "m1 = store64 0x1000 (PA2PTE 0x2000 OR PTE_V) m0"
  define m2 where "m2 = store64 0x2000 (PA2PTE 0x3000 OR PTE_V) m1"
  have z: "tables m0 0x1000 = {0x1000}" "tree m0 0x1000" "leaf m0 0x1000 v = 0" for v
    by (rule zero_table; simp add: m0_def)+
  have o: "m1 x = 0" if "in_page 0x3000 x" for x
    using store64_other_page [of "0x1000" 0 x] in_page_disjoint [of "0x3000" "0x1000" x] that
    by (simp add: m1_def m0_def)
  have ag: "agree_on S m m" for S m by (simp add: agree_on_def)
  have c: "PTE2PA (PA2PTE 0x2000 OR PTE_V) = 0x2000" "PTE2PA (PA2PTE 0x3000 OR PTE_V) = 0x3000"
    by (simp_all add: PTE2PA_def PA2PTE_def PTE_V_def)
  have e1: "m1 = store64 (0x1000 + 8 * PX (2 - 0) 0) (PA2PTE 0x2000 OR PTE_V) (memset 0x2000 0 4096 m0)"
    using memset_id [of "0x2000" m0] by (simp add: m1_def m0_def)
  have l0: "load64 m0 a = 0" for a by (simp add: m0_def load64_def)
  note s1 = leaf_link [of m0 "0x1000" 0 0 "0x1000" "0x2000" m0, folded e1]
  have t1: "leaf m1 0x1000 = leaf m0 0x1000" "tree m1 0x1000" "tables m1 0x1000 \<subseteq> {0x2000, 0x1000}"
    "table m1 0x1000 0 1 = Some 0x2000"
    using s1 z c ag by (simp_all add: l0)
  have l1: "load64 m1 (0x2000 + 8 * PX 1 0) = 0"
    using load_store_entry [of "0x1000" "0x2000" 0 0 _ _ 1 0] by (simp add: m1_def l0)
  have e2: "m2 = store64 (0x2000 + 8 * PX (2 - 1) 0) (PA2PTE 0x3000 OR PTE_V) (memset 0x3000 0 4096 m1)"
    using memset_id [of "0x3000" m1] o by (simp add: m2_def)
  note s2 = leaf_link [of m1 "0x1000" 0 1 "0x2000" "0x3000" m1, folded e2, unfolded Suc_1]
  have ni: "0x3000 \<notin> tables m1 0x1000" using t1(3) by auto
  have t2: "leaf m2 0x1000 = leaf m1 0x1000" "tree m2 0x1000" "tables m2 0x1000 \<subseteq> insert 0x3000 (tables m1 0x1000)"
    "table m2 0x1000 0 2 = Some 0x3000"
    using s2 t1 ni c ag l1 by simp_all
  have e3: "demo_space = store64 (0x3000 + 8 * PX 0 0) (PA2PTE 0x4000 OR (PTE_R OR PTE_W OR PTE_U) OR PTE_V) m2"
    by (simp add: demo_space_def m2_def m1_def m0_def)
  note s3 = leaf_store [OF t2(2,4), where e = "PA2PTE 0x4000 OR (PTE_R OR PTE_W OR PTE_U) OR PTE_V", folded e3]
  show "tree demo_space 0x1000" by (rule s3)
  show "tables demo_space 0x1000 \<subseteq> {0x1000, 0x2000, 0x3000}" using s3(2) t2(3) t1(3) by auto
  show "leaf demo_space 0x1000 v =
      (if prefix_eq 3 0 v then PA2PTE 0x4000 OR (PTE_R OR PTE_W OR PTE_U) OR PTE_V else 0)"
    using s3(4) t2(1) t1(1) z(3) by simp
qed

lemma demo_space_frame: "frame demo_space 0x1000 v = (if v < 0x1000 then 0x4000 else 0)"
proof (cases "v < MAXVA")
  case True
  then have "prefix_eq 3 0 v \<longleftrightarrow> v < 0x1000"
    using prefix_eq_page [of 0 v] in_first_page [of 0 v]
    by (simp add: word_less_nat_alt unat_MAXVA)
  then show ?thesis
    using True unfolding frame_def demo_space_leaf(3)
    by (auto simp: PTE2PA_def PA2PTE_def PTE_V_def PTE_R_def PTE_W_def PTE_U_def)
next
  case False
  then have "\<not> v < 0x1000" by (simp add: word_less_nat_alt unat_MAXVA)
  then show ?thesis using False by (simp add: frame_def not_less)
qed

lemma demo_space_ok: "space_ok demo_space 0x1000"
proof -
  have nt: "0x4000 \<notin> tables demo_space 0x1000" "0 \<notin> tables demo_space 0x1000"
    using demo_space_leaf(2) by auto
  have pg: "PGROUNDDOWN v = 0" if "v < 0x1000" for v
    using in_first_page [of 0 v] that by (simp add: word_less_nat_alt PGROUNDDOWN_def)
  have fr: "frame demo_space 0x1000 v \<noteq> 0"
    if "v < MAXVA" "leaf demo_space 0x1000 v AND PTE_V \<noteq> 0" for v
  proof -
    have "prefix_eq 3 0 v" using that(2) unfolding demo_space_leaf(3) by (simp split: if_splits)
    then have "v < 0x1000" using prefix_eq_page [of 0 v] in_first_page [of 0 v] that(1)
      by (simp add: word_less_nat_alt unat_MAXVA)
    then show ?thesis by (simp add: demo_space_frame)
  qed
  show ?thesis
    unfolding space_ok_def using nt fr pg by (auto simp: demo_space_frame split: if_splits)
qed


end
