(* ===== verification/User_Copy.thy ===== *)
theory User_Copy
  imports Vm_Maps
begin

text \<open>
  What the device and pipe code relies on when it moves single bytes between the kernel and
  a user program: \<^verbatim>\<open>copyout\<close> and \<^verbatim>\<open>copyin\<close> of one byte, and how a run of them adds up.
\<close>

text \<open>The user program sees \<open>bs\<close> at \<open>va\<close> and everything else as before.\<close>

definition uwrote :: "uint64 \<Rightarrow> uint64 \<Rightarrow> uchar list \<Rightarrow> mem \<Rightarrow> mem \<Rightarrow> bool" where
  "uwrote pt va bs m m' \<longleftrightarrow> space_ok m' pt \<and> leaf m' pt = leaf m pt \<and>
     (\<forall>x. umem m' pt x = (if unat (x - va) < length bs then Some (bs ! unat (x - va)) else umem m pt x))"

definition uwritable :: "mem \<Rightarrow> uint64 \<Rightarrow> uint64 \<Rightarrow> nat \<Rightarrow> bool" where
  "uwritable m pt va n \<longleftrightarrow> (\<forall>i < n. writable m pt (PGROUNDDOWN (va + of_nat i)))"

lemma uwrote_refl: "space_ok m pt \<Longrightarrow> uwrote pt va [] m m"
  by (simp add: uwrote_def)

lemma uwrote_ok: "uwrote pt va bs m m' \<Longrightarrow> space_ok m' pt"
  by (simp add: uwrote_def)

lemma writable_cong: "leaf m' pt = leaf m pt \<Longrightarrow> writable m' pt = writable m pt"
  by (rule ext) (simp add: writable_def frame_def)

lemma uwrote_writable: "uwrote pt va bs m m' \<Longrightarrow> writable m' pt = writable m pt"
  by (rule writable_cong) (simp add: uwrote_def)

lemma uwritable_first: "uwritable m pt va (Suc n) \<Longrightarrow> writable m pt (PGROUNDDOWN va)"
  unfolding uwritable_def by (drule spec [of _ 0]) simp

lemma uwritable_rest:
  assumes "uwritable m pt va (Suc n)" shows "uwritable m pt (va + 1) n"
proof -
  have "writable m pt (PGROUNDDOWN (va + 1 + of_nat i))" if "i < n" for i
    using assms that unfolding uwritable_def by (auto dest: spec [of _ "Suc i"] simp: add.assoc)
  then show ?thesis by (simp add: uwritable_def)
qed

lemma uwritable_cong: "writable m' pt = writable m pt \<Longrightarrow> uwritable m' pt = uwritable m pt"
  by (intro ext) (simp add: uwritable_def)

lemma uwrote_append:
  assumes "uwrote pt va as m m1" and "uwrote pt (va + of_nat (length as)) bs m1 m2"
    and "length as + length bs < 2 ^ 64"
  shows "uwrote pt va (as @ bs) m m2"
proof -
  note w = window_shift [OF assms(3)]
  have "umem m2 pt x = (if unat (x - va) < length as + length bs
      then Some ((as @ bs) ! unat (x - va)) else umem m pt x)" for x
  proof (cases "unat (x - va) < length as")
    case True
    then show ?thesis using assms(1,2) w(3) [of x va] by (simp add: uwrote_def nth_append)
  next
    case False
    then show ?thesis using assms(1,2) w(1,2) [of x va] by (simp add: uwrote_def nth_append)
  qed
  then show ?thesis using assms(1,2) by (simp add: uwrote_def)
qed

lemma copyout_byte:
  assumes "space_ok (mem s) pt" and "writable (mem s) pt (PGROUNDDOWN va)"
  obtains m' where "copyout pt va [b] s = Ret 0 (s\<lparr>mem := m'\<rparr>)" and "uwrote pt va [b] (mem s) m'"
proof -
  obtain r k s' where h: "copyout pt va [b] s = Ret r s'" "k \<le> 1" "s' = s\<lparr>mem := mem s'\<rparr>"
    "space_ok (mem s') pt" "leaf (mem s') pt = leaf (mem s) pt"
    "\<forall>x. umem (mem s') pt x = (if unat (x - va) < k then Some ([b] ! unat (x - va)) else umem (mem s) pt x)"
    "r = 0 \<and> k = 1 \<or> r = - 1 \<and> k < 1 \<and> \<not> writable (mem s) pt (PGROUNDDOWN (va + of_nat k))"
    using copyout_spec [OF assms(1), of "[b]" va] by auto
  then have "r = 0" "k = 1" using assms(2) by auto
  with h that [of "mem s'"] show thesis by (simp add: uwrote_def)
qed

text \<open>Reading one byte never changes anything; it fails exactly where no user page is mapped.\<close>

lemma copyin_byte_Some: "umem (mem s) pt va = Some b \<Longrightarrow> copyin pt va 1 s = Ret (0, [b]) s"
  using copyin_spec [of pt va 1 s] by (auto simp: ubytes_def)

lemma copyin_byte_None: "umem (mem s) pt va = None \<Longrightarrow> \<exists>bs. copyin pt va 1 s = Ret (- 1, bs) s"
  using copyin_spec [of pt va 1 s] by (auto simp: ubytes_def)

text \<open>The example address space is writable throughout its one page.\<close>

lemma demo_space_writable:
  assumes "n \<le> 4096" shows "uwritable demo_space 0x1000 0 n"
proof -
  have "PGROUNDDOWN (0 + of_nat i) = 0" if "i < n" for i
    using page_run [of i 0] that assms by (simp add: PGROUNDDOWN_def)
  moreover have "leaf demo_space 0x1000 0 AND PTE_W \<noteq> 0"
    unfolding demo_space_leaf(3) prefix_eq_refl if_True
    by (simp add: PA2PTE_def PTE_R_def PTE_W_def PTE_U_def PTE_V_def)
  ultimately show ?thesis by (simp add: uwritable_def writable_def demo_space_frame)
qed

end
