(* ===== verification/Bio.thy ===== *)
theory Bio
  imports Physmem
begin

text \<open>
  Sleep locks (\<^verbatim>\<open>src/kernel/sleeplock.c\<close>) and the buffer cache (\<^verbatim>\<open>src/kernel/bio.c\<close>).
  Pointers to a \<^verbatim>\<open>struct buf\<close> are indices: below \<open>NBUF\<close> the entries of \<^verbatim>\<open>bcache.buf\<close>, and
  \<open>NBUF\<close> itself \<^verbatim>\<open>bcache.head\<close>, so the doubly linked LRU list is kept as the code keeps it,
  in the \<open>prev\<close> and \<open>next\<close> fields.

  The disk is a function from block numbers to blocks; \<open>disk_rw\<close> is one completed transfer
  of the device, and \<open>dwrites\<close> records the writes in the order they reach the disk (a
  history variable, read only by the statements about crashes).
\<close>

definition BSIZE :: nat where [param_defs]: "BSIZE = 1024"

section \<open>Sleep locks\<close>

record sleeplock =
  sl_locked :: uint
  sl_pid :: int

definition initsleeplock :: "sleeplock \<Rightarrow> sleeplock" where
  "initsleeplock lk = lk\<lparr>sl_locked := 0, sl_pid := 0\<rparr>"

text \<open>\<open>ch\<close> is the address of the lock: a process that finds it taken sleeps there.\<close>

definition acquiresleep ::
  "chan \<Rightarrow> sleeplock \<Rightarrow> 'a sched_st_scheme \<Rightarrow> (sleeplock, 'a sched_st_scheme) outcome" where
  "acquiresleep ch lk s =
     (if sl_locked lk \<noteq> 0 then sleep ch s
      else case cur s of
          None \<Rightarrow> Panic ''kerneltrap''
        | Some i \<Rightarrow> Ret (lk\<lparr>sl_locked := 1, sl_pid := p_pid (procs s ! i)\<rparr>) s)"

definition releasesleep :: "chan \<Rightarrow> sleeplock \<Rightarrow> 'a sched_st_scheme \<Rightarrow> sleeplock \<times> 'a sched_st_scheme" where
  "releasesleep ch lk s = (lk\<lparr>sl_locked := 0, sl_pid := 0\<rparr>, wakeup ch s)"

definition holdingsleep :: "sleeplock \<Rightarrow> 'a sched_st_scheme \<Rightarrow> bool" where
  "holdingsleep lk s \<longleftrightarrow> sl_locked lk \<noteq> 0 \<and> sl_pid lk = mypid s"

section \<open>Buffers\<close>

record buf =
  b_valid :: int
  b_disk :: int
  b_dev :: uint
  b_blockno :: uint
  b_lock :: sleeplock
  b_refcnt :: uint
  b_prev :: nat
  b_next :: nat
  b_data :: "uchar list"

record bio_st = mem_st +
  bufs :: "buf list"
  disk :: "uint \<Rightarrow> uchar list"
  dwrites :: "(uint \<times> uchar list) list"

abbreviation buf_of :: "'a bio_st_scheme \<Rightarrow> nat \<Rightarrow> buf" where
  "buf_of s b \<equiv> bufs s ! b"

definition upd_buf :: "nat \<Rightarrow> (buf \<Rightarrow> buf) \<Rightarrow> 'a bio_st_scheme \<Rightarrow> 'a bio_st_scheme" where
  "upd_buf b f s = s\<lparr>bufs := (bufs s)[b := f (bufs s ! b)]\<rparr>"

text \<open>Stores through \<^verbatim>\<open>bp->data\<close>.\<close>

definition set_data :: "nat \<Rightarrow> uchar list \<Rightarrow> 'a bio_st_scheme \<Rightarrow> 'a bio_st_scheme" where
  "set_data b d s = upd_buf b (\<lambda>x. x\<lparr>b_data := d\<rparr>) s"

text \<open>One completed transfer between a buffer and the disk.\<close>

definition disk_rw :: "nat \<Rightarrow> bool \<Rightarrow> 'a bio_st_scheme \<Rightarrow> 'a bio_st_scheme" where
  "disk_rw b write s =
     (let n = b_blockno (buf_of s b) in
      if write
      then s\<lparr>disk := (disk s)(n := b_data (buf_of s b)),
             dwrites := dwrites s @ [(n, b_data (buf_of s b))]\<rparr>
      else set_data b (disk s n) s)"

text \<open>The links, written one field at a time.\<close>

definition set_next :: "nat \<Rightarrow> nat \<Rightarrow> buf list \<Rightarrow> buf list" where
  "set_next b n bs = bs[b := (bs ! b)\<lparr>b_next := n\<rparr>]"

definition set_prev :: "nat \<Rightarrow> nat \<Rightarrow> buf list \<Rightarrow> buf list" where
  "set_prev b p bs = bs[b := (bs ! b)\<lparr>b_prev := p\<rparr>]"

text \<open>The four assignments that put a buffer behind the head.\<close>

definition link_front :: "nat \<Rightarrow> buf list \<Rightarrow> buf list" where
  "link_front b bs =
     (let bs = set_next b (b_next (bs ! NBUF)) bs;
          bs = set_prev b NBUF bs;
          bs = set_prev (b_next (bs ! NBUF)) b bs
      in set_next NBUF b bs)"

definition unlink_buf :: "nat \<Rightarrow> buf list \<Rightarrow> buf list" where
  "unlink_buf b bs =
     (let bs = set_prev (b_next (bs ! b)) (b_prev (bs ! b)) bs
      in set_next (b_prev (bs ! b)) (b_next (bs ! b)) bs)"

definition binit :: "'a bio_st_scheme \<Rightarrow> 'a bio_st_scheme" where
  "binit s =
     (let bs = set_next NBUF NBUF (set_prev NBUF NBUF (bufs s)) in
      s\<lparr>bufs := fold (\<lambda>b bs. link_front b (bs[b := (bs ! b)\<lparr>b_lock := initsleeplock (b_lock (bs ! b))\<rparr>]))
          [0..<NBUF] bs\<rparr>)"

text \<open>
  A walk along the list from \<open>b\<close> to the head, in the direction \<open>dir\<close>, for a buffer that
  satisfies \<open>P\<close>. The first argument bounds the number of steps; \<open>None\<close> is a walk that has
  not come back to the head by then.
\<close>

fun walk_list :: "nat \<Rightarrow> (buf \<Rightarrow> nat) \<Rightarrow> (buf \<Rightarrow> bool) \<Rightarrow> buf list \<Rightarrow> nat \<Rightarrow> nat option option" where
  "walk_list 0 dir P bs b = None"
| "walk_list (Suc fuel) dir P bs b =
     (if b = NBUF then Some None
      else if P (bs ! b) then Some (Some b)
      else walk_list fuel dir P bs (dir (bs ! b)))"

definition lock_buf :: "nat \<Rightarrow> 'a bio_st_scheme \<Rightarrow> (nat, 'a bio_st_scheme) outcome" where
  "lock_buf b s = bindK (acquiresleep (ChanBufLock b) (b_lock (buf_of s b)) s)
     (\<lambda>lk s. Ret b (upd_buf b (\<lambda>x. x\<lparr>b_lock := lk\<rparr>) s))"

definition bget :: "uint \<Rightarrow> uint \<Rightarrow> 'a bio_st_scheme \<Rightarrow> (nat, 'a bio_st_scheme) outcome" where
  "bget dev blockno s =
     (case walk_list (Suc NBUF) b_next (\<lambda>b. b_dev b = dev \<and> b_blockno b = blockno)
             (bufs s) (b_next (buf_of s NBUF)) of
        None \<Rightarrow> Stuck
      | Some (Some b) \<Rightarrow> lock_buf b (upd_buf b (\<lambda>x. x\<lparr>b_refcnt := b_refcnt x + 1\<rparr>) s)
      | Some None \<Rightarrow>
         (case walk_list (Suc NBUF) b_prev (\<lambda>b. b_refcnt b = 0) (bufs s) (b_prev (buf_of s NBUF)) of
            None \<Rightarrow> Stuck
          | Some None \<Rightarrow> Panic ''bget: no buffers''
          | Some (Some b) \<Rightarrow> lock_buf b (upd_buf b (\<lambda>x. x\<lparr>b_dev := dev, b_blockno := blockno,
               b_valid := 0, b_refcnt := 1\<rparr>) s)))"

definition bread :: "uint \<Rightarrow> uint \<Rightarrow> 'a bio_st_scheme \<Rightarrow> (nat, 'a bio_st_scheme) outcome" where
  "bread dev blockno s = bindK (bget dev blockno s) (\<lambda>b s.
     if b_valid (buf_of s b) = 0
     then Ret b (upd_buf b (\<lambda>x. x\<lparr>b_valid := 1\<rparr>) (disk_rw b False s))
     else Ret b s)"

definition bwrite :: "nat \<Rightarrow> 'a bio_st_scheme \<Rightarrow> (unit, 'a bio_st_scheme) outcome" where
  "bwrite b s =
     (if \<not> holdingsleep (b_lock (buf_of s b)) s then Panic ''bwrite''
      else Ret () (disk_rw b True s))"

definition brelse :: "nat \<Rightarrow> 'a bio_st_scheme \<Rightarrow> (unit, 'a bio_st_scheme) outcome" where
  "brelse b s =
     (if \<not> holdingsleep (b_lock (buf_of s b)) s then Panic ''brelse''
      else let (lk, s) = releasesleep (ChanBufLock b) (b_lock (buf_of s b)) s;
               s = upd_buf b (\<lambda>x. x\<lparr>b_lock := lk\<rparr>) s;
               s = upd_buf b (\<lambda>x. x\<lparr>b_refcnt := b_refcnt x - 1\<rparr>) s
           in if b_refcnt (buf_of s b) = 0
              then Ret () (s\<lparr>bufs := link_front b (unlink_buf b (bufs s))\<rparr>)
              else Ret () s)"

definition bpin :: "nat \<Rightarrow> 'a bio_st_scheme \<Rightarrow> 'a bio_st_scheme" where
  "bpin b s = upd_buf b (\<lambda>x. x\<lparr>b_refcnt := b_refcnt x + 1\<rparr>) s"

definition bunpin :: "nat \<Rightarrow> 'a bio_st_scheme \<Rightarrow> 'a bio_st_scheme" where
  "bunpin b s = upd_buf b (\<lambda>x. x\<lparr>b_refcnt := b_refcnt x - 1\<rparr>) s"

section \<open>The list\<close>

text \<open>
  \<open>chain nx pv a xs z\<close>: starting at \<open>a\<close>, the forward links visit \<open>xs\<close> and then \<open>z\<close>, and
  every backward link is the inverse of the forward one.
\<close>

fun chain :: "(nat \<Rightarrow> nat) \<Rightarrow> (nat \<Rightarrow> nat) \<Rightarrow> nat \<Rightarrow> nat list \<Rightarrow> nat \<Rightarrow> bool" where
  "chain nx pv a [] z \<longleftrightarrow> nx a = z \<and> pv z = a"
| "chain nx pv a (x # xs) z \<longleftrightarrow> nx a = x \<and> pv x = a \<and> chain nx pv x xs z"

abbreviation nexts :: "buf list \<Rightarrow> nat \<Rightarrow> nat" where
  "nexts bs \<equiv> \<lambda>i. b_next (bs ! i)"

abbreviation prevs :: "buf list \<Rightarrow> nat \<Rightarrow> nat" where
  "prevs bs \<equiv> \<lambda>i. b_prev (bs ! i)"

definition dll :: "buf list \<Rightarrow> nat list \<Rightarrow> bool" where
  "dll bs xs \<longleftrightarrow> length bs = Suc NBUF \<and> chain (nexts bs) (prevs bs) NBUF xs NBUF \<and>
     distinct xs \<and> set xs = {0..<NBUF}"

lemma chain_append: "chain nx pv a (xs @ y # ys) z \<longleftrightarrow> chain nx pv a xs y \<and> chain nx pv y ys z"
  by (induction xs arbitrary: a) auto

lemma chain_next_other: "p \<notin> set (a # xs) \<Longrightarrow> chain (nx(p := n)) pv a xs z = chain nx pv a xs z"
  by (induction xs arbitrary: a) auto

lemma chain_prev_other: "n \<notin> set (xs @ [z]) \<Longrightarrow> chain nx (pv(n := p)) a xs z = chain nx pv a xs z"
  by (induction xs arbitrary: a) auto

lemma chain_ends:
  "chain nx pv a xs z \<Longrightarrow> nx a = hd (xs @ [z]) \<and> pv z = last (a # xs)"
  by (induction xs arbitrary: a) auto

lemma chain_walk:
  "chain nx pv a xs NBUF \<Longrightarrow> (\<forall>i. nx i = dir (bs ! i)) \<Longrightarrow> NBUF \<notin> set xs \<Longrightarrow> length xs < fuel \<Longrightarrow>
   walk_list fuel dir P bs (nx a) = Some (find (\<lambda>i. P (bs ! i)) xs)"
proof (induction xs arbitrary: a fuel)
  case Nil
  then show ?case by (cases fuel) auto
next
  case (Cons x xs)
  then obtain f where f: "fuel = Suc f" by (cases fuel) auto
  with Cons.prems have "walk_list f dir P bs (nx x) = Some (find (\<lambda>i. P (bs ! i)) xs)"
    by (intro Cons.IH) auto
  with Cons.prems f show ?case by auto
qed

lemma chain_rev: "chain nx pv a xs z \<Longrightarrow> chain pv nx z (rev xs) a"
proof (induction xs arbitrary: a)
  case Nil
  then show ?case by simp
next
  case (Cons x xs)
  then have "chain pv nx z (rev xs) x" by simp
  with Cons.prems show ?case by (simp add: chain_append)
qed

lemma dll_length: "dll bs xs \<Longrightarrow> length xs = NBUF"
  by (metis dll_def distinct_card card_atLeastLessThan diff_zero)

text \<open>The walks of \<^verbatim>\<open>bget\<close> end, and search the list from its front and from its back.\<close>

lemma dll_walk_next:
  assumes "dll bs xs"
  shows "walk_list (Suc NBUF) b_next P bs (b_next (bs ! NBUF)) = Some (find (\<lambda>i. P (bs ! i)) xs)"
  using assms dll_length [OF assms]
    chain_walk [of "nexts bs" "prevs bs" NBUF xs b_next bs "Suc NBUF" P]
  by (simp add: dll_def)

lemma dll_walk_prev:
  assumes "dll bs xs"
  shows "walk_list (Suc NBUF) b_prev P bs (b_prev (bs ! NBUF)) = Some (find (\<lambda>i. P (bs ! i)) (rev xs))"
  using assms dll_length [OF assms] chain_rev [of "nexts bs" "prevs bs" NBUF xs NBUF]
    chain_walk [of "prevs bs" "nexts bs" NBUF "rev xs" b_prev bs "Suc NBUF" P]
  by (simp add: dll_def)

text \<open>Unlinking and relinking, on the link functions.\<close>

lemma chain_unlink:
  assumes "chain nx pv a (ys @ b # zs) a" and "distinct (a # ys @ b # zs)"
  shows "chain (nx(pv b := nx b)) (pv(nx b := pv b)) a (ys @ zs) a"
proof -
  have c1: "chain nx pv a ys b" and c2: "chain nx pv b zs a"
    using assms(1) by (simp_all add: chain_append)
  have p: "pv b = last (a # ys)" and n: "nx b = hd (zs @ [a])"
    using chain_ends [OF c1] chain_ends [OF c2] by auto
  show ?thesis
  proof (cases ys rule: rev_cases)
    case Nil
    with p have pb: "pv b = a" by simp
    show ?thesis
    proof (cases zs)
      case Nil
      with \<open>ys = []\<close> pb n show ?thesis by simp
    next
      case (Cons z zs')
      with c2 have "chain nx pv z zs' a" and nb: "nx b = z" by auto
      moreover have "a \<notin> set (z # zs')" and "z \<notin> set (zs' @ [a])" using assms(2) Cons by auto
      ultimately have "chain (nx(a := z)) (pv(z := a)) z zs' a"
        by (simp add: chain_next_other chain_prev_other del: set_append)
      with \<open>ys = []\<close> Cons pb nb show ?thesis by simp
    qed
  next
    case (snoc ys' q)
    with p have pb: "pv b = q" by simp
    from c1 snoc have d1: "chain nx pv a ys' q" by (simp add: chain_append)
    show ?thesis
    proof (cases zs)
      case Nil
      with n have nb: "nx b = a" by simp
      have "q \<notin> set (a # ys')" and "a \<notin> set (ys' @ [q])" using assms(2) snoc by auto
      with d1 have "chain (nx(q := a)) (pv(a := q)) a ys' q"
        by (simp add: chain_next_other chain_prev_other del: set_append)
      with snoc Nil pb nb show ?thesis by (simp add: chain_append)
    next
      case (Cons z zs')
      with c2 have d2: "chain nx pv z zs' a" and nb: "nx b = z" by auto
      have "q \<notin> set (a # ys')" "z \<notin> set (ys' @ [q])" "q \<notin> set (z # zs')" "z \<notin> set (zs' @ [a])"
        using assms(2) snoc Cons by auto
      with d1 d2 have "chain (nx(q := z)) (pv(z := q)) a ys' q"
        and "chain (nx(q := z)) (pv(z := q)) z zs' a"
        by (simp_all add: chain_next_other chain_prev_other del: set_append)
      with snoc Cons pb nb show ?thesis by (simp add: chain_append)
    qed
  qed
qed

lemma chain_link_front:
  assumes "chain nx pv a xs a" and "b \<notin> set (a # xs)" and "distinct (a # xs)"
  shows "chain (nx(b := nx a, a := b)) (pv(b := a, nx a := b)) a (b # xs) a"
proof (cases xs)
  case Nil
  with assms show ?thesis by auto
next
  case (Cons x xs')
  with assms(1) have c: "chain nx pv x xs' a" and nx: "nx a = x" by auto
  have "b \<notin> set (x # xs')" "a \<notin> set (x # xs')" "b \<notin> set (xs' @ [a])" "x \<notin> set (xs' @ [a])"
    using assms(2,3) Cons by auto
  with c have "chain (nx(b := x, a := b)) (pv(b := a, x := b)) x xs' a"
    by (simp add: chain_next_other chain_prev_other del: set_append)
  then show ?thesis using Cons nx assms(2) by auto
qed

text \<open>Back to the buffers.\<close>

lemma length_links [simp]:
  "length (set_next b n bs) = length bs" "length (set_prev b p bs) = length bs"
  "length (link_front b bs) = length bs" "length (unlink_buf b bs) = length bs"
  by (simp_all add: set_next_def set_prev_def link_front_def unlink_buf_def Let_def)

lemma nexts_set:
  "b < length bs \<Longrightarrow> nexts (set_next b n bs) = (nexts bs)(b := n)"
  "nexts (set_prev b p bs) = nexts bs"
  "b < length bs \<Longrightarrow> prevs (set_prev b p bs) = (prevs bs)(b := p)"
  "prevs (set_next b n bs) = prevs bs"
  by (auto simp: set_next_def set_prev_def nth_upd fun_eq_iff)

text \<open>The links are the only fields the list operations write.\<close>

definition payload :: "buf \<Rightarrow> buf" where
  "payload x = x\<lparr>b_prev := 0, b_next := 0\<rparr>"

lemma payload_links [simp]:
  "payload (set_next b n bs ! i) = payload (bs ! i)"
  "payload (set_prev b p bs ! i) = payload (bs ! i)"
  "payload (link_front b bs ! i) = payload (bs ! i)"
  "payload (unlink_buf b bs ! i) = payload (bs ! i)"
proof -
  have n: "payload (set_next b n bs ! i) = payload (bs ! i)" for b n bs
    by (cases "i = b \<and> b < length bs") (auto simp: set_next_def payload_def nth_upd)
  have p: "payload (set_prev b n bs ! i) = payload (bs ! i)" for b n bs
    by (cases "i = b \<and> b < length bs") (auto simp: set_prev_def payload_def nth_upd)
  show "payload (set_next b n bs ! i) = payload (bs ! i)"
    "payload (set_prev b p bs ! i) = payload (bs ! i)"
    "payload (link_front b bs ! i) = payload (bs ! i)"
    "payload (unlink_buf b bs ! i) = payload (bs ! i)"
    by (simp_all add: n p link_front_def unlink_buf_def Let_def)
qed

lemma payload_eq_iff:
  "payload x = payload y \<longleftrightarrow> b_valid x = b_valid y \<and> b_disk x = b_disk y \<and> b_dev x = b_dev y \<and>
     b_blockno x = b_blockno y \<and> b_lock x = b_lock y \<and> b_refcnt x = b_refcnt y \<and> b_data x = b_data y"
  by (cases x; cases y) (auto simp: payload_def)

lemmas payload_fields = payload_links [unfolded payload_eq_iff]

lemma dll_unlink:
  assumes "length bs = Suc NBUF" and "chain (nexts bs) (prevs bs) NBUF (ys @ b # zs) NBUF"
    and "distinct (NBUF # ys @ b # zs)" and "set (ys @ b # zs) \<subseteq> {0..<NBUF}"
  shows "chain (nexts (unlink_buf b bs)) (prevs (unlink_buf b bs)) NBUF (ys @ zs) NBUF"
proof -
  have c: "chain (nexts bs) (prevs bs) NBUF ys b" "chain (nexts bs) (prevs bs) b zs NBUF"
    using assms(2) by (simp_all add: chain_append)
  have "b_next (bs ! b) \<in> set (zs @ [NBUF])" and "b_prev (bs ! b) \<in> set (NBUF # ys)"
    using chain_ends [OF c(1)] chain_ends [OF c(2)] hd_in_set [of "zs @ [NBUF]"]
      last_in_set [of "NBUF # ys"] by auto
  with assms(3,4) have lt: "b_next (bs ! b) < length bs" "b_prev (bs ! b) < length bs"
    and ne: "b_next (bs ! b) \<noteq> b"
    using assms(1) by (fastforce simp: less_Suc_eq)+
  have same: "b_prev (set_prev (b_next (bs ! b)) (b_prev (bs ! b)) bs ! b) = b_prev (bs ! b)"
    "b_next (set_prev (b_next (bs ! b)) (b_prev (bs ! b)) bs ! b) = b_next (bs ! b)"
    using ne by (simp_all add: set_prev_def)
  show ?thesis
    using chain_unlink [OF assms(2,3)] lt
    by (simp add: unlink_buf_def Let_def same nexts_set)
qed

lemma dll_link_front:
  assumes "length bs = Suc NBUF" and "chain (nexts bs) (prevs bs) NBUF xs NBUF"
    and "distinct (NBUF # b # xs)" and "b < NBUF" and "set xs \<subseteq> {0..<NBUF}"
  shows "chain (nexts (link_front b bs)) (prevs (link_front b bs)) NBUF (b # xs) NBUF"
proof -
  have "b_next (bs ! NBUF) \<in> set (xs @ [NBUF])"
    using chain_ends [OF assms(2)] hd_in_set [of "xs @ [NBUF]"] by auto
  with assms have lt: "b_next (bs ! NBUF) < length bs" by (fastforce simp: less_Suc_eq)
  have same: "b_next (set_prev b NBUF (set_next b (b_next (bs ! NBUF)) bs) ! NBUF) = b_next (bs ! NBUF)"
    using assms(3) by (simp add: set_prev_def set_next_def)
  show ?thesis
    using chain_link_front [OF assms(2), of b] lt assms(1,3,4)
    by (simp add: link_front_def Let_def same nexts_set)
qed

text \<open>Releasing the last reference makes the buffer the most recently used one.\<close>

lemma dll_move_front:
  assumes "dll bs xs" and "b < NBUF"
  shows "dll (link_front b (unlink_buf b bs)) (b # remove1 b xs)"
proof -
  have "b \<in> set xs" using assms by (simp add: dll_def)
  then obtain ys zs where xs: "xs = ys @ b # zs" by (meson split_list)
  have d: "length bs = Suc NBUF" "chain (nexts bs) (prevs bs) NBUF (ys @ b # zs) NBUF"
    "distinct (NBUF # ys @ b # zs)" "set (ys @ b # zs) = {0..<NBUF}"
    using assms(1) by (auto simp: dll_def xs)
  then have c: "chain (nexts (unlink_buf b bs)) (prevs (unlink_buf b bs)) NBUF (ys @ zs) NBUF"
    by (intro dll_unlink) auto
  have sub: "set (ys @ zs) \<subseteq> {0..<NBUF}" using d(4) by auto
  have dis: "distinct (NBUF # b # ys @ zs)" using d(3) assms(2) by auto
  have "chain (nexts (link_front b (unlink_buf b bs))) (prevs (link_front b (unlink_buf b bs))) NBUF
          (b # ys @ zs) NBUF"
    by (rule dll_link_front [OF _ c dis assms(2) sub]) (simp add: d(1))
  moreover have "remove1 b xs = ys @ zs" using d(3) by (simp add: xs remove1_append)
  ultimately show ?thesis using d(1,3,4) by (auto simp: dll_def)
qed

lemma dll_cong:
  "length bs' = length bs \<Longrightarrow> nexts bs' = nexts bs \<Longrightarrow> prevs bs' = prevs bs \<Longrightarrow> dll bs' xs = dll bs xs"
  by (simp add: dll_def)

text \<open>\<^verbatim>\<open>binit\<close> builds the list, with the last buffer at its front.\<close>

lemma dll_binit_fold:
  assumes "length bs = Suc NBUF" and "k \<le> NBUF"
  defines "f \<equiv> \<lambda>b bs. link_front b (bs[b := (bs ! b)\<lparr>b_lock := initsleeplock (b_lock (bs ! b))\<rparr>])"
  defines "r \<equiv> \<lambda>k. fold f [0..<k] (set_next NBUF NBUF (set_prev NBUF NBUF bs))"
  shows "length (r k) = Suc NBUF \<and> chain (nexts (r k)) (prevs (r k)) NBUF (rev [0..<k]) NBUF"
  using assms(2)
proof (induction k)
  case 0
  then show ?case using assms(1) by (simp add: r_def nexts_set)
next
  case (Suc k)
  let ?b = "(r k)[k := (r k ! k)\<lparr>b_lock := initsleeplock (b_lock (r k ! k))\<rparr>]"
  have r: "r (Suc k) = link_front k ?b" by (simp add: r_def f_def)
  have IH: "length (r k) = Suc NBUF" "chain (nexts (r k)) (prevs (r k)) NBUF (rev [0..<k]) NBUF"
    using Suc by auto
  have links: "nexts ?b = nexts (r k)" "prevs ?b = prevs (r k)"
    by (auto simp: fun_eq_iff nth_upd)
  have "chain (nexts (link_front k ?b)) (prevs (link_front k ?b)) NBUF (k # rev [0..<k]) NBUF"
    by (rule dll_link_front) (use IH Suc.prems in \<open>auto simp: links\<close>)
  then show ?case using IH r by simp
qed

lemma dll_binit:
  "length (bufs s) = Suc NBUF \<Longrightarrow> dll (bufs (binit s)) (rev [0..<NBUF])"
  using dll_binit_fold [of "bufs s" NBUF] by (auto simp: dll_def binit_def Let_def)

section \<open>The cache invariant\<close>

text \<open>
  \<open>P\<close> is the set of blocks the log has pinned. A buffer counts one reference for the pin
  and one for the process that holds its lock, and an idle valid buffer outside \<open>P\<close> agrees
  with the disk.
\<close>

definition is_locked :: "buf \<Rightarrow> bool" where
  "is_locked x \<longleftrightarrow> sl_locked (b_lock x) \<noteq> 0"

definition buf_ok :: "uint set \<Rightarrow> (uint \<Rightarrow> uchar list) \<Rightarrow> buf \<Rightarrow> bool" where
  "buf_ok P d x \<longleftrightarrow> length (b_data x) = BSIZE \<and>
     unat (b_refcnt x) = of_bool (b_dev x = ROOTDEV \<and> b_blockno x \<in> P) + of_bool (is_locked x) \<and>
     (b_dev x = ROOTDEV \<longrightarrow> b_valid x \<noteq> 0 \<longrightarrow> \<not> is_locked x \<longrightarrow> b_blockno x \<notin> P \<longrightarrow>
        b_data x = d (b_blockno x))"

definition caches :: "'a bio_st_scheme \<Rightarrow> nat \<Rightarrow> uint \<Rightarrow> bool" where
  "caches s i n \<longleftrightarrow> i < NBUF \<and> b_dev (buf_of s i) = ROOTDEV \<and> b_blockno (buf_of s i) = n"

definition bio_ok :: "uint set \<Rightarrow> 'a bio_st_scheme \<Rightarrow> bool" where
  "bio_ok P s \<longleftrightarrow> sched_ok s \<and> (\<exists>xs. dll (bufs s) xs) \<and> (\<forall>n. length (disk s n) = BSIZE) \<and>
     (\<forall>i < NBUF. buf_ok P (disk s) (buf_of s i)) \<and>
     (\<forall>i j n. caches s i n \<longrightarrow> caches s j n \<longrightarrow> i = j) \<and>
     (\<forall>n \<in> P. \<exists>i. caches s i n \<and> b_valid (buf_of s i) \<noteq> 0)"

definition held :: "'a bio_st_scheme \<Rightarrow> nat set" where
  "held s = {i. i < NBUF \<and> is_locked (buf_of s i)}"

text \<open>The buffer \<open>b\<close> is held by the running process and has been read.\<close>

definition owns :: "'a bio_st_scheme \<Rightarrow> nat \<Rightarrow> uint \<Rightarrow> bool" where
  "owns s b n \<longleftrightarrow> caches s b n \<and> b_valid (buf_of s b) \<noteq> 0 \<and> holdingsleep (b_lock (buf_of s b)) s"

text \<open>What a reader of block \<open>n\<close> sees: the cached copy if there is one, else the disk.\<close>

definition view :: "'a bio_st_scheme \<Rightarrow> uint \<Rightarrow> uchar list" where
  "view s n = (case scan (\<lambda>x. b_dev x = ROOTDEV \<and> b_blockno x = n \<and> b_valid x \<noteq> 0)
                  (take NBUF (bufs s)) of
       Some i \<Rightarrow> b_data (buf_of s i)
     | None \<Rightarrow> disk s n)"

text \<open>
  The part of the state the cache may change: processes are at most woken, and only the
  buffers and the disk are written.
\<close>

definition stateless :: "proc list \<Rightarrow> proc list" where
  "stateless ps = map (p_state_update (\<lambda>_. UNUSED)) ps"

definition bframe :: "'a bio_st_scheme \<Rightarrow> 'a bio_st_scheme \<Rightarrow> bool" where
  "bframe s s' \<longleftrightarrow> (\<exists>ps bs d w. s' = s\<lparr>procs := ps, bufs := bs, disk := d, dwrites := w\<rparr> \<and>
     stateless ps = stateless (procs s))"

lemma bframe_refl [simp]: "bframe s s"
  unfolding bframe_def by (rule exI [of _ "procs s"], rule exI [of _ "bufs s"],
    rule exI [of _ "disk s"], rule exI [of _ "dwrites s"]) simp

lemma bframeI:
  "s' = s\<lparr>procs := ps, bufs := bs, disk := d, dwrites := w\<rparr> \<Longrightarrow> stateless ps = stateless (procs s) \<Longrightarrow>
   bframe s s'"
  unfolding bframe_def by blast

lemma bframeE:
  assumes "bframe s s'"
  obtains ps bs d w where "s' = s\<lparr>procs := ps, bufs := bs, disk := d, dwrites := w\<rparr>"
    and "stateless ps = stateless (procs s)"
  using assms unfolding bframe_def by blast

lemma bframe_trans [trans]:
  assumes "bframe s s'" and "bframe s' s''"
  shows "bframe s s''"
  using assms(1)
proof (rule bframeE)
  fix ps bs d w
  assume a: "s' = s\<lparr>procs := ps, bufs := bs, disk := d, dwrites := w\<rparr>" "stateless ps = stateless (procs s)"
  show ?thesis
    using assms(2)
  proof (rule bframeE)
    fix ps' bs' d' w'
    assume "s'' = s'\<lparr>procs := ps', bufs := bs', disk := d', dwrites := w'\<rparr>"
      and "stateless ps' = stateless (procs s')"
    with a show ?thesis by (intro bframeI [where ps = ps' and bs = bs' and d = d' and w = w']) auto
  qed
qed

lemma bframe_bufs [simp]: "bframe s (upd_buf b f s)" "bframe s (s\<lparr>bufs := bs\<rparr>)"
  unfolding bframe_def upd_buf_def
  by (rule exI [of _ "procs s"], rule exI, rule exI [of _ "disk s"], rule exI [of _ "dwrites s"], simp)+

lemma stateless_nth: "stateless ps = stateless qs \<Longrightarrow>
    length ps = length qs \<and> (\<forall>i < length ps. (ps ! i)\<lparr>p_state := UNUSED\<rparr> = (qs ! i)\<lparr>p_state := UNUSED\<rparr>)"
  unfolding stateless_def by (metis length_map nth_map)

lemma stateless_pid:
  "stateless ps = stateless qs \<Longrightarrow> i < length ps \<Longrightarrow> p_pid (ps ! i) = p_pid (qs ! i)"
  by (drule stateless_nth) (metis proc.select_convs(5) proc.update_convs(1) proc.surjective)

lemma stateless_wakeup [simp]: "stateless (procs (wakeup ch s)) = stateless (procs s)"
  by (rule nth_equalityI) (auto simp: stateless_def nth_wakeup wake_proc_def)

lemma bframe_wakeup [simp]: "bframe s (wakeup ch s)"
proof -
  have "wakeup ch s = s\<lparr>procs := procs (wakeup ch s), bufs := bufs s, disk := disk s, dwrites := dwrites s\<rparr>"
    by (simp add: wakeup_def)
  then show ?thesis unfolding bframe_def using stateless_wakeup by blast
qed

lemma bframe_simps:
  assumes "bframe s s'"
  shows "cur s' = cur s" "sched_ok s' = sched_ok s" "sched_ok s \<Longrightarrow> mypid s' = mypid s"
    "length (procs s') = length (procs s)" "mem s' = mem s" "freelist s' = freelist s"
    "nextpid s' = nextpid s" "ticks s' = ticks s"
proof -
  from assms obtain ps bs d w where s': "s' = s\<lparr>procs := ps, bufs := bs, disk := d, dwrites := w\<rparr>"
    and ps: "stateless ps = stateless (procs s)" by (auto simp: bframe_def)
  then show "cur s' = cur s" "sched_ok s' = sched_ok s" "length (procs s') = length (procs s)"
    "mem s' = mem s" "freelist s' = freelist s" "nextpid s' = nextpid s" "ticks s' = ticks s"
    using stateless_nth [OF ps] by (auto simp: sched_ok_def)
  show "mypid s' = mypid s" if "sched_ok s"
    using that stateless_pid [OF ps] stateless_nth [OF ps] s'
    by (auto simp: mypid_def sched_ok_def split: option.splits)
qed

lemma bio_okD:
  assumes "bio_ok P s"
  shows "sched_ok s" "length (bufs s) = Suc NBUF" "length (disk s n) = BSIZE"
    "i < NBUF \<Longrightarrow> buf_ok P (disk s) (buf_of s i)"
    "caches s i n \<Longrightarrow> caches s j n \<Longrightarrow> i = j"
    "n \<in> P \<Longrightarrow> \<exists>i. caches s i n \<and> b_valid (buf_of s i) \<noteq> 0"
  using assms unfolding bio_ok_def by (auto simp: dll_def)

lemma buf_of_upd_buf:
  "b < length (bufs s) \<Longrightarrow> buf_of (upd_buf b f s) i = (if i = b then f (buf_of s b) else buf_of s i)"
  by (simp add: upd_buf_def)

lemma upd_buf_upd_buf:
  "b < length (bufs s) \<Longrightarrow> upd_buf b f (upd_buf b g s) = upd_buf b (f \<circ> g) s"
  by (simp add: upd_buf_def)

lemma upd_buf_simps [simp]:
  "length (bufs (upd_buf b f s)) = length (bufs s)" "disk (upd_buf b f s) = disk s"
  "dwrites (upd_buf b f s) = dwrites s" "procs (upd_buf b f s) = procs s"
  "cur (upd_buf b f s) = cur s" "mypid (upd_buf b f s) = mypid s" "sched_ok (upd_buf b f s) = sched_ok s"
  by (simp_all add: upd_buf_def mypid_def sched_ok_def split: option.splits)

section \<open>What a reader sees\<close>

lemma view_cong: "bufs s = bufs s' \<Longrightarrow> disk s = disk s' \<Longrightarrow> view s = view s'"
  by (rule ext) (simp add: view_def split: option.splits)

lemma view_cached:
  assumes "bio_ok P s" and "caches s i n" and "b_valid (buf_of s i) \<noteq> 0"
  shows "view s n = b_data (buf_of s i)"
proof -
  let ?Q = "\<lambda>x. b_dev x = ROOTDEV \<and> b_blockno x = n \<and> b_valid x \<noteq> 0"
  have len: "length (bufs s) = Suc NBUF" using assms(1) by (rule bio_okD)
  have i: "i < NBUF" "?Q (buf_of s i)" using assms(2,3) by (auto simp: caches_def)
  with len have "scan ?Q (take NBUF (bufs s)) \<noteq> None" by (auto simp: scan_None)
  then obtain j where j: "scan ?Q (take NBUF (bufs s)) = Some j" by auto
  then have "caches s j n" using len scan_SomeD [OF j] by (simp add: caches_def)
  with assms have "j = i" using bio_okD(5) by metis
  with j show ?thesis by (simp add: view_def)
qed

lemma view_uncached:
  assumes "length (bufs s) = Suc NBUF" and "\<And>i. caches s i n \<Longrightarrow> b_valid (buf_of s i) = 0"
  shows "view s n = disk s n"
proof -
  have "scan (\<lambda>x. b_dev x = ROOTDEV \<and> b_blockno x = n \<and> b_valid x \<noteq> 0) (take NBUF (bufs s)) = None"
    using assms by (auto simp: scan_None caches_def)
  then show ?thesis by (simp add: view_def)
qed

text \<open>Outside the pinned and the held blocks, a reader sees the disk.\<close>

lemma view_clean:
  assumes ok: "bio_ok P s" and "n \<notin> P" and "\<And>i. i \<in> held s \<Longrightarrow> \<not> caches s i n"
  shows "view s n = disk s n"
proof (cases "\<exists>i. caches s i n \<and> b_valid (buf_of s i) \<noteq> 0")
  case True
  then obtain i where i: "caches s i n" "b_valid (buf_of s i) \<noteq> 0" by blast
  then have "view s n = b_data (buf_of s i)" using ok by (rule_tac view_cached)
  moreover have "\<not> is_locked (buf_of s i)" using assms(3) i by (auto simp: held_def caches_def)
  ultimately show ?thesis
    using i assms(2) bio_okD(4) [OF ok, of i] by (auto simp: buf_ok_def caches_def)
next
  case False
  then show ?thesis using bio_okD(2) [OF ok] by (intro view_uncached) auto
qed

section \<open>Every operation keeps the invariant\<close>

lemma bio_ok_change:
  assumes ok: "bio_ok P s" and b: "b < NBUF"
    and bufs': "bufs s' = (bufs s)[b := x]" "b_next x = b_next (buf_of s b)" "b_prev x = b_prev (buf_of s b)"
    and sched: "sched_ok s'"
    and disk': "\<And>n. length (disk s' n) = BSIZE"
    and x: "buf_ok P' (disk s') x"
    and others: "\<And>j. j < NBUF \<Longrightarrow> j \<noteq> b \<Longrightarrow> buf_ok P' (disk s') (buf_of s j)"
    and key: "\<And>j. j \<noteq> b \<Longrightarrow> b_dev x = ROOTDEV \<Longrightarrow> \<not> caches s j (b_blockno x)"
    and pins: "\<And>n. n \<in> P' \<Longrightarrow> n \<in> P \<and> \<not> caches s b n \<or> b_dev x = ROOTDEV \<and> b_blockno x = n \<and> b_valid x \<noteq> 0"
  shows "bio_ok P' s'"
proof -
  note len = bio_okD(2) [OF ok]
  have at: "buf_of s' i = (if i = b then x else buf_of s i)" for i
    using bufs'(1) b len by (auto simp: nth_upd)
  have links: "nexts (bufs s') = nexts (bufs s)" "prevs (bufs s') = prevs (bufs s)"
    using bufs' at by auto
  obtain xs where "dll (bufs s) xs" using ok by (auto simp: bio_ok_def)
  then have "dll (bufs s') xs" using dll_cong [OF _ links] bufs'(1) by simp
  moreover have "\<forall>i < NBUF. buf_ok P' (disk s') (buf_of s' i)" using at x others by auto
  moreover have ca: "caches s' i n = (if i = b then b_dev x = ROOTDEV \<and> b_blockno x = n else caches s i n)" for i n
    using at b by (auto simp: caches_def)
  have "\<forall>i j n. caches s' i n \<longrightarrow> caches s' j n \<longrightarrow> i = j"
    using key bio_okD(5) [OF ok] unfolding ca by (auto split: if_splits)
  moreover have "\<forall>n \<in> P'. \<exists>i. caches s' i n \<and> b_valid (buf_of s' i) \<noteq> 0"
  proof
    fix n assume "n \<in> P'"
    then consider "n \<in> P" "\<not> caches s b n" | "b_dev x = ROOTDEV" "b_blockno x = n" "b_valid x \<noteq> 0"
      using pins by blast
    then show "\<exists>i. caches s' i n \<and> b_valid (buf_of s' i) \<noteq> 0"
    proof cases
      case 1
      then obtain i where "caches s i n" "b_valid (buf_of s i) \<noteq> 0" using bio_okD(6) [OF ok] by blast
      with 1 have "caches s' i n \<and> b_valid (buf_of s' i) \<noteq> 0" by (auto simp: ca at)
      then show ?thesis by blast
    next
      case 2
      then show ?thesis by (intro exI [of _ b]) (simp add: ca at)
    qed
  qed
  ultimately show ?thesis using sched disk' unfolding bio_ok_def by blast
qed

lemma buf_ok_other:
  "buf_ok P d x \<Longrightarrow> (b_dev x = ROOTDEV \<Longrightarrow> b_blockno x \<noteq> n) \<Longrightarrow>
   buf_ok (insert n P) d x \<and> buf_ok (P - {n}) d x \<and> buf_ok P (d(n := v)) x"
  by (auto simp: buf_ok_def)

lemma finite_held [simp]: "finite (held s)"
  by (simp add: held_def)

text \<open>A free buffer is left while pins and holders number less than \<open>NBUF\<close>.\<close>

lemma free_buffer:
  assumes ok: "bio_ok P s" and "finite P" and "card P + card (held s) < NBUF"
  shows "\<exists>i < NBUF. b_refcnt (buf_of s i) = 0"
proof (rule ccontr)
  assume none: "\<not> ?thesis"
  let ?pinned = "{i. i < NBUF \<and> b_dev (buf_of s i) = ROOTDEV \<and> b_blockno (buf_of s i) \<in> P}"
  have "inj_on (\<lambda>i. b_blockno (buf_of s i)) ?pinned"
    using bio_okD(5) [OF ok] by (auto simp: inj_on_def caches_def)
  moreover have "(\<lambda>i. b_blockno (buf_of s i)) ` ?pinned \<subseteq> P" by auto
  ultimately have "card ?pinned \<le> card P" using assms(2) by (rule card_inj_on_le)
  moreover have "{0..<NBUF} \<subseteq> ?pinned \<union> held s"
  proof
    fix i assume "i \<in> {0..<NBUF}"
    then have i: "i < NBUF" by simp
    with none have "unat (b_refcnt (buf_of s i)) \<noteq> 0" by (metis unat_eq_zero)
    then show "i \<in> ?pinned \<union> held s"
      using bio_okD(4) [OF ok i] i by (auto simp: buf_ok_def held_def)
  qed
  then have "NBUF \<le> card (?pinned \<union> held s)"
    using card_mono [of "?pinned \<union> held s" "{0..<NBUF}"] by simp
  ultimately show False using card_Un_le [of ?pinned "held s"] assms(3) by linarith
qed

lemma lock_buf_ok:
  assumes "sched_ok s" and "\<not> is_locked (buf_of s b)"
  shows "lock_buf b s = Ret b (upd_buf b (\<lambda>x. x\<lparr>b_lock := (b_lock x)\<lparr>sl_locked := 1, sl_pid := mypid s\<rparr>\<rparr>) s)"
  using assms by (auto simp: lock_buf_def acquiresleep_def is_locked_def mypid_def sched_ok_def upd_buf_def
      split: option.splits)

text \<open>The result of \<^verbatim>\<open>bread\<close>: at most one buffer \<open>b\<close> has changed.\<close>

definition bread_post :: "'a bio_st_scheme \<Rightarrow> uint \<Rightarrow> nat \<Rightarrow> 'a bio_st_scheme \<Rightarrow> bool" where
  "bread_post s n b s' \<longleftrightarrow> owns s' b n \<and> b_data (buf_of s' b) = view s n \<and> view s' = view s \<and>
     b \<notin> held s \<and> held s' = insert b (held s) \<and> (\<forall>j. j \<noteq> b \<longrightarrow> buf_of s' j = buf_of s j) \<and>
     disk s' = disk s \<and> dwrites s' = dwrites s \<and> procs s' = procs s \<and> bframe s s'"

lemma view_upd_buf:
  assumes ok: "bio_ok P s" and ok': "bio_ok P' (upd_buf b f s)" and b: "b < NBUF"
    and key: "b_dev (f (buf_of s b)) = ROOTDEV" "b_blockno (f (buf_of s b)) = n" "b_valid (f (buf_of s b)) \<noteq> 0"
    and was: "\<And>m. caches s b m \<Longrightarrow> b_valid (buf_of s b) \<noteq> 0 \<Longrightarrow> m \<noteq> n \<Longrightarrow> b_data (buf_of s b) = disk s m"
  shows "view (upd_buf b f s) = (view s)(n := b_data (f (buf_of s b)))"
proof
  fix m
  let ?s = "upd_buf b f s"
  have len: "b < length (bufs s)" using b bio_okD(2) [OF ok] by simp
  note at = buf_of_upd_buf [OF len, of f]
  have ca: "caches ?s i m = (if i = b then n = m else caches s i m)" for i m
    using at b key by (auto simp: caches_def)
  show "view ?s m = ((view s)(n := b_data (f (buf_of s b)))) m"
  proof (cases "m = n")
    case True
    have "view ?s n = b_data (buf_of ?s b)"
      using ok' by (rule view_cached) (simp_all add: ca at key)
    then show ?thesis using True by (simp add: at)
  next
    case False
    show ?thesis
    proof (cases "\<exists>i. i \<noteq> b \<and> caches s i m \<and> b_valid (buf_of s i) \<noteq> 0")
      case True
      then obtain i where i: "i \<noteq> b" "caches s i m" "b_valid (buf_of s i) \<noteq> 0" by blast
      then have "view ?s m = b_data (buf_of ?s i)" using ok' by (rule_tac view_cached) (simp_all add: ca at)
      moreover have "view s m = b_data (buf_of s i)" using ok i by (rule_tac view_cached)
      ultimately show ?thesis using i False by (simp add: at)
    next
      case none: False
      have "view ?s m = disk s m"
        using none False bio_okD(2) [OF ok] by (subst view_uncached) (auto simp: ca at split: if_splits)
      moreover have "view s m = disk s m"
      proof (cases "caches s b m \<and> b_valid (buf_of s b) \<noteq> 0")
        case True
        then show ?thesis using was [of m] False view_cached [OF ok, of b m] by auto
      next
        case none': False
        show ?thesis using none none' bio_okD(2) [OF ok] by (intro view_uncached) auto
      qed
      ultimately show ?thesis using False by simp
    qed
  qed
qed

lemma find_in_dll:
  assumes "dll bs xs"
  shows "find (\<lambda>i. P (bs ! i)) xs = Some b \<Longrightarrow> b < NBUF \<and> P (bs ! b)"
    and "find (\<lambda>i. P (bs ! i)) (rev xs) = Some b \<Longrightarrow> b < NBUF \<and> P (bs ! b)"
    and "find (\<lambda>i. P (bs ! i)) xs = None \<longleftrightarrow> (\<forall>i < NBUF. \<not> P (bs ! i))"
    and "find (\<lambda>i. P (bs ! i)) (rev xs) = None \<longleftrightarrow> (\<forall>i < NBUF. \<not> P (bs ! i))"
proof -
  have set: "set xs = {0..<NBUF}" using assms by (simp add: dll_def)
  have mem: "i < length xs \<Longrightarrow> xs ! i < NBUF" "i < length xs \<Longrightarrow> rev xs ! i < NBUF" for i
    using set nth_mem [of i xs] nth_mem [of i "rev xs"] by auto
  show "find (\<lambda>i. P (bs ! i)) xs = Some b \<Longrightarrow> b < NBUF \<and> P (bs ! b)"
    "find (\<lambda>i. P (bs ! i)) (rev xs) = Some b \<Longrightarrow> b < NBUF \<and> P (bs ! b)"
    using mem by (auto simp: find_Some_iff)
  show "find (\<lambda>i. P (bs ! i)) xs = None \<longleftrightarrow> (\<forall>i < NBUF. \<not> P (bs ! i))"
    "find (\<lambda>i. P (bs ! i)) (rev xs) = None \<longleftrightarrow> (\<forall>i < NBUF. \<not> P (bs ! i))"
    using set by (auto simp: find_None_iff)
qed

text \<open>The two ways through \<^verbatim>\<open>bget\<close>.\<close>

lemma bget_hit:
  assumes ok: "bio_ok P s" and c: "caches s b n" and free: "\<not> is_locked (buf_of s b)"
  shows "bget ROOTDEV n s = Ret b (upd_buf b (\<lambda>x. x\<lparr>b_refcnt := b_refcnt x + 1,
     b_lock := (b_lock x)\<lparr>sl_locked := 1, sl_pid := mypid s\<rparr>\<rparr>) s)"
proof -
  let ?Q = "\<lambda>x. b_dev x = ROOTDEV \<and> b_blockno x = n"
  obtain xs where d: "dll (bufs s) xs" using ok by (auto simp: bio_ok_def)
  have "find (\<lambda>i. ?Q (buf_of s i)) xs \<noteq> None"
    using c find_in_dll(3) [OF d, of ?Q] by (auto simp: caches_def)
  then obtain j where j: "find (\<lambda>i. ?Q (buf_of s i)) xs = Some j" by auto
  then have "caches s j n" using find_in_dll(1) [OF d j] by (simp add: caches_def)
  then have "j = b" using c ok bio_okD(5) by metis
  moreover have "b < length (bufs s)" using c bio_okD(2) [OF ok] by (simp add: caches_def)
  ultimately show ?thesis
    using j free bio_okD(1) [OF ok]
    by (simp add: bget_def dll_walk_next [OF d] lock_buf_ok buf_of_upd_buf is_locked_def
        upd_buf_upd_buf comp_def del: walk_list.simps)
qed

lemma bget_miss:
  assumes ok: "bio_ok P s" and none: "\<And>i. \<not> caches s i n" and free: "\<exists>i < NBUF. b_refcnt (buf_of s i) = 0"
  shows "\<exists>b < NBUF. b_refcnt (buf_of s b) = 0 \<and> bget ROOTDEV n s = Ret b (upd_buf b (\<lambda>x.
     x\<lparr>b_dev := ROOTDEV, b_blockno := n, b_valid := 0, b_refcnt := 1,
       b_lock := (b_lock x)\<lparr>sl_locked := 1, sl_pid := mypid s\<rparr>\<rparr>) s)"
proof -
  obtain xs where d: "dll (bufs s) xs" using ok by (auto simp: bio_ok_def)
  have miss: "find (\<lambda>i. b_dev (buf_of s i) = ROOTDEV \<and> b_blockno (buf_of s i) = n) xs = None"
    using none find_in_dll(3) [OF d, of "\<lambda>x. b_dev x = ROOTDEV \<and> b_blockno x = n"] by (auto simp: caches_def)
  obtain b where b: "find (\<lambda>i. b_refcnt (buf_of s i) = 0) (rev xs) = Some b"
    using free find_in_dll(4) [OF d, of "\<lambda>x. b_refcnt x = 0"] by fastforce
  have lt: "b < NBUF" "b_refcnt (buf_of s b) = 0" using find_in_dll(2) [OF d b] by auto
  have "\<not> is_locked (buf_of s b)" using bio_okD(4) [OF ok lt(1)] lt(2) by (auto simp: buf_ok_def split: if_splits)
  then have "bget ROOTDEV n s = Ret b (upd_buf b (\<lambda>x. x\<lparr>b_dev := ROOTDEV, b_blockno := n, b_valid := 0,
      b_refcnt := 1, b_lock := (b_lock x)\<lparr>sl_locked := 1, sl_pid := mypid s\<rparr>\<rparr>) s)"
    using lt(1) bio_okD(1,2) [OF ok]
    by (simp add: bget_def dll_walk_next [OF d] dll_walk_prev [OF d] miss b lock_buf_ok buf_of_upd_buf
        is_locked_def upd_buf_upd_buf comp_def del: walk_list.simps)
  with lt show ?thesis by blast
qed

text \<open>The buffer that \<^verbatim>\<open>bread\<close> leaves behind, whichever way it came.\<close>

definition fetched :: "'a bio_st_scheme \<Rightarrow> uint \<Rightarrow> buf \<Rightarrow> buf \<Rightarrow> bool" where
  "fetched s n x y \<longleftrightarrow> b_dev y = ROOTDEV \<and> b_blockno y = n \<and> b_valid y \<noteq> 0 \<and> b_data y = view s n \<and>
     length (b_data y) = BSIZE \<and> sl_locked (b_lock y) = 1 \<and> sl_pid (b_lock y) = mypid s \<and>
     b_next y = b_next x \<and> b_prev y = b_prev x"

lemma bread_fetches:
  assumes ok: "bio_ok P s" and "finite P" and unlocked: "\<And>i. caches s i n \<Longrightarrow> \<not> is_locked (buf_of s i)"
    and room: "(\<exists>i. caches s i n) \<or> card P + card (held s) < NBUF"
  shows "\<exists>b y. b < NBUF \<and> bread ROOTDEV n s = Ret b (upd_buf b (\<lambda>_. y) s) \<and> fetched s n (buf_of s b) y \<and>
     unat (b_refcnt y) = of_bool (n \<in> P) + 1 \<and> \<not> is_locked (buf_of s b) \<and>
     (caches s b n \<or> (\<forall>i. \<not> caches s i n) \<and> b_refcnt (buf_of s b) = 0)"
proof (cases "\<exists>i. caches s i n")
  case True
  then obtain b where c: "caches s b n" by blast
  then have b: "b < NBUF" "b_dev (buf_of s b) = ROOTDEV" "b_blockno (buf_of s b) = n"
    by (simp_all add: caches_def)
  let ?x = "(buf_of s b)\<lparr>b_refcnt := b_refcnt (buf_of s b) + 1,
      b_lock := (b_lock (buf_of s b))\<lparr>sl_locked := 1, sl_pid := mypid s\<rparr>\<rparr>"
  let ?y = "if b_valid (buf_of s b) = 0 then ?x\<lparr>b_data := disk s n, b_valid := 1\<rparr> else ?x"
  have bok: "buf_ok P (disk s) (buf_of s b)" using b(1) bio_okD(4) [OF ok] by simp
  have "bread ROOTDEV n s = Ret b (upd_buf b (\<lambda>_. ?y) s)"
    using b bget_hit [OF ok c unlocked [OF c]] bio_okD(2) [OF ok]
    by (simp add: bread_def buf_of_upd_buf disk_rw_def set_data_def upd_buf_upd_buf comp_def upd_buf_def)
  moreover have "fetched s n (buf_of s b) ?y"
  proof (cases "b_valid (buf_of s b) = 0")
    case True
    have "view s n = disk s n" using c True bio_okD(2,5) [OF ok] by (metis view_uncached)
    then show ?thesis using True b bio_okD(3) [OF ok] by (simp add: fetched_def)
  next
    case False
    then show ?thesis using b bok view_cached [OF ok c] by (simp add: fetched_def buf_ok_def)
  qed
  moreover have "unat (b_refcnt (buf_of s b)) = of_bool (n \<in> P)"
    using bok b unlocked [OF c] by (simp add: buf_ok_def)
  then have "unat (b_refcnt ?y) = of_bool (n \<in> P) + 1"
    by (simp add: unat_word_ariths split: if_splits)
  ultimately show ?thesis using b c unlocked [OF c] by blast
next
  case False
  then have "\<exists>i < NBUF. b_refcnt (buf_of s i) = 0" using free_buffer [OF ok assms(2)] room by blast
  then obtain b where b: "b < NBUF" "b_refcnt (buf_of s b) = 0"
    and g: "bget ROOTDEV n s = Ret b (upd_buf b (\<lambda>x. x\<lparr>b_dev := ROOTDEV, b_blockno := n, b_valid := 0,
      b_refcnt := 1, b_lock := (b_lock x)\<lparr>sl_locked := 1, sl_pid := mypid s\<rparr>\<rparr>) s)"
    using bget_miss [OF ok] False by blast
  let ?y = "(buf_of s b)\<lparr>b_dev := ROOTDEV, b_blockno := n, b_refcnt := 1,
      b_lock := (b_lock (buf_of s b))\<lparr>sl_locked := 1, sl_pid := mypid s\<rparr>, b_data := disk s n, b_valid := 1\<rparr>"
  have "bread ROOTDEV n s = Ret b (upd_buf b (\<lambda>_. ?y) s)"
    using b bio_okD(2) [OF ok]
    by (simp add: bread_def g buf_of_upd_buf disk_rw_def set_data_def upd_buf_upd_buf comp_def upd_buf_def)
  moreover have "view s n = disk s n" using False bio_okD(2) [OF ok] by (intro view_uncached) auto
  then have "fetched s n (buf_of s b) ?y" using bio_okD(3) [OF ok] by (simp add: fetched_def)
  moreover have "n \<notin> P" using False bio_okD(6) [OF ok] by blast
  moreover have "\<not> is_locked (buf_of s b)"
    using bio_okD(4) [OF ok b(1)] b(2) by (auto simp: buf_ok_def split: if_splits)
  ultimately show ?thesis using b False by (intro exI [of _ b] exI [of _ ?y]) auto
qed

lemma ownsD:
  assumes "owns s b n"
  shows "b < NBUF" "caches s b n" "b_dev (buf_of s b) = ROOTDEV" "b_blockno (buf_of s b) = n"
    "b_valid (buf_of s b) \<noteq> 0" "holdingsleep (b_lock (buf_of s b)) s" "is_locked (buf_of s b)" "b \<in> held s"
  using assms by (auto simp: owns_def caches_def holdingsleep_def is_locked_def held_def)

lemma owns_view: "bio_ok P s \<Longrightarrow> owns s b n \<Longrightarrow> view s n = b_data (buf_of s b)"
  by (rule view_cached) (auto dest: ownsD)

lemma owns_length: "bio_ok P s \<Longrightarrow> owns s b n \<Longrightarrow> length (b_data (buf_of s b)) = BSIZE"
  using bio_okD(4) [of P s b] ownsD(1) [of s b n] by (auto simp: buf_ok_def)

lemma bread_ok:
  assumes ok: "bio_ok P s" and fin: "finite P"
    and unlocked: "\<And>i. caches s i n \<Longrightarrow> \<not> is_locked (buf_of s i)"
    and room: "(\<exists>i. caches s i n) \<or> card P + card (held s) < NBUF"
  shows "okK (bread ROOTDEV n s) (\<lambda>b s'. bio_ok P s' \<and> bread_post s n b s')"
proof -
  obtain b y where b: "b < NBUF" and r: "bread ROOTDEV n s = Ret b (upd_buf b (\<lambda>_. y) s)"
    and y: "fetched s n (buf_of s b) y" "unat (b_refcnt y) = of_bool (n \<in> P) + 1"
    and nl: "\<not> is_locked (buf_of s b)"
    and how: "caches s b n \<or> (\<forall>i. \<not> caches s i n) \<and> b_refcnt (buf_of s b) = 0"
    using bread_fetches [OF ok fin unlocked room] by blast
  let ?s = "upd_buf b (\<lambda>_. y) s"
  have len: "b < length (bufs s)" using b bio_okD(2) [OF ok] by simp
  have yl: "is_locked y" using y(1) by (simp add: fetched_def is_locked_def)
  have dat: "b_data (buf_of s b) = disk s m" if "caches s b m" "b_valid (buf_of s b) \<noteq> 0" "m \<noteq> n" for m
  proof -
    have "m \<notin> P" using how that(1,3) nl bio_okD(4) [OF ok b] by (auto simp: caches_def buf_ok_def split: if_splits)
    then show ?thesis using that nl bio_okD(4) [OF ok b] by (auto simp: buf_ok_def caches_def)
  qed
  have okb: "bio_ok P ?s"
  proof (rule bio_ok_change [OF ok b])
    show "bufs ?s = (bufs s)[b := y]" by (simp add: upd_buf_def)
    show "buf_ok P (disk ?s) y" using y yl by (auto simp: buf_ok_def fetched_def)
    show "buf_ok P (disk ?s) (buf_of s j)" if "j < NBUF" for j using bio_okD(4) [OF ok that] by simp
    show "\<not> caches s j (b_blockno y)" if "j \<noteq> b" for j
      using how that y(1) bio_okD(5) [OF ok, of j n b] by (auto simp: fetched_def)
    show "m \<in> P \<and> \<not> caches s b m \<or> b_dev y = ROOTDEV \<and> b_blockno y = m \<and> b_valid y \<noteq> 0" if "m \<in> P" for m
      using that how y(1) nl bio_okD(4) [OF ok b] by (auto simp: fetched_def caches_def buf_ok_def split: if_splits)
  qed (use y(1) bio_okD [OF ok] in \<open>auto simp: fetched_def\<close>)
  have v: "view ?s = view s"
    using view_upd_buf [OF ok okb b, where n = n] y(1) dat by (auto simp: fetched_def)
  have "bread_post s n b ?s"
    using b len y(1) nl yl v unfolding bread_post_def owns_def caches_def
    by (auto simp: buf_of_upd_buf fetched_def holdingsleep_def held_def)
  with okb r show ?thesis by simp
qed

lemma set_data_ok:
  assumes ok: "bio_ok P s" and o: "owns s b n" and "length d = BSIZE"
  shows "bio_ok P (set_data b d s)" "view (set_data b d s) = (view s)(n := d)"
proof -
  note b = ownsD [OF o]
  show okb: "bio_ok P (set_data b d s)"
  proof (rule bio_ok_change [OF ok b(1)])
    show "bufs (set_data b d s) = (bufs s)[b := (buf_of s b)\<lparr>b_data := d\<rparr>]"
      by (simp add: set_data_def upd_buf_def)
    show "buf_ok P (disk (set_data b d s)) ((buf_of s b)\<lparr>b_data := d\<rparr>)"
      using bio_okD(4) [OF ok b(1)] b assms(3) by (auto simp: buf_ok_def is_locked_def)
  qed (use b bio_okD [OF ok] in \<open>auto simp: set_data_def caches_def\<close>)
  show "view (set_data b d s) = (view s)(n := d)"
    using view_upd_buf [OF ok okb [unfolded set_data_def] b(1), of n] b
    by (auto simp: set_data_def caches_def)
qed

lemma set_data_simps:
  assumes "b < length (bufs s)"
  shows "buf_of (set_data b d s) i = (if i = b then (buf_of s b)\<lparr>b_data := d\<rparr> else buf_of s i)"
    "disk (set_data b d s) = disk s" "dwrites (set_data b d s) = dwrites s" "procs (set_data b d s) = procs s"
    "held (set_data b d s) = held s" "owns (set_data b d s) i n = owns s i n" "bframe s (set_data b d s)"
  using assms by (auto simp: set_data_def buf_of_upd_buf held_def is_locked_def owns_def caches_def holdingsleep_def)

lemma bwrite_ok:
  assumes ok: "bio_ok P s" and o: "owns s b n"
  shows "okK (bwrite b s) (\<lambda>_ s'. bio_ok P s' \<and> view s' = view s \<and> bufs s' = bufs s \<and> procs s' = procs s \<and>
     disk s' = (disk s)(n := view s n) \<and> dwrites s' = dwrites s @ [(n, view s n)] \<and> bframe s s')"
proof -
  note b = ownsD [OF o]
  let ?s = "s\<lparr>disk := (disk s)(n := view s n), dwrites := dwrites s @ [(n, view s n)]\<rparr>"
  have v: "view s n = b_data (buf_of s b)" by (rule owns_view [OF ok o])
  have r: "bwrite b s = Ret () ?s" using b v by (simp add: bwrite_def disk_rw_def Let_def)
  have okb: "bio_ok P ?s"
  proof (rule bio_ok_change [OF ok b(1)])
    show "bufs ?s = (bufs s)[b := buf_of s b]" by simp
    show "buf_ok P (disk ?s) (buf_of s b)"
      using bio_okD(4) [OF ok b(1)] b by (auto simp: buf_ok_def)
    show "buf_ok P (disk ?s) (buf_of s j)" if "j < NBUF" "j \<noteq> b" for j
      using buf_ok_other [OF bio_okD(4) [OF ok that(1)], of n] that bio_okD(5) [OF ok, of j n b] b
      by (auto simp: caches_def)
  qed (use b owns_length [OF ok o] v bio_okD [OF ok] in \<open>auto simp: caches_def sched_ok_def\<close>)
  have "view ?s m = view s m" for m
  proof (cases "m = n")
    case True
    then show ?thesis using v view_cached [OF okb, of b n] b by (simp add: caches_def)
  next
    case False
    then show ?thesis by (simp add: view_def split: option.splits)
  qed
  moreover have "bframe s ?s" by (rule bframeI [where ps = "procs s" and bs = "bufs s"]) auto
  ultimately show ?thesis using r okb by (auto simp: fun_eq_iff)
qed

text \<open>
  \<^verbatim>\<open>log_write\<close> pins a buffer it holds, and \<^verbatim>\<open>install_trans\<close> unpins it after writing it
  home; the reference count follows the set of pinned blocks.
\<close>

lemma pin_simps:
  assumes "b < length (bufs s)"
  shows "disk (bpin b s) = disk s" "dwrites (bpin b s) = dwrites s" "procs (bpin b s) = procs s"
    "held (bpin b s) = held s" "owns (bpin b s) i n = owns s i n" "view (bpin b s) = view s"
    "bframe s (bpin b s)" "b_data (buf_of (bpin b s) i) = b_data (buf_of s i)"
    "disk (bunpin b s) = disk s" "dwrites (bunpin b s) = dwrites s" "procs (bunpin b s) = procs s"
    "held (bunpin b s) = held s" "owns (bunpin b s) i n = owns s i n" "view (bunpin b s) = view s"
    "bframe s (bunpin b s)" "b_data (buf_of (bunpin b s) i) = b_data (buf_of s i)"
proof -
  have v: "view (upd_buf b f s) = view s"
    if "\<And>x. b_dev (f x) = b_dev x \<and> b_blockno (f x) = b_blockno x \<and> b_valid (f x) = b_valid x \<and>
          b_data (f x) = b_data x" for f
  proof
    fix n
    let ?Q = "\<lambda>x. b_dev x = ROOTDEV \<and> b_blockno x = n \<and> b_valid x \<noteq> 0"
    have "map ?Q (take NBUF (bufs (upd_buf b f s))) = map ?Q (take NBUF (bufs s))"
      using that by (intro nth_equalityI) (auto simp: upd_buf_def nth_upd)
    then have "scan ?Q (take NBUF (bufs (upd_buf b f s))) = scan ?Q (take NBUF (bufs s))"
      by (rule scan_map_cong)
    then show "view (upd_buf b f s) n = view s n"
      using that by (auto simp: view_def buf_of_upd_buf [OF assms] split: option.splits)
  qed
  show "disk (bpin b s) = disk s" "dwrites (bpin b s) = dwrites s" "procs (bpin b s) = procs s"
    "held (bpin b s) = held s" "owns (bpin b s) i n = owns s i n" "view (bpin b s) = view s"
    "bframe s (bpin b s)" "b_data (buf_of (bpin b s) i) = b_data (buf_of s i)"
    "disk (bunpin b s) = disk s" "dwrites (bunpin b s) = dwrites s" "procs (bunpin b s) = procs s"
    "held (bunpin b s) = held s" "owns (bunpin b s) i n = owns s i n" "view (bunpin b s) = view s"
    "bframe s (bunpin b s)" "b_data (buf_of (bunpin b s) i) = b_data (buf_of s i)"
    using assms by (auto simp: bpin_def bunpin_def buf_of_upd_buf held_def is_locked_def owns_def caches_def
        holdingsleep_def v)
qed

lemma bpin_ok:
  assumes ok: "bio_ok P s" and o: "owns s b n" and new: "n \<notin> P"
  shows "bio_ok (insert n P) (bpin b s)"
proof -
  note b = ownsD [OF o]
  have bok: "buf_ok P (disk s) (buf_of s b)" by (rule bio_okD(4) [OF ok b(1)])
  show ?thesis
  proof (rule bio_ok_change [OF ok b(1)])
    show "bufs (bpin b s) = (bufs s)[b := (buf_of s b)\<lparr>b_refcnt := b_refcnt (buf_of s b) + 1\<rparr>]"
      by (simp add: bpin_def upd_buf_def)
    show "buf_ok (insert n P) (disk (bpin b s)) ((buf_of s b)\<lparr>b_refcnt := b_refcnt (buf_of s b) + 1\<rparr>)"
      using bok b new by (auto simp: buf_ok_def is_locked_def bpin_def unat_word_ariths)
    show "buf_ok (insert n P) (disk (bpin b s)) (buf_of s j)" if "j < NBUF" "j \<noteq> b" for j
      using buf_ok_other [OF bio_okD(4) [OF ok that(1)], of n] that bio_okD(5) [OF ok, of j n b] b
      by (auto simp: caches_def bpin_def)
  qed (use b bio_okD [OF ok] in \<open>auto simp: caches_def bpin_def\<close>)
qed

lemma bunpin_ok:
  assumes ok: "bio_ok P s" and o: "owns s b n" and pinned: "n \<in> P"
  shows "bio_ok (P - {n}) (bunpin b s)"
proof -
  note b = ownsD [OF o]
  have bok: "buf_ok P (disk s) (buf_of s b)" by (rule bio_okD(4) [OF ok b(1)])
  then have two: "unat (b_refcnt (buf_of s b)) = 2" using b pinned by (simp add: buf_ok_def)
  then have one: "unat (b_refcnt (buf_of s b) - 1) = 1"
    by (simp add: unat_sub word_le_nat_alt)
  show ?thesis
  proof (rule bio_ok_change [OF ok b(1)])
    show "bufs (bunpin b s) = (bufs s)[b := (buf_of s b)\<lparr>b_refcnt := b_refcnt (buf_of s b) - 1\<rparr>]"
      by (simp add: bunpin_def upd_buf_def)
    show "buf_ok (P - {n}) (disk (bunpin b s)) ((buf_of s b)\<lparr>b_refcnt := b_refcnt (buf_of s b) - 1\<rparr>)"
      using bok b one by (auto simp: buf_ok_def is_locked_def bunpin_def)
    show "buf_ok (P - {n}) (disk (bunpin b s)) (buf_of s j)" if "j < NBUF" "j \<noteq> b" for j
      using buf_ok_other [OF bio_okD(4) [OF ok that(1)], of n] that bio_okD(5) [OF ok, of j n b] b
      by (auto simp: caches_def bunpin_def)
  qed (use b bio_okD [OF ok] in \<open>auto simp: caches_def bunpin_def\<close>)
qed

text \<open>
  A buffer is given back in agreement with the disk, unless its block is pinned: what the
  log has not taken over must have been written.
\<close>

definition brelse_post :: "'a bio_st_scheme \<Rightarrow> nat \<Rightarrow> 'a bio_st_scheme \<Rightarrow> bool" where
  "brelse_post s b s' \<longleftrightarrow> view s' = view s \<and> held s' = held s - {b} \<and>
     (\<forall>j. j \<noteq> b \<longrightarrow> payload (buf_of s' j) = payload (buf_of s j)) \<and>
     (\<forall>i n. caches s' i n = caches s i n) \<and>
     disk s' = disk s \<and> dwrites s' = dwrites s \<and> bframe s s'"

lemma bio_ok_relink:
  assumes ok: "bio_ok P s" and "b < NBUF"
  shows "bio_ok P (s\<lparr>bufs := link_front b (unlink_buf b (bufs s))\<rparr>)"
proof -
  let ?s = "s\<lparr>bufs := link_front b (unlink_buf b (bufs s))\<rparr>"
  obtain xs where "dll (bufs s) xs" using ok by (auto simp: bio_ok_def)
  then have "dll (bufs ?s) (b # remove1 b xs)" using dll_move_front assms(2) by simp
  moreover have "buf_ok P d (link_front b (unlink_buf b bs) ! i) = buf_ok P d (bs ! i)" for d bs i
    by (simp add: buf_ok_def is_locked_def payload_fields)
  moreover have "caches ?s i n = caches s i n" "b_valid (buf_of ?s i) = b_valid (buf_of s i)" for i n
    by (simp_all add: caches_def payload_fields)
  ultimately show ?thesis using ok unfolding bio_ok_def by (auto simp: sched_ok_def)
qed

lemma view_relink:
  assumes "length (bufs s) = Suc NBUF" and "\<And>i. payload (bs ! i) = payload (buf_of s i)" "length bs = Suc NBUF"
  shows "view (s\<lparr>bufs := bs\<rparr>) = view s"
proof
  fix n
  let ?Q = "\<lambda>x. b_dev x = ROOTDEV \<and> b_blockno x = n \<and> b_valid x \<noteq> 0"
  note fields = assms(2) [unfolded payload_eq_iff]
  have "map ?Q (take NBUF bs) = map ?Q (take NBUF (bufs s))"
    using fields assms(1,3) by (intro nth_equalityI) auto
  then have "scan ?Q (take NBUF bs) = scan ?Q (take NBUF (bufs s))" by (rule scan_map_cong)
  then show "view (s\<lparr>bufs := bs\<rparr>) n = view s n"
    using fields by (auto simp: view_def split: option.splits)
qed

lemma brelse_ok:
  assumes ok: "bio_ok P s" and o: "owns s b n" and clean: "n \<in> P \<or> view s n = disk s n"
  shows "okK (brelse b s) (\<lambda>_ s'. bio_ok P s' \<and> brelse_post s b s')"
proof -
  note b = ownsD [OF o]
  have bok: "buf_ok P (disk s) (buf_of s b)" by (rule bio_okD(4) [OF ok b(1)])
  define y where "y = (buf_of s b)\<lparr>b_lock := (b_lock (buf_of s b))\<lparr>sl_locked := 0, sl_pid := 0\<rparr>,
     b_refcnt := b_refcnt (buf_of s b) - 1\<rparr>"
  have y: "b_dev y = ROOTDEV" "b_blockno y = n" "b_valid y \<noteq> 0" "b_data y = b_data (buf_of s b)"
    "b_next y = b_next (buf_of s b)" "b_prev y = b_prev (buf_of s b)" "\<not> is_locked y"
    using b by (simp_all add: y_def is_locked_def)
  have "unat (b_refcnt (buf_of s b)) = of_bool (n \<in> P) + 1" using bok b by (simp add: buf_ok_def)
  then have y1: "unat (b_refcnt y) = of_bool (n \<in> P)" by (simp add: y_def unat_sub word_le_nat_alt)
  define w where "w = wakeup (ChanBufLock b) s"
  have w: "bufs w = bufs s" "disk w = disk s" "dwrites w = dwrites s" "bframe s w" "sched_ok w"
    using bio_okD(1) [OF ok] by (simp_all add: w_def) (simp_all add: wakeup_def)
  have len: "b < length (bufs w)" using b bio_okD(2) [OF ok] w by simp
  have okw: "bio_ok P w" using ok w unfolding bio_ok_def caches_def by simp
  define t where "t = upd_buf b (\<lambda>_. y) w"
  have tb: "bufs t = (bufs s)[b := y]" "disk t = disk s" "dwrites t = dwrites s" "bframe s t"
    using w bframe_trans [OF w(4) bframe_bufs(1)] by (simp_all add: t_def) (simp add: upd_buf_def)
  have at: "buf_of t i = (if i = b then y else buf_of s i)" for i
    using len w by (simp add: tb nth_upd)
  have okt: "bio_ok P t"
    by (rule bio_ok_change [OF ok b(1) tb(1) y(5,6)])
      (use b y y1 w tb bok clean owns_view [OF ok o] bio_okD [OF ok] in
        \<open>auto simp: buf_ok_def caches_def bframe_simps\<close>)
  have "view t = (view w)(n := b_data y)"
    unfolding t_def
    by (rule view_upd_buf [OF okw okt [unfolded t_def] b(1)]) (use y b w in \<open>auto simp: caches_def\<close>)
  moreover have "view w = view s" by (rule view_cong) (simp_all add: w)
  ultimately have v: "view t = view s" using owns_view [OF ok o] y(4) by auto
  have ca: "caches t i m = caches s i m" for i m using at y b by (simp add: caches_def)
  have post: "brelse_post s b t"
    using v tb at y(7) ca by (auto simp: brelse_post_def held_def)
  define r where "r = t\<lparr>bufs := link_front b (unlink_buf b (bufs t))\<rparr>"
  have "brelse b s = Ret () (if b_refcnt y = 0 then r else t)"
    using b(6) len w(1)
    by (simp add: brelse_def releasesleep_def w_def [symmetric] upd_buf_upd_buf buf_of_upd_buf Let_def)
      (simp add: r_def t_def y_def upd_buf_def comp_def)
  moreover have "bio_ok P r" unfolding r_def by (rule bio_ok_relink [OF okt b(1)])
  moreover have "view r = view t" unfolding r_def by (rule view_relink) (use bio_okD(2) [OF okt] in auto)
  moreover have "held r = held t" "caches r i m = caches t i m" "payload (buf_of r i) = payload (buf_of t i)" for i m
    by (simp_all add: r_def held_def is_locked_def caches_def payload_fields)
  moreover have "bframe s r" unfolding r_def by (rule bframe_trans [OF tb(4) bframe_bufs(2)])
  moreover have "disk r = disk t" "dwrites r = dwrites t" by (simp_all add: r_def)
  ultimately show ?thesis using okt post by (simp add: brelse_post_def)
qed

text \<open>All of these depend on the buffers, the disk and the processes only.\<close>

lemma bio_cong:
  assumes "bufs s = bufs s'" "disk s = disk s'" "procs s = procs s'" "cur s = cur s'"
  shows "bio_ok P s = bio_ok P s'" "held s = held s'" "view s = view s'" "owns s b n = owns s' b n"
    "mypid s = mypid s'" "sched_ok s = sched_ok s'" "caches s b n = caches s' b n"
proof -
  have m: "mypid s = mypid s'" using assms by (simp add: mypid_def split: option.splits)
  have k: "sched_ok s = sched_ok s'" using assms by (simp add: sched_ok_def)
  show "bio_ok P s = bio_ok P s'" "held s = held s'" "view s = view s'" "owns s b n = owns s' b n"
    "mypid s = mypid s'" "sched_ok s = sched_ok s'" "caches s b n = caches s' b n"
    using assms m k view_cong [OF assms(1,2)]
    by (simp_all add: bio_ok_def held_def owns_def caches_def holdingsleep_def)
qed

text \<open>What the holder of other buffers keeps across \<^verbatim>\<open>bread\<close> and \<^verbatim>\<open>brelse\<close>.\<close>

lemma owns_payload:
  "owns s c m \<Longrightarrow> payload (buf_of s' c) = payload (buf_of s c) \<Longrightarrow> mypid s' = mypid s \<Longrightarrow>
   owns s' c m \<and> b_data (buf_of s' c) = b_data (buf_of s c)"
  by (simp add: owns_def caches_def holdingsleep_def payload_eq_iff)

lemma owns_bread:
  assumes "sched_ok s" and p: "bread_post s n b s'" and o: "owns s c m"
  shows "owns s' c m" "b_data (buf_of s' c) = b_data (buf_of s c)"
proof -
  have "mypid s' = mypid s" using assms(1) p bframe_simps(3) unfolding bread_post_def by blast
  moreover have "c \<noteq> b" using p ownsD(8) [OF o] by (auto simp: bread_post_def)
  then have "buf_of s' c = buf_of s c" using p unfolding bread_post_def by blast
  ultimately show "owns s' c m" "b_data (buf_of s' c) = b_data (buf_of s c)"
    using owns_payload [OF o, of s'] by auto
qed

lemma owns_brelse:
  assumes "sched_ok s" and p: "brelse_post s b s'" and o: "owns s c m" and "c \<noteq> b"
  shows "owns s' c m" "b_data (buf_of s' c) = b_data (buf_of s c)"
proof -
  have "mypid s' = mypid s" using assms(1) p bframe_simps(3) unfolding brelse_post_def by blast
  moreover have "payload (buf_of s' c) = payload (buf_of s c)"
    using p assms(4) unfolding brelse_post_def by blast
  ultimately show "owns s' c m" "b_data (buf_of s' c) = b_data (buf_of s c)"
    using owns_payload [OF o, of s'] by auto
qed

text \<open>After \<^verbatim>\<open>binit\<close> the cache is empty: what is read is the disk.\<close>

definition zero_buf :: buf where
  "zero_buf = \<lparr>b_valid = 0, b_disk = 0, b_dev = 0, b_blockno = 0,
     b_lock = \<lparr>sl_locked = 0, sl_pid = 0\<rparr>, b_refcnt = 0, b_prev = 0, b_next = 0,
     b_data = replicate BSIZE 0\<rparr>"

lemma binit_ok:
  assumes "sched_ok s" and "bufs s = replicate (Suc NBUF) zero_buf" and "\<And>n. length (disk s n) = BSIZE"
  shows "bio_ok {} (binit s)" "view (binit s) = disk s" "held (binit s) = {}" "bframe s (binit s)"
    "disk (binit s) = disk s" "dwrites (binit s) = dwrites s" "\<not> caches (binit s) i n"
proof -
  let ?f = "\<lambda>b bs. link_front b (bs[b := (bs ! b)\<lparr>b_lock := initsleeplock (b_lock (bs ! b))\<rparr>])"
  have pz: "payload zero_buf = zero_buf" by (simp add: payload_def zero_buf_def)
  have init: "payload (x\<lparr>b_lock := initsleeplock (b_lock x)\<rparr>) = zero_buf" if "payload x = zero_buf" for x
    using that by (cases x) (auto simp: payload_def zero_buf_def initsleeplock_def)
  have pl: "payload (fold ?f xs bs ! i) = zero_buf"
    if "\<And>i. i < length bs \<Longrightarrow> payload (bs ! i) = zero_buf" "i < length bs" for xs bs i
    using that
  proof (induction xs arbitrary: bs)
    case (Cons x xs)
    have "payload (?f x bs ! i) = zero_buf" if "i < length bs" for i
      using that Cons.prems(1) [OF that] init [of "bs ! i"] by (auto simp: nth_upd)
    then show ?case using Cons.prems(2) by (auto intro!: Cons.IH)
  qed simp
  have len: "length (bufs s) = Suc NBUF" using assms(2) by simp
  have z: "payload (buf_of (binit s) i) = zero_buf" if "i < Suc NBUF" for i
    unfolding binit_def Let_def using len that assms(2) pz
    by (simp del: replicate_Suc) (rule pl; simp add: pz del: replicate_Suc)
  have d: "dll (bufs (binit s)) (rev [0..<NBUF])" by (rule dll_binit [OF len])
  have f: "b_dev (buf_of (binit s) i) = 0" "b_refcnt (buf_of (binit s) i) = 0" "\<not> is_locked (buf_of (binit s) i)"
    "length (b_data (buf_of (binit s) i)) = BSIZE" if "i < NBUF" for i
    using z [of i] that unfolding payload_def zero_buf_def
    by (cases "buf_of (binit s) i"; simp add: is_locked_def)+
  show nc: "\<not> caches (binit s) i n" for i n using f by (auto simp: caches_def ROOTDEV_def)
  have s: "sched_ok (binit s)" "disk (binit s) = disk s" "dwrites (binit s) = dwrites s"
    using assms(1) by (simp_all add: binit_def Let_def sched_ok_def)
  then show "disk (binit s) = disk s" "dwrites (binit s) = dwrites s" by auto
  show "bio_ok {} (binit s)"
    unfolding bio_ok_def using d nc s f assms(3) by (auto simp: buf_ok_def ROOTDEV_def)
  show "view (binit s) = disk s"
    using view_uncached [of "binit s"] nc d s by (auto simp: dll_def)
  show "held (binit s) = {}" using f by (auto simp: held_def)
  show "bframe s (binit s)" by (simp add: binit_def Let_def)
qed

text \<open>Whatever the state, the operations of the cache stay inside the cache.\<close>

lemma bframe_sym: "bframe s s' \<Longrightarrow> bframe s' s"
proof (elim bframeE)
  fix ps bs d w assume "s' = s\<lparr>procs := ps, bufs := bs, disk := d, dwrites := w\<rparr>" "stateless ps = stateless (procs s)"
  then show "bframe s' s"
    by (intro bframeI [where ps = "procs s" and bs = "bufs s" and d = "disk s" and w = "dwrites s"]) auto
qed

lemma bframe_right: "bframe t t' \<Longrightarrow> bframe s t' = bframe s t"
  using bframe_trans bframe_sym by blast

lemma bframe_steps [simp]:
  "bframe s (upd_buf b f t) = bframe s t" "bframe s (t\<lparr>bufs := bs\<rparr>) = bframe s t"
  "bframe s (wakeup ch t) = bframe s t" "bframe (upd_buf b f s) t = bframe s t"
  using bframe_right [OF bframe_bufs(1), of s b f t] bframe_right [OF bframe_bufs(2), of s bs t]
    bframe_right [OF bframe_wakeup, of s ch t] bframe_right [OF bframe_bufs(1), of t b f s] bframe_sym
  by blast+

lemma bframe_procs [simp]: "bframe s (s\<lparr>disk := d, dwrites := w\<rparr>)"
  by (rule bframeI [where ps = "procs s" and bs = "bufs s" and d = d and w = w]) auto

lemma bread_frame:
  assumes "bread dev n s = Ret b s'"
  shows "bframe s s'"
proof -
  have lock: "bframe s s'" if "lock_buf b s = Ret c s'" for b c s' and s :: "'a bio_st_scheme"
    using that by (auto simp: lock_buf_def acquiresleep_def sleep_def outcome_simps split: if_splits option.splits)
  have get: "bframe s t" if "bget dev n s = Ret c t" for c t
    using that by (auto simp: bget_def simp del: walk_list.simps split: option.splits
        intro: bframe_trans dest!: lock)
  from assms obtain c t where "bget dev n s = Ret c t" and "s' = t \<or> (\<exists>f g. s' = upd_buf c f (upd_buf c g t))"
    by (auto simp: bread_def outcome_simps disk_rw_def set_data_def Let_def split: if_splits)
  then show ?thesis using get [of c t] by (auto intro: bframe_trans)
qed

lemma bwrite_frame: "bwrite b s = Ret u s' \<Longrightarrow> bframe s s'"
  by (auto simp: bwrite_def disk_rw_def Let_def split: if_splits)

lemma brelse_frame: "brelse b s = Ret u s' \<Longrightarrow> bframe s s'"
  by (auto simp: brelse_def releasesleep_def Let_def split: if_splits intro: bframe_trans)

end
