(* ===== verification/Log.thy ===== *)
theory Log
  imports Bio
begin

text \<open>
  The write-ahead log, \<^verbatim>\<open>src/kernel/log.c\<close>. The header block is laid out in bytes as
  \<^verbatim>\<open>struct logheader\<close> is: the count at offset 0 and \<^verbatim>\<open>block[i]\<close> at offset 4 + 4 i. The fields of
  \<^verbatim>\<open>struct log\<close> extend the state of the buffer cache.

  Main results: \<open>commit\<close> returns and writes exactly the log blocks, the header, the home
  blocks and the cleared header, in that order; whatever prefix of these writes reaches the
  disk before a crash, recovery on the next boot returns and leaves either none or all of
  the transaction; and a crash during recovery does not change what recovery produces.
\<close>

section \<open>State\<close>

text \<open>\<^verbatim>\<open>struct superblock\<close> of \<^verbatim>\<open>fs.h\<close>, from which the log learns its place.\<close>

record superblock =
  sb_magic :: uint
  sb_size :: uint
  sb_nblocks :: uint
  sb_ninodes :: uint
  sb_nlog :: uint
  sb_logstart :: uint
  sb_inodestart :: uint
  sb_bmapstart :: uint

record log_st = bio_st +
  lg_start :: uint
  lg_size :: int
  lg_outstanding :: int
  lg_committing :: int
  lg_dev :: uint
  lh_n :: int
  lh_block :: "uint list"

section \<open>Operations\<close>

text \<open>\<open>block[i]\<close> past the end of the array is outside what C defines.\<close>

definition install_trans :: "int \<Rightarrow> 'a log_st_scheme \<Rightarrow> (unit, 'a log_st_scheme) outcome" where
  "install_trans recovering s = forK [0..<nat (lh_n s)] (\<lambda>tail s.
     bindK (bread (lg_dev s) (lg_start s + of_nat tail + 1) s) (\<lambda>lbuf s.
     if LOGSIZE \<le> tail then Stuck else
     bindK (bread (lg_dev s) (lh_block s ! tail) s) (\<lambda>dbuf s.
     let s = set_data dbuf (b_data (buf_of s lbuf)) s in
     bindK (bwrite dbuf s) (\<lambda>_ s.
     let s = (if recovering = 0 then bunpin dbuf s else s) in
     bindK (brelse lbuf s) (\<lambda>_ s. brelse dbuf s))))) s"

definition read_head :: "'a log_st_scheme \<Rightarrow> (unit, 'a log_st_scheme) outcome" where
  "read_head s =
     bindK (bread (lg_dev s) (lg_start s) s) (\<lambda>b s.
     let d = b_data (buf_of s b);
         s = s\<lparr>lh_n := sint (get32 d 0)\<rparr> in
     if int LOGSIZE < lh_n s then Stuck else
     let s = s\<lparr>lh_block := fold (\<lambda>i bl. bl[i := get32 d (4 + 4 * i)]) [0..<nat (lh_n s)] (lh_block s)\<rparr>
     in brelse b s)"

definition write_head :: "'a log_st_scheme \<Rightarrow> (unit, 'a log_st_scheme) outcome" where
  "write_head s =
     bindK (bread (lg_dev s) (lg_start s) s) (\<lambda>b s.
     if int LOGSIZE < lh_n s then Stuck else
     let d = put32 0 (word_of_int (lh_n s)) (b_data (buf_of s b));
         d = fold (\<lambda>i d. put32 (4 + 4 * i) (lh_block s ! i) d) [0..<nat (lh_n s)] d;
         s = set_data b d s in
     bindK (bwrite b s) (\<lambda>_ s. brelse b s))"

definition recover_from_log :: "'a log_st_scheme \<Rightarrow> (unit, 'a log_st_scheme) outcome" where
  "recover_from_log s =
     bindK (read_head s) (\<lambda>_ s.
     bindK (install_trans 1 s) (\<lambda>_ s.
     write_head (s\<lparr>lh_n := 0\<rparr>)))"

definition sizeof_logheader :: nat where
  "sizeof_logheader = 4 + 4 * LOGSIZE"

definition initlog :: "uint \<Rightarrow> superblock \<Rightarrow> 'a log_st_scheme \<Rightarrow> (unit, 'a log_st_scheme) outcome" where
  "initlog dev sb s =
     (if BSIZE \<le> sizeof_logheader then Panic ''initlog: too big logheader''
      else recover_from_log (s\<lparr>lg_start := sb_logstart sb, lg_size := sint (sb_nlog sb), lg_dev := dev\<rparr>))"

definition begin_op :: "'a log_st_scheme \<Rightarrow> (unit, 'a log_st_scheme) outcome" where
  "begin_op s =
     (if lg_committing s \<noteq> 0 then sleep ChanLog s
      else if int LOGSIZE < lh_n s + (lg_outstanding s + 1) * int MAXOPBLOCKS then sleep ChanLog s
      else Ret () (s\<lparr>lg_outstanding := lg_outstanding s + 1\<rparr>))"

definition write_log :: "'a log_st_scheme \<Rightarrow> (unit, 'a log_st_scheme) outcome" where
  "write_log s = forK [0..<nat (lh_n s)] (\<lambda>tail s.
     bindK (bread (lg_dev s) (lg_start s + of_nat tail + 1) s) (\<lambda>to s.
     if LOGSIZE \<le> tail then Stuck else
     bindK (bread (lg_dev s) (lh_block s ! tail) s) (\<lambda>from s.
     let s = set_data to (b_data (buf_of s from)) s in
     bindK (bwrite to s) (\<lambda>_ s.
     bindK (brelse from s) (\<lambda>_ s. brelse to s))))) s"

definition commit :: "'a log_st_scheme \<Rightarrow> (unit, 'a log_st_scheme) outcome" where
  "commit s =
     (if 0 < lh_n s then
        bindK (write_log s) (\<lambda>_ s.
        bindK (write_head s) (\<lambda>_ s.
        bindK (install_trans 0 s) (\<lambda>_ s.
        write_head (s\<lparr>lh_n := 0\<rparr>))))
      else Ret () s)"

definition end_op :: "'a log_st_scheme \<Rightarrow> (unit, 'a log_st_scheme) outcome" where
  "end_op s =
     (let s = s\<lparr>lg_outstanding := lg_outstanding s - 1\<rparr> in
      if lg_committing s \<noteq> 0 then Panic ''log.committing''
      else if lg_outstanding s = 0 then
        bindK (commit (s\<lparr>lg_committing := 1\<rparr>)) (\<lambda>_ s.
          Ret () (wakeup ChanLog (s\<lparr>lg_committing := 0\<rparr>)))
      else Ret () (wakeup ChanLog s))"

definition log_write :: "nat \<Rightarrow> 'a log_st_scheme \<Rightarrow> (unit, 'a log_st_scheme) outcome" where
  "log_write b s =
     (if int LOGSIZE \<le> lh_n s \<or> lg_size s - 1 \<le> lh_n s then Panic ''too big a transaction''
      else if lg_outstanding s < 1 then Panic ''log_write outside of trans''
      else let n = b_blockno (buf_of s b);
               i = (case scan (\<lambda>x. x = n) (take (nat (lh_n s)) (lh_block s)) of
                      Some i \<Rightarrow> i | None \<Rightarrow> nat (lh_n s));
               s = s\<lparr>lh_block := (lh_block s)[i := n]\<rparr> in
           if int i = lh_n s then Ret () ((bpin b s)\<lparr>lh_n := lh_n s + 1\<rparr>)
           else Ret () s)"

section \<open>One block copied\<close>

lemma bframe_log:
  assumes "bframe s s'"
  shows "lg_start s' = lg_start s" "lg_size s' = lg_size s" "lg_outstanding s' = lg_outstanding s"
    "lg_committing s' = lg_committing s" "lg_dev s' = lg_dev s" "lh_n s' = lh_n s" "lh_block s' = lh_block s"
  using assms by (auto elim!: bframeE)

text \<open>
  The condition under which an idle block can be read: enough buffers are left, and nobody
  holds it.
\<close>

lemma bread_idle:
  assumes "bio_ok P s" "finite P" "card P + card (held s) < NBUF" "\<And>i. i \<in> held s \<Longrightarrow> \<not> caches s i n"
  shows "okK (bread ROOTDEV n s) (\<lambda>b s'. bio_ok P s' \<and> bread_post s n b s')"
  using assms by (intro bread_ok) (auto simp: held_def caches_def)

text \<open>A pinned block is in the cache, so reading it needs no free buffer.\<close>

lemma bread_pinned:
  assumes "bio_ok P s" "finite P" "n \<in> P" "\<And>i. i \<in> held s \<Longrightarrow> \<not> caches s i n"
  shows "okK (bread ROOTDEV n s) (\<lambda>b s'. bio_ok P s' \<and> bread_post s n b s')"
  using assms bio_okD(6) [OF assms(1,3)] by (intro bread_ok) (auto simp: held_def caches_def)

lemma brelse_post_simps:
  assumes "brelse_post s b s'"
  shows "view s' = view s" "held s' = held s - {b}" "disk s' = disk s" "dwrites s' = dwrites s" "bframe s s'"
  using assms by (simp_all add: brelse_post_def)

lemma bread_post_simps:
  assumes "bread_post s n b s'"
  shows "view s' = view s" "held s' = insert b (held s)" "b \<notin> held s" "disk s' = disk s"
    "dwrites s' = dwrites s" "bframe s s'" "owns s' b n" "b_data (buf_of s' b) = view s n"
  using assms by (simp_all add: bread_post_def)

text \<open>The effect of a sequence of block writes, in the cache and on the disk.\<close>

type_synonym writes = "(uint \<times> uchar list) list"

definition apply_writes :: "writes \<Rightarrow> (uint \<Rightarrow> uchar list) \<Rightarrow> uint \<Rightarrow> uchar list" where
  "apply_writes ws d = fold (\<lambda>(n, b) d. d(n := b)) ws d"

definition wrote :: "'a bio_st_scheme \<Rightarrow> writes \<Rightarrow> 'a bio_st_scheme \<Rightarrow> bool" where
  "wrote s ws s' \<longleftrightarrow> held s' = held s \<and> view s' = apply_writes ws (view s) \<and>
     disk s' = apply_writes ws (disk s) \<and> dwrites s' = dwrites s @ ws \<and> bframe s s'"

lemma apply_writes_simps [simp]:
  "apply_writes [] d = d" "apply_writes ((n, b) # ws) d = apply_writes ws (d(n := b))"
  "apply_writes (ws @ ws') d = apply_writes ws' (apply_writes ws d)"
  by (simp_all add: apply_writes_def)

lemma apply_writes_other: "n \<notin> fst ` set ws \<Longrightarrow> apply_writes ws d n = d n"
  by (induction ws arbitrary: d) auto

lemma apply_writes_same:
  "(\<And>b. (n, b) \<in> set ws \<Longrightarrow> b = v) \<Longrightarrow> n \<in> fst ` set ws \<or> d n = v \<Longrightarrow> apply_writes ws d n = v"
proof (induction ws arbitrary: d)
  case (Cons w ws)
  obtain m b where w: "w = (m, b)" by force
  show ?case unfolding w apply_writes_simps
    by (rule Cons.IH) (use Cons.prems w in auto)
qed simp

lemma wrote_refl [simp]: "wrote s [] s"
  by (simp add: wrote_def)

lemma wrote_trans: "wrote s ws s' \<Longrightarrow> wrote s' ws' s'' \<Longrightarrow> wrote s (ws @ ws') s''"
  by (auto simp: wrote_def intro: bframe_trans)

lemma two_bread:
  assumes ok: "bio_ok P s" "finite P" "held s = {}" and "n1 \<noteq> n2" "card P < NBUF" "n2 \<in> P \<or> Suc (card P) < NBUF"
  shows "okK (bread ROOTDEV n1 s) (\<lambda>a s1. bframe s s1 \<and> okK (bread ROOTDEV n2 s1) (\<lambda>b s2.
     bio_ok P s2 \<and> a \<noteq> b \<and> owns s2 a n1 \<and> owns s2 b n2 \<and> held s2 = {a, b} \<and> view s2 = view s \<and>
     disk s2 = disk s \<and> dwrites s2 = dwrites s \<and> bframe s s2))"
proof (rule okK_weaken [OF bread_idle [OF ok(1,2)]])
  show "card P + card (held s) < NBUF" "\<And>i. i \<in> held s \<Longrightarrow> \<not> caches s i n1" using assms by auto
  fix a s1 assume a: "bio_ok P s1 \<and> bread_post s n1 a s1"
  note p = bread_post_simps [OF a [THEN conjunct2]]
  have free: "\<not> caches s1 i n2" if "i \<in> held s1" for i
    using that p ok(3) ownsD [OF p(7)] assms(4) by (auto simp: caches_def)
  have "okK (bread ROOTDEV n2 s1) (\<lambda>b s2. bio_ok P s2 \<and> bread_post s1 n2 b s2)"
    using assms(6)
  proof
    assume "n2 \<in> P" then show ?thesis using a ok(2) free by (intro bread_pinned) auto
  next
    assume "Suc (card P) < NBUF" then show ?thesis using a ok(2,3) free p by (intro bread_idle) auto
  qed
  then show "bframe s s1 \<and> okK (bread ROOTDEV n2 s1) (\<lambda>b s2.
     bio_ok P s2 \<and> a \<noteq> b \<and> owns s2 a n1 \<and> owns s2 b n2 \<and> held s2 = {a, b} \<and> view s2 = view s \<and>
     disk s2 = disk s \<and> dwrites s2 = dwrites s \<and> bframe s s2)"
  proof (intro conjI p(6), elim okK_weaken)
    fix b s2 assume b: "bio_ok P s2 \<and> bread_post s1 n2 b s2"
    note q = bread_post_simps [OF b [THEN conjunct2]]
    have "owns s2 a n1" using a b p(7) bio_okD(1) owns_bread(1) by metis
    then show "bio_ok P s2 \<and> a \<noteq> b \<and> owns s2 a n1 \<and> owns s2 b n2 \<and> held s2 = {a, b} \<and> view s2 = view s \<and>
       disk s2 = disk s \<and> dwrites s2 = dwrites s \<and> bframe s s2"
      using b p q ok(3) bframe_trans [OF p(6) q(6)] by auto
  qed
qed

lemma bwrite_new:
  assumes ok: "bio_ok P s" and o: "owns s b n" and "length d = BSIZE"
  shows "okK (bwrite b (set_data b d s)) (\<lambda>_ s'. bio_ok P s' \<and> wrote s [(n, d)] s' \<and> (\<forall>c m. owns s' c m = owns s c m))"
proof -
  let ?s = "set_data b d s"
  have b: "b < length (bufs s)" using ownsD(1) [OF o] bio_okD(2) [OF ok] by simp
  note sd = set_data_ok [OF ok o assms(3)] and simps = set_data_simps [OF b]
  have o': "owns ?s b n" using simps o by simp
  show ?thesis
  proof (rule okK_weaken [OF bwrite_ok [OF sd(1) o']], elim conjE, intro conjI)
    fix u s' assume *: "bio_ok P s'" "view s' = view ?s" "bufs s' = bufs ?s" "procs s' = procs ?s"
      "disk s' = (disk ?s)(n := view ?s n)" "dwrites s' = dwrites ?s @ [(n, view ?s n)]" "bframe ?s s'"
    then show "bio_ok P s'" by simp
    show "wrote s [(n, d)] s'"
      using * sd simps bframe_trans [OF simps(7) *(7)] by (simp add: wrote_def held_def)
    have "mypid s' = mypid s" using * simps(4) bframe_simps(1) [OF *(7)] by (simp add: mypid_def set_data_def split: option.splits)
    then have "owns s' c m = owns ?s c m" for c m
      using * by (simp add: owns_def caches_def holdingsleep_def set_data_def)
    then show "\<forall>c m. owns s' c m = owns s c m" using simps by simp
  qed
qed

lemma release_two:
  assumes ok: "bio_ok P s" and o: "owns s a n1" "owns s b n2" "a \<noteq> b"
    and clean: "n1 \<in> P \<or> view s n1 = disk s n1" "n2 \<in> P \<or> view s n2 = disk s n2"
  shows "okK (bindK (brelse a s) (\<lambda>_ s. brelse b s)) (\<lambda>_ s'. bio_ok P s' \<and> held s' = held s - {a, b} \<and>
     view s' = view s \<and> disk s' = disk s \<and> dwrites s' = dwrites s \<and> bframe s s')"
proof (rule okK_bindI [OF brelse_ok [OF ok o(1) clean(1)]])
  fix u s1 assume 1: "bio_ok P s1 \<and> brelse_post s a s1"
  note p = brelse_post_simps [OF 1 [THEN conjunct2]]
  have "owns s1 b n2" using 1 bio_okD(1) [OF ok] o owns_brelse(1) by metis
  then show "okK (brelse b s1) (\<lambda>_ s'. bio_ok P s' \<and> held s' = held s - {a, b} \<and> view s' = view s \<and>
     disk s' = disk s \<and> dwrites s' = dwrites s \<and> bframe s s')"
    using 1 clean(2) p bframe_trans [OF p(5)]
    by (intro okK_weaken [OF brelse_ok]) (auto simp: brelse_post_simps)
qed

text \<open>The body of the loop of \<^verbatim>\<open>write_log\<close>: a pinned block is copied to a log block.\<close>

lemma write_log_step:
  assumes ok: "bio_ok P s" "finite P" "held s = {}" "card P < NBUF" and n: "n1 \<notin> P" "n2 \<in> P"
  shows "okK (bindK (bread ROOTDEV n1 s) (\<lambda>to s.
      bindK (bread ROOTDEV n2 s) (\<lambda>from s.
      let s = set_data to (b_data (buf_of s from)) s in
      bindK (bwrite to s) (\<lambda>_ s. bindK (brelse from s) (\<lambda>_ s. brelse to s)))))
    (\<lambda>_ s'. bio_ok P s' \<and> wrote s [(n1, view s n2)] s')"
proof -
  have "n1 \<noteq> n2" using n by auto
  note two = two_bread [OF ok(1-3) this ok(4)]
  show ?thesis
  proof (rule okK_bindI, rule two, simp add: n, elim conjE okK_bindI, unfold Let_def)
    fix a s1 b s2 assume *: "bio_ok P s2" "a \<noteq> b" "owns s2 a n1" "owns s2 b n2" "held s2 = {a, b}"
      "view s2 = view s" "disk s2 = disk s" "dwrites s2 = dwrites s" "bframe s s2"
    have d: "b_data (buf_of s2 b) = view s n2" using owns_view [OF *(1,4)] *(6) by simp
    show "okK (bindK (bwrite a (set_data a (b_data (buf_of s2 b)) s2)) (\<lambda>_ s. bindK (brelse b s) (\<lambda>_. brelse a)))
        (\<lambda>_ s'. bio_ok P s' \<and> wrote s [(n1, view s n2)] s')"
      unfolding d
    proof (rule okK_bindI [OF bwrite_new [OF *(1,3)]])
      show "length (view s n2) = BSIZE" using owns_length [OF *(1,4)] d by simp
      fix u s3 assume w: "bio_ok P s3 \<and> wrote s2 [(n1, view s n2)] s3 \<and> (\<forall>c m. owns s3 c m = owns s2 c m)"
      then show "okK (bindK (brelse b s3) (\<lambda>_. brelse a)) (\<lambda>_ s'. bio_ok P s' \<and> wrote s [(n1, view s n2)] s')"
        using * n ok(3)
        by (intro okK_weaken [OF release_two]) (auto simp: wrote_def intro: bframe_trans)
    qed
  qed
qed

text \<open>The body of the loop of \<^verbatim>\<open>install_trans\<close>, in recovery and in a commit.\<close>

lemma install_step_recover:
  assumes ok: "bio_ok {} s" "held s = {}" and n: "n1 \<noteq> n2"
  shows "okK (bindK (bread ROOTDEV n1 s) (\<lambda>l s.
      bindK (bread ROOTDEV n2 s) (\<lambda>d s.
      let s = set_data d (b_data (buf_of s l)) s in
      bindK (bwrite d s) (\<lambda>_ s. bindK (brelse l s) (\<lambda>_ s. brelse d s)))))
    (\<lambda>_ s'. bio_ok {} s' \<and> wrote s [(n2, view s n1)] s')"
proof -
  have room: "card ({} :: uint set) < NBUF" "n2 \<in> {} \<or> Suc (card ({} :: uint set)) < NBUF"
    by (simp_all add: NBUF_def MAXOPBLOCKS_def)
  note two = two_bread [OF ok(1) finite.emptyI ok(2) n room]
  show ?thesis
  proof (rule okK_bindI, rule two, elim conjE okK_bindI, unfold Let_def)
    fix a s1 b s2 assume *: "bio_ok {} s2" "a \<noteq> b" "owns s2 a n1" "owns s2 b n2" "held s2 = {a, b}"
      "view s2 = view s" "disk s2 = disk s" "dwrites s2 = dwrites s" "bframe s s2"
    have d: "b_data (buf_of s2 a) = view s n1" using owns_view [OF *(1,3)] *(6) by simp
    have c: "view s n1 = disk s n1" by (rule view_clean [OF ok(1)]) (use ok(2) in auto)
    show "okK (bindK (bwrite b (set_data b (b_data (buf_of s2 a)) s2)) (\<lambda>_ s. bindK (brelse a s) (\<lambda>_. brelse b)))
        (\<lambda>_ s'. bio_ok {} s' \<and> wrote s [(n2, view s n1)] s')"
      unfolding d
    proof (rule okK_bindI [OF bwrite_new [OF *(1,4)]])
      show "length (view s n1) = BSIZE" using owns_length [OF *(1,3)] d by simp
      fix u s3 assume w: "bio_ok {} s3 \<and> wrote s2 [(n2, view s n1)] s3 \<and> (\<forall>c m. owns s3 c m = owns s2 c m)"
      then show "okK (bindK (brelse a s3) (\<lambda>_. brelse b)) (\<lambda>_ s'. bio_ok {} s' \<and> wrote s [(n2, view s n1)] s')"
        using * n ok(2) c
        by (intro okK_weaken [OF release_two]) (auto simp: wrote_def intro: bframe_trans)
    qed
  qed
qed

lemma install_step_commit:
  assumes ok: "bio_ok P s" "finite P" "held s = {}" "card P < NBUF" and n: "n1 \<notin> P" "n2 \<in> P"
  shows "okK (bindK (bread ROOTDEV n1 s) (\<lambda>l s.
      bindK (bread ROOTDEV n2 s) (\<lambda>d s.
      let s = set_data d (b_data (buf_of s l)) s in
      bindK (bwrite d s) (\<lambda>_ s. bindK (brelse l (bunpin d s)) (\<lambda>_ s. brelse d s)))))
    (\<lambda>_ s'. bio_ok (P - {n2}) s' \<and> wrote s [(n2, view s n1)] s')"
proof -
  have ne: "n1 \<noteq> n2" using n by auto
  note two = two_bread [OF ok(1-3) ne ok(4)]
  show ?thesis
  proof (rule okK_bindI, rule two, simp add: n, elim conjE okK_bindI, unfold Let_def)
    fix a s1 b s2 assume *: "bio_ok P s2" "a \<noteq> b" "owns s2 a n1" "owns s2 b n2" "held s2 = {a, b}"
      "view s2 = view s" "disk s2 = disk s" "dwrites s2 = dwrites s" "bframe s s2"
    have d: "b_data (buf_of s2 a) = view s n1" using owns_view [OF *(1,3)] *(6) by simp
    have c: "view s n1 = disk s n1" by (rule view_clean [OF ok(1)]) (use ok(3) n in auto)
    show "okK (bindK (bwrite b (set_data b (b_data (buf_of s2 a)) s2))
          (\<lambda>_ s. bindK (brelse a (bunpin b s)) (\<lambda>_. brelse b)))
        (\<lambda>_ s'. bio_ok (P - {n2}) s' \<and> wrote s [(n2, view s n1)] s')"
      unfolding d
    proof (rule okK_bindI [OF bwrite_new [OF *(1,4)]])
      show "length (view s n1) = BSIZE" using owns_length [OF *(1,3)] d by simp
      fix u s3 assume w: "bio_ok P s3 \<and> wrote s2 [(n2, view s n1)] s3 \<and> (\<forall>c m. owns s3 c m = owns s2 c m)"
      have lt: "b < length (bufs s3)" using w bio_okD(2) ownsD(1) [OF *(4)] by fastforce
      note pin = pin_simps(9-16) [OF lt]
      have "bio_ok (P - {n2}) (bunpin b s3)" by (rule bunpin_ok) (use w * n in auto)
      then show "okK (bindK (brelse a (bunpin b s3)) (\<lambda>_. brelse b))
          (\<lambda>_ s'. bio_ok (P - {n2}) s' \<and> wrote s [(n2, view s n1)] s')"
        using w * n ok(3) c ne pin
        by (intro okK_weaken [OF release_two]) (auto simp: wrote_def intro: bframe_trans)
    qed
  qed
qed

section \<open>The header block\<close>

definition head_bytes :: "int \<Rightarrow> uint list \<Rightarrow> uchar list \<Rightarrow> uchar list" where
  "head_bytes n bl d = fold (\<lambda>i d. put32 (4 + 4 * i) (bl ! i) d) [0..<nat n] (put32 0 (word_of_int n) d)"

definition head_n :: "uchar list \<Rightarrow> int" where
  "head_n h = sint (get32 h 0)"

definition head_blocks :: "uchar list \<Rightarrow> uint list" where
  "head_blocks h = map (\<lambda>i. get32 h (4 + 4 * i)) [0..<nat (head_n h)]"

lemma length_head_bytes [simp]: "length (head_bytes n bl d) = length d"
proof -
  have "length (fold (\<lambda>i d. put32 (4 + 4 * i) (bl ! i) d) is d) = length d" for "is" d
    by (induction "is" arbitrary: d) auto
  then show ?thesis by (simp add: head_bytes_def)
qed

text \<open>Reading back the header that was written.\<close>

lemma head_bytes_read:
  assumes "length d = BSIZE" and "n \<le> int LOGSIZE"
  shows "get32 (head_bytes n bl d) 0 = word_of_int n"
    and "i < nat n \<Longrightarrow> get32 (head_bytes n bl d) (4 + 4 * i) = bl ! i"
proof -
  let ?f = "\<lambda>i d. put32 (4 + 4 * i) (bl ! i) d"
  have *: "length (fold ?f [0..<k] e) = length e \<and> get32 (fold ?f [0..<k] e) 0 = get32 e 0 \<and>
      (\<forall>i < k. get32 (fold ?f [0..<k] e) (4 + 4 * i) = bl ! i)"
    if "length e = BSIZE" "k \<le> LOGSIZE" for e k
    using that(2)
  proof (induction k)
    case (Suc k)
    let ?e = "fold ?f [0..<k] e"
    have IH: "length ?e = length e" "get32 ?e 0 = get32 e 0" "\<And>i. i < k \<Longrightarrow> get32 ?e (4 + 4 * i) = bl ! i"
      using Suc by auto
    have "4 + 4 * k + 4 \<le> length ?e" using IH(1) that(1) Suc.prems by (simp add: param_defs)
    then show ?case using IH by (auto simp: byte_simps less_Suc_eq)
  qed simp
  have len: "length (put32 0 (word_of_int n) d) = BSIZE" "nat n \<le> LOGSIZE" using assms by auto
  have "get32 (put32 0 (word_of_int n :: uint) d) 0 = word_of_int n"
    using assms(1) by (simp add: byte_simps BSIZE_def)
  then show "get32 (head_bytes n bl d) 0 = word_of_int n"
    using * [OF len] by (simp add: head_bytes_def)
  show "i < nat n \<Longrightarrow> get32 (head_bytes n bl d) (4 + 4 * i) = bl ! i"
    using * [OF len] by (simp add: head_bytes_def)
qed

lemma sint_small: "0 \<le> n \<Longrightarrow> n \<le> int LOGSIZE \<Longrightarrow> sint (word_of_int n :: uint) = n"
  by (simp add: int_word_sint param_defs)

lemma head_roundtrip:
  assumes "length d = BSIZE" and "0 \<le> n" "n \<le> int LOGSIZE" "nat n \<le> length bl"
  shows "head_n (head_bytes n bl d) = n" "head_blocks (head_bytes n bl d) = take (nat n) bl"
proof -
  show n: "head_n (head_bytes n bl d) = n"
    unfolding head_n_def head_bytes_read(1) [OF assms(1,3)] by (rule sint_small [OF assms(2,3)])
  show "head_blocks (head_bytes n bl d) = take (nat n) bl"
    unfolding head_blocks_def n using assms head_bytes_read(2) [OF assms(1,3)]
    by (intro nth_equalityI) auto
qed

text \<open>Clearing the header leaves a count of zero.\<close>

lemma head_n_clear: "length d = BSIZE \<Longrightarrow> head_n (head_bytes 0 bl d) = 0"
  using head_bytes_read(1) [of d 0 bl] by (simp add: head_n_def)

section \<open>The log area\<close>

definition log_area :: "uint \<Rightarrow> int \<Rightarrow> uint set" where
  "log_area st sz = {n. unat st \<le> unat n \<and> unat n < unat st + nat sz}"

definition log_addr :: "uint \<Rightarrow> nat \<Rightarrow> uint" where
  "log_addr st i = st + of_nat i + 1"

definition log_fits :: "uint \<Rightarrow> int \<Rightarrow> bool" where
  "log_fits st sz \<longleftrightarrow> 2 \<le> sz \<and> sz \<le> int LOGSIZE \<and> unat st + nat sz < 2 ^ 32"

lemma unat_log_addr:
  assumes "log_fits st sz" and "i < nat (sz - 1)"
  shows "unat (log_addr st i) = unat st + i + 1"
proof -
  have "unat st + i + 1 < 2 ^ 32" using assms by (auto simp: log_fits_def)
  moreover have "i < 2 ^ 32" using assms by (auto simp: log_fits_def)
  ultimately show ?thesis
    by (simp add: log_addr_def unat_word_ariths unat_of_nat take_bit_eq_mod)
qed

lemma log_addr_area: "log_fits st sz \<Longrightarrow> i < nat (sz - 1) \<Longrightarrow> log_addr st i \<in> log_area st sz"
  using unat_log_addr [of st sz i] by (auto simp: log_area_def)

lemma log_addr_inj:
  "log_fits st sz \<Longrightarrow> i < nat (sz - 1) \<Longrightarrow> j < nat (sz - 1) \<Longrightarrow> log_addr st i = log_addr st j \<longleftrightarrow> i = j"
  using unat_log_addr [of st sz i] unat_log_addr [of st sz j] by (metis add_left_cancel add_right_cancel)

lemma log_addr_start: "log_fits st sz \<Longrightarrow> i < nat (sz - 1) \<Longrightarrow> log_addr st i \<noteq> st"
  using unat_log_addr [of st sz i] by auto

lemma start_area: "log_fits st sz \<Longrightarrow> st \<in> log_area st sz"
  by (auto simp: log_area_def log_fits_def)

lemma lg_start_upd [simp]:
  "bio_ok P (s\<lparr>lg_start := v\<rparr>) = bio_ok P s"
  "held (s\<lparr>lg_start := v\<rparr>) = held s"
  "view (s\<lparr>lg_start := v\<rparr>) = view s"
  "owns (s\<lparr>lg_start := v\<rparr>) b n = owns s b n"
  "mypid (s\<lparr>lg_start := v\<rparr>) = mypid s"
  by (rule bio_cong; simp)+

lemma lg_size_upd [simp]:
  "bio_ok P (s\<lparr>lg_size := v\<rparr>) = bio_ok P s"
  "held (s\<lparr>lg_size := v\<rparr>) = held s"
  "view (s\<lparr>lg_size := v\<rparr>) = view s"
  "owns (s\<lparr>lg_size := v\<rparr>) b n = owns s b n"
  "mypid (s\<lparr>lg_size := v\<rparr>) = mypid s"
  by (rule bio_cong; simp)+

lemma lg_outstanding_upd [simp]:
  "bio_ok P (s\<lparr>lg_outstanding := v\<rparr>) = bio_ok P s"
  "held (s\<lparr>lg_outstanding := v\<rparr>) = held s"
  "view (s\<lparr>lg_outstanding := v\<rparr>) = view s"
  "owns (s\<lparr>lg_outstanding := v\<rparr>) b n = owns s b n"
  "mypid (s\<lparr>lg_outstanding := v\<rparr>) = mypid s"
  by (rule bio_cong; simp)+

lemma lg_committing_upd [simp]:
  "bio_ok P (s\<lparr>lg_committing := v\<rparr>) = bio_ok P s"
  "held (s\<lparr>lg_committing := v\<rparr>) = held s"
  "view (s\<lparr>lg_committing := v\<rparr>) = view s"
  "owns (s\<lparr>lg_committing := v\<rparr>) b n = owns s b n"
  "mypid (s\<lparr>lg_committing := v\<rparr>) = mypid s"
  by (rule bio_cong; simp)+

lemma lg_dev_upd [simp]:
  "bio_ok P (s\<lparr>lg_dev := v\<rparr>) = bio_ok P s"
  "held (s\<lparr>lg_dev := v\<rparr>) = held s"
  "view (s\<lparr>lg_dev := v\<rparr>) = view s"
  "owns (s\<lparr>lg_dev := v\<rparr>) b n = owns s b n"
  "mypid (s\<lparr>lg_dev := v\<rparr>) = mypid s"
  by (rule bio_cong; simp)+

lemma lh_n_upd [simp]:
  "bio_ok P (s\<lparr>lh_n := v\<rparr>) = bio_ok P s"
  "held (s\<lparr>lh_n := v\<rparr>) = held s"
  "view (s\<lparr>lh_n := v\<rparr>) = view s"
  "owns (s\<lparr>lh_n := v\<rparr>) b n = owns s b n"
  "mypid (s\<lparr>lh_n := v\<rparr>) = mypid s"
  by (rule bio_cong; simp)+

lemma lh_block_upd [simp]:
  "bio_ok P (s\<lparr>lh_block := v\<rparr>) = bio_ok P s"
  "held (s\<lparr>lh_block := v\<rparr>) = held s"
  "view (s\<lparr>lh_block := v\<rparr>) = view s"
  "owns (s\<lparr>lh_block := v\<rparr>) b n = owns s b n"
  "mypid (s\<lparr>lh_block := v\<rparr>) = mypid s"
  by (rule bio_cong; simp)+

section \<open>The loops\<close>

lemma wrote_log_fields:
  assumes "wrote s ws s'"
  shows "lg_start s' = lg_start s" "lg_size s' = lg_size s" "lg_outstanding s' = lg_outstanding s"
    "lg_committing s' = lg_committing s" "lg_dev s' = lg_dev s" "lh_n s' = lh_n s" "lh_block s' = lh_block s"
  using assms bframe_log unfolding wrote_def by blast+

text \<open>Reading a block leaves the fields of the log alone, so the second read of a body uses them too.\<close>

lemma bread_then_block:
  "bindK (bread dev n s) (\<lambda>a t. if LOGSIZE \<le> k then Stuck else
     bindK (bread (lg_dev t) (lh_block t ! k) t) (g a)) =
   bindK (bread dev n s) (\<lambda>a t. if LOGSIZE \<le> k then Stuck else
     bindK (bread (lg_dev s) (lh_block s ! k) t) (g a))"
  by (rule bindK_cong) (auto dest!: bread_frame simp: bframe_log)

lemma wrote_Suc:
  assumes "wrote s (map f [0..<k]) s1" and "wrote s1 [f k] s2"
  shows "wrote s (map f [0..<Suc k]) s2"
  using wrote_trans [OF assms] by simp

lemma write_head_ok:
  assumes ok: "bio_ok P s" "finite P" "held s = {}" "card P < NBUF" and dev: "lg_dev s = ROOTDEV"
    and n: "lh_n s \<le> int LOGSIZE"
  shows "okK (write_head s) (\<lambda>_ s'. bio_ok P s' \<and>
     wrote s [(lg_start s, head_bytes (lh_n s) (lh_block s) (view s (lg_start s)))] s')"
  unfolding write_head_def dev
proof (rule okK_bindI [OF bread_idle [OF ok(1,2)]])
  show "card P + card (held s) < NBUF" "\<And>i. i \<in> held s \<Longrightarrow> \<not> caches s i (lg_start s)" using ok by auto
  fix b s1 assume 1: "bio_ok P s1 \<and> bread_post s (lg_start s) b s1"
  note p = bread_post_simps [OF 1 [THEN conjunct2]]
  note f = bframe_log [OF p(6)]
  let ?h = "head_bytes (lh_n s) (lh_block s) (view s (lg_start s))"
  have len: "length (view s (lg_start s)) = BSIZE" using 1 p(7,8) owns_length by metis
  have "okK (bindK (bwrite b (set_data b ?h s1)) (\<lambda>_. brelse b)) (\<lambda>_ s'. bio_ok P s' \<and> wrote s [(lg_start s, ?h)] s')"
  proof (rule okK_bindI [OF bwrite_new])
    fix u s2 assume 2: "bio_ok P s2 \<and> wrote s1 [(lg_start s, ?h)] s2 \<and> (\<forall>c m. owns s2 c m = owns s1 c m)"
    then show "okK (brelse b s2) (\<lambda>_ s'. bio_ok P s' \<and> wrote s [(lg_start s, ?h)] s')"
      using p ok(3)
      by (intro okK_weaken [OF brelse_ok [where n = "lg_start s"]])
        (auto simp: wrote_def brelse_post_simps intro: bframe_trans dest: brelse_post_simps(5))
  qed (use 1 p(7) len in auto)
  then show "okK (if int LOGSIZE < lh_n s1 then Stuck
      else let d = put32 0 (word_of_int (lh_n s1)) (b_data (buf_of s1 b));
               d = fold (\<lambda>i. put32 (4 + 4 * i) (lh_block s1 ! i)) [0..<nat (lh_n s1)] d;
               s = set_data b d s1
           in bindK (bwrite b s) (\<lambda>_. brelse b))
      (\<lambda>_ s'. bio_ok P s' \<and> wrote s [(lg_start s, ?h)] s')"
    using n f p(8) by (simp add: Let_def head_bytes_def)
qed

text \<open>
  The invariant of the log between operations: the blocks of the running transaction are
  pinned, they are distinct home blocks, and the header on the disk says that no
  transaction is committed.
\<close>

definition logged :: "'a log_st_scheme \<Rightarrow> uint list" where
  "logged s = take (nat (lh_n s)) (lh_block s)"

definition log_shape :: "'a log_st_scheme \<Rightarrow> bool" where
  "log_shape s \<longleftrightarrow> lg_dev s = ROOTDEV \<and> log_fits (lg_start s) (lg_size s) \<and>
     0 \<le> lh_n s \<and> lh_n s < lg_size s \<and> length (lh_block s) = LOGSIZE \<and> distinct (logged s) \<and>
     set (logged s) \<inter> log_area (lg_start s) (lg_size s) = {}"

definition log_ok :: "'a log_st_scheme \<Rightarrow> bool" where
  "log_ok s \<longleftrightarrow> bio_ok (set (logged s)) s \<and> log_shape s \<and> head_n (disk s (lg_start s)) = 0"

lemma log_shapeD:
  assumes "log_shape s"
  shows "lg_dev s = ROOTDEV" "log_fits (lg_start s) (lg_size s)" "lh_n s \<le> int LOGSIZE"
    "nat (lh_n s) \<le> nat (lg_size s - 1)" "length (logged s) = nat (lh_n s)"
    "card (set (logged s)) < NBUF" "distinct (logged s)"
    "n \<in> set (logged s) \<Longrightarrow> n \<notin> log_area (lg_start s) (lg_size s)"
    "i < nat (lh_n s) \<Longrightarrow> i < LOGSIZE \<and> logged s ! i = lh_block s ! i"
    "i < nat (lh_n s) \<Longrightarrow> log_addr (lg_start s) i \<in> log_area (lg_start s) (lg_size s)"
    "0 \<le> lh_n s" "length (lh_block s) = LOGSIZE"
proof -
  show *: "lg_dev s = ROOTDEV" "log_fits (lg_start s) (lg_size s)" "distinct (logged s)" "0 \<le> lh_n s"
    "length (lh_block s) = LOGSIZE"
    using assms by (auto simp: log_shape_def)
  have n: "0 \<le> lh_n s" "lh_n s < lg_size s" "lg_size s \<le> int LOGSIZE" "length (lh_block s) = LOGSIZE"
    using assms by (auto simp: log_shape_def log_fits_def)
  then show "lh_n s \<le> int LOGSIZE" and le: "nat (lh_n s) \<le> nat (lg_size s - 1)" by auto
  show len: "length (logged s) = nat (lh_n s)" using n by (simp add: logged_def)
  show "card (set (logged s)) < NBUF"
    using distinct_card [OF *(3)] len n by (simp add: param_defs)
  show "n \<in> set (logged s) \<Longrightarrow> n \<notin> log_area (lg_start s) (lg_size s)"
    using assms by (auto simp: log_shape_def)
  show "i < nat (lh_n s) \<Longrightarrow> i < LOGSIZE \<and> logged s ! i = lh_block s ! i"
    using n by (simp add: logged_def)
  show "i < nat (lh_n s) \<Longrightarrow> log_addr (lg_start s) i \<in> log_area (lg_start s) (lg_size s)"
    using log_addr_area [OF *(2)] le by simp
qed

lemma wrote_shape: "wrote s ws s' \<Longrightarrow> logged s' = logged s \<and> log_shape s' = log_shape s"
  by (simp add: log_shape_def logged_def wrote_log_fields)

definition log_copies :: "uint \<Rightarrow> uint list \<Rightarrow> (uint \<Rightarrow> uchar list) \<Rightarrow> writes" where
  "log_copies st bl v = map (\<lambda>i. (log_addr st i, v (bl ! i))) [0..<length bl]"

definition home_copies :: "uint \<Rightarrow> uint list \<Rightarrow> (uint \<Rightarrow> uchar list) \<Rightarrow> writes" where
  "home_copies st bl v = map (\<lambda>i. (bl ! i, v (log_addr st i))) [0..<length bl]"

lemma write_log_ok:
  assumes ok: "bio_ok (set (logged s)) s" "log_shape s" and h: "held s = {}"
  shows "okK (write_log s) (\<lambda>_ s'. bio_ok (set (logged s)) s' \<and>
     wrote s (log_copies (lg_start s) (logged s) (view s)) s')"
proof -
  note l = log_shapeD [OF ok(2)]
  let ?n = "nat (lh_n s)" and ?P = "set (logged s)"
  let ?W = "\<lambda>k. map (\<lambda>i. (log_addr (lg_start s) i, view s (logged s ! i))) [0..<k]"
  have "okK (write_log s) (\<lambda>_ s'. bio_ok ?P s' \<and> wrote s (?W ?n) s')"
    unfolding write_log_def
  proof (rule forK_upt_ok [where I = "\<lambda>k s'. bio_ok ?P s' \<and> wrote s (?W k) s'"])
    fix k s1 assume k: "k < ?n" and I: "bio_ok ?P s1 \<and> wrote s (?W k) s1"
    let ?n1 = "log_addr (lg_start s) k" and ?n2 = "logged s ! k"
    note f = wrote_log_fields [OF I [THEN conjunct2]]
    have n2: "?n2 \<in> ?P" using k l(5) by simp
    have n1: "?n1 \<notin> ?P" using l(8) l(10) [OF k] by blast
    have "?n2 \<notin> fst ` set (?W k)" using l(8) [OF n2] l(10) k by fastforce
    then have v: "view s1 ?n2 = view s ?n2" using I by (simp add: wrote_def apply_writes_other)
    have "held s1 = {}" using I h by (simp add: wrote_def)
    note step = write_log_step [OF I [THEN conjunct1] finite_set this l(6) n1 n2, unfolded v]
    have lt: "(LOGSIZE \<le> k) = False" "lh_block s ! k = ?n2" using l(9) [OF k] by auto
    show "okK (bindK (bread (lg_dev s1) (lg_start s1 + of_nat k + 1) s1) (\<lambda>to s.
        if LOGSIZE \<le> k then Stuck else bindK (bread (lg_dev s) (lh_block s ! k) s) (\<lambda>from s.
        let s = set_data to (b_data (buf_of s from)) s in
        bindK (bwrite to s) (\<lambda>_ s. bindK (brelse from s) (\<lambda>_ s. brelse to s)))))
      (\<lambda>_ s'. bio_ok ?P s' \<and> wrote s (?W (Suc k)) s')"
      unfolding bread_then_block unfolding f l(1) log_addr_def [symmetric] lt if_False
      by (rule okK_weaken [OF step]) (use I wrote_Suc in blast)
  qed (use ok(1) in auto)
  then show ?thesis by (simp add: log_copies_def l(5))
qed

lemma install_trans_recover_ok:
  assumes ok: "bio_ok {} s" "log_shape s" and h: "held s = {}"
  shows "okK (install_trans 1 s) (\<lambda>_ s'. bio_ok {} s' \<and>
     wrote s (home_copies (lg_start s) (logged s) (view s)) s')"
proof -
  note l = log_shapeD [OF ok(2)]
  let ?n = "nat (lh_n s)"
  let ?W = "\<lambda>k. map (\<lambda>i. (logged s ! i, view s (log_addr (lg_start s) i))) [0..<k]"
  have "okK (install_trans 1 s) (\<lambda>_ s'. bio_ok {} s' \<and> wrote s (?W ?n) s')"
    unfolding install_trans_def
  proof (rule forK_upt_ok [where I = "\<lambda>k s'. bio_ok {} s' \<and> wrote s (?W k) s'"])
    fix k s1 assume k: "k < ?n" and I: "bio_ok {} s1 \<and> wrote s (?W k) s1"
    let ?n1 = "log_addr (lg_start s) k" and ?n2 = "logged s ! k"
    note f = wrote_log_fields [OF I [THEN conjunct2]]
    have home: "logged s ! i \<noteq> ?n1" if "i < ?n" for i
      using l(8) [OF nth_mem, of i] l(10) [OF k] l(5) that by metis
    have "?n1 \<notin> fst ` set (?W k)" using home [symmetric] k by (auto simp: image_iff)
    then have v: "view s1 ?n1 = view s ?n1" using I by (simp add: wrote_def apply_writes_other)
    have "held s1 = {}" using I h by (simp add: wrote_def)
    note step = install_step_recover [OF I [THEN conjunct1] this home [OF k, symmetric], unfolded v]
    have lt: "(LOGSIZE \<le> k) = False" "lh_block s ! k = ?n2" using l(9) [OF k] by auto
    show "okK (bindK (bread (lg_dev s1) (lg_start s1 + of_nat k + 1) s1) (\<lambda>lbuf s.
        if LOGSIZE \<le> k then Stuck else bindK (bread (lg_dev s) (lh_block s ! k) s) (\<lambda>dbuf s.
        let s = set_data dbuf (b_data (buf_of s lbuf)) s in
        bindK (bwrite dbuf s) (\<lambda>_ s. let s = if (1 :: int) = 0 then bunpin dbuf s else s in
          bindK (brelse lbuf s) (\<lambda>_ s. brelse dbuf s)))))
      (\<lambda>_ s'. bio_ok {} s' \<and> wrote s (?W (Suc k)) s')"
      unfolding bread_then_block unfolding f l(1) log_addr_def [symmetric] lt if_False Let_def
      using step I wrote_Suc by (simp add: Let_def) (blast intro: okK_weaken)
  qed (use ok(1) in auto)
  then show ?thesis by (simp add: home_copies_def l(5))
qed

lemma install_trans_commit_ok:
  assumes ok: "bio_ok (set (logged s)) s" "log_shape s" and h: "held s = {}"
  shows "okK (install_trans 0 s) (\<lambda>_ s'. bio_ok {} s' \<and>
     wrote s (home_copies (lg_start s) (logged s) (view s)) s')"
proof -
  note l = log_shapeD [OF ok(2)]
  let ?n = "nat (lh_n s)" and ?P = "\<lambda>k. set (drop k (logged s))"
  let ?W = "\<lambda>k. map (\<lambda>i. (logged s ! i, view s (log_addr (lg_start s) i))) [0..<k]"
  have "okK (install_trans 0 s) (\<lambda>_ s'. bio_ok (?P ?n) s' \<and> wrote s (?W ?n) s')"
    unfolding install_trans_def
  proof (rule forK_upt_ok [where I = "\<lambda>k s'. bio_ok (?P k) s' \<and> wrote s (?W k) s'"])
    fix k s1 assume k: "k < ?n" and I: "bio_ok (?P k) s1 \<and> wrote s (?W k) s1"
    let ?n1 = "log_addr (lg_start s) k" and ?n2 = "logged s ! k"
    note f = wrote_log_fields [OF I [THEN conjunct2]]
    have home: "logged s ! i \<noteq> ?n1" if "i < ?n" for i
      using l(8) [OF nth_mem, of i] l(10) [OF k] l(5) that by metis
    have "?n1 \<notin> fst ` set (?W k)" using home [symmetric] k by (auto simp: image_iff)
    then have v: "view s1 ?n1 = view s ?n1" using I by (simp add: wrote_def apply_writes_other)
    have drop: "drop k (logged s) = ?n2 # drop (Suc k) (logged s)" using k l(5) by (simp add: Cons_nth_drop_Suc)
    have "distinct (drop k (logged s))" using l(7) by simp
    then have P: "?n2 \<in> ?P k" "?P k - {?n2} = ?P (Suc k)" by (auto simp: drop)
    have sub: "?P k \<subseteq> set (logged s)" by (rule set_drop_subset)
    then have n1: "?n1 \<notin> ?P k" using l(8) l(10) [OF k] by blast
    have small: "card (?P k) < NBUF" using card_mono [OF _ sub] l(6) by simp
    have "held s1 = {}" using I h by (simp add: wrote_def)
    note step = install_step_commit [OF I [THEN conjunct1] finite_set this small n1 P(1), unfolded v P(2)]
    have lt: "(LOGSIZE \<le> k) = False" "lh_block s ! k = ?n2" using l(9) [OF k] by auto
    show "okK (bindK (bread (lg_dev s1) (lg_start s1 + of_nat k + 1) s1) (\<lambda>lbuf s.
        if LOGSIZE \<le> k then Stuck else bindK (bread (lg_dev s) (lh_block s ! k) s) (\<lambda>dbuf s.
        let s = set_data dbuf (b_data (buf_of s lbuf)) s in
        bindK (bwrite dbuf s) (\<lambda>_ s. let s = if (0 :: int) = 0 then bunpin dbuf s else s in
          bindK (brelse lbuf s) (\<lambda>_ s. brelse dbuf s)))))
      (\<lambda>_ s'. bio_ok (?P (Suc k)) s' \<and> wrote s (?W (Suc k)) s')"
      unfolding bread_then_block unfolding f l(1) log_addr_def [symmetric] lt if_False Let_def
      using step I wrote_Suc by (simp add: Let_def) (blast intro: okK_weaken)
  qed (use ok(1) in auto)
  then show ?thesis by (simp add: home_copies_def l(5))
qed

section \<open>Commit and recovery\<close>

text \<open>The writes of one commit and of one recovery, in the order they reach the disk.\<close>

definition commit_writes :: "uint \<Rightarrow> uint list \<Rightarrow> (uint \<Rightarrow> uchar list) \<Rightarrow> writes" where
  "commit_writes st bl v =
     (let h = head_bytes (int (length bl)) bl (v st) in
      log_copies st bl v @ [(st, h)] @ map (\<lambda>n. (n, v n)) bl @ [(st, head_bytes 0 bl h)])"

definition recover_writes :: "uint \<Rightarrow> (uint \<Rightarrow> uchar list) \<Rightarrow> writes" where
  "recover_writes st d = home_copies st (head_blocks (d st)) d @ [(st, head_bytes 0 [] (d st))]"

definition recovered :: "uint \<Rightarrow> (uint \<Rightarrow> uchar list) \<Rightarrow> uint \<Rightarrow> uchar list" where
  "recovered st d = apply_writes (recover_writes st d) d"

text \<open>A header that recovery can act on: its blocks are distinct home blocks.\<close>

definition valid_head :: "uint \<Rightarrow> int \<Rightarrow> uchar list \<Rightarrow> bool" where
  "valid_head st sz h \<longleftrightarrow> 0 \<le> head_n h \<and> head_n h < sz \<and> distinct (head_blocks h) \<and>
     set (head_blocks h) \<inter> log_area st sz = {}"

lemma fst_log_copies: "fst ` set (log_copies st bl v) = log_addr st ` {0..<length bl}"
  by (simp add: log_copies_def image_image)

lemma fst_home_copies: "fst ` set (home_copies st bl v) = set bl"
  by (simp add: home_copies_def image_image nth_image)

lemma log_copies_at:
  assumes "log_fits st sz" and "length bl \<le> nat (sz - 1)" and "i < length bl"
  shows "apply_writes (log_copies st bl v) d (log_addr st i) = v (bl ! i)"
proof (rule apply_writes_same)
  show "b = v (bl ! i)" if "(log_addr st i, b) \<in> set (log_copies st bl v)" for b
  proof -
    obtain x where x: "x < length bl" "log_addr st i = log_addr st x" "b = v (bl ! x)"
      using \<open>(log_addr st i, b) \<in> set (log_copies st bl v)\<close> by (auto simp: log_copies_def)
    then have "i = x" using log_addr_inj [OF assms(1), of i x] assms(2,3) by simp
    with x(3) show ?thesis by simp
  qed
  show "log_addr st i \<in> fst ` set (log_copies st bl v) \<or> d (log_addr st i) = v (bl ! i)"
    using assms(3) by (auto simp: fst_log_copies)
qed

lemma home_copies_at:
  assumes "distinct bl" and "i < length bl"
  shows "apply_writes (home_copies st bl v) d (bl ! i) = v (log_addr st i)"
proof (rule apply_writes_same)
  show "b = v (log_addr st i)" if "(bl ! i, b) \<in> set (home_copies st bl v)" for b
    using that assms by (auto simp: home_copies_def nth_eq_iff_index_eq)
  show "bl ! i \<in> fst ` set (home_copies st bl v) \<or> d (bl ! i) = v (log_addr st i)"
    using assms(2) by (auto simp: fst_home_copies)
qed

lemma head_bytes_take: "head_bytes n (take (nat n) bl) d = head_bytes n bl d"
proof -
  have "fold (\<lambda>i d. put32 (4 + 4 * i) (take (nat n) bl ! i) d) [0..<nat n] e =
    fold (\<lambda>i d. put32 (4 + 4 * i) (bl ! i) d) [0..<nat n] e" for e
    by (rule fold_cong) auto
  then show ?thesis by (simp add: head_bytes_def)
qed

lemma bframe_lh:
  assumes "bframe s s'"
  shows "bframe (s\<lparr>lh_n := v\<rparr>) (s'\<lparr>lh_n := v\<rparr>)"
    and "bframe (s\<lparr>lh_block := b\<rparr>) (s'\<lparr>lh_block := b\<rparr>)"
proof -
  from assms obtain ps bs d w where a: "s' = s\<lparr>procs := ps, bufs := bs, disk := d, dwrites := w\<rparr>"
    "stateless ps = stateless (procs s)" by (rule bframeE)
  show "bframe (s\<lparr>lh_n := v\<rparr>) (s'\<lparr>lh_n := v\<rparr>)" "bframe (s\<lparr>lh_block := b\<rparr>) (s'\<lparr>lh_block := b\<rparr>)"
    using a by (auto intro!: bframeI [where ps = ps and bs = bs and d = d and w = w])
qed

lemma wrote_lh:
  "wrote s ws s' \<Longrightarrow> wrote (s\<lparr>lh_n := v\<rparr>) ws (s'\<lparr>lh_n := v\<rparr>)"
  by (simp add: wrote_def bframe_lh)

text \<open>\<^verbatim>\<open>commit\<close> returns, and this is all it writes.\<close>

lemma commit_ok:
  assumes ok: "log_ok s" and h: "held s = {}" and n: "0 < lh_n s"
  shows "okK (commit s) (\<lambda>_ s'. bio_ok {} s' \<and>
     wrote (s\<lparr>lh_n := 0\<rparr>) (commit_writes (lg_start s) (logged s) (view s)) s')"
proof -
  let ?st = "lg_start s" and ?bl = "logged s" and ?P = "set (logged s)"
  have b: "bio_ok ?P s" "log_shape s" using ok by (auto simp: log_ok_def)
  note l = log_shapeD [OF b(2)]
  let ?h = "head_bytes (int (length ?bl)) ?bl (view s ?st)"
  let ?W1 = "log_copies ?st ?bl (view s)" and ?W3 = "map (\<lambda>n. (n, view s n)) ?bl"
  have hb: "head_bytes (lh_n s) (lh_block s) d = head_bytes (int (length ?bl)) ?bl d" for d
    using head_bytes_take [of "lh_n s" "lh_block s" d] l(5,11) by (simp add: logged_def)
  have st: "?st \<notin> ?P" using l(8) start_area [OF l(2)] by blast
  have "okK (bindK (write_log s) (\<lambda>_ s. bindK (write_head s) (\<lambda>_ s. bindK (install_trans 0 s) (\<lambda>_ s.
        write_head (s\<lparr>lh_n := 0\<rparr>))))) (\<lambda>_ s'. bio_ok {} s' \<and> wrote (s\<lparr>lh_n := 0\<rparr>)
        ((?W1 @ [(?st, ?h)]) @ ?W3 @ [(?st, head_bytes 0 ?bl ?h)]) s')"
  proof (rule okK_bindI [OF write_log_ok [OF b h]], elim conjE)
    fix u1 s1 assume s1: "bio_ok ?P s1" "wrote s ?W1 s1"
    note f1 = wrote_log_fields [OF s1(2)]
    have h1: "held s1 = {}" using s1 h by (simp add: wrote_def)
    have "?st \<notin> fst ` set ?W1"
      using log_addr_start [OF l(2), symmetric] l(4,5) by (auto simp: fst_log_copies)
    then have v1: "view s1 ?st = view s ?st" using s1 by (simp add: wrote_def apply_writes_other)
    show "okK (bindK (write_head s1) (\<lambda>_ s. bindK (install_trans 0 s) (\<lambda>_ s. write_head (s\<lparr>lh_n := 0\<rparr>))))
        (\<lambda>_ s'. bio_ok {} s' \<and> wrote (s\<lparr>lh_n := 0\<rparr>)
          ((?W1 @ [(?st, ?h)]) @ ?W3 @ [(?st, head_bytes 0 ?bl ?h)]) s')"
    proof (rule okK_bindI [OF write_head_ok [OF s1(1) finite_set h1 l(6)]], simp_all add: f1 l(1,3), elim conjE)
      fix s2 assume s2: "bio_ok ?P s2" "wrote s1 [(?st, head_bytes (lh_n s) (lh_block s) (view s1 ?st))] s2"
      have w2: "wrote s (?W1 @ [(?st, ?h)]) s2" using wrote_trans [OF s1(2) s2(2)] by (simp add: hb v1)
      note sh = wrote_shape [OF w2] and f2 = wrote_log_fields [OF w2]
      have v2: "view s2 = (apply_writes ?W1 (view s))(?st := ?h)" using w2 by (simp add: wrote_def)
      have homes: "home_copies ?st ?bl (view s2) = ?W3"
        unfolding home_copies_def v2
        using log_copies_at [OF l(2)] log_addr_start [OF l(2)] l(4,5)
        by (intro nth_equalityI) auto
      have h2: "held s2 = {}" using w2 h by (simp add: wrote_def)
      have b2: "bio_ok (set (logged s2)) s2" "log_shape s2" using s2(1) sh b(2) by auto
      have i: "okK (install_trans 0 s2) (\<lambda>_ s'. bio_ok {} s' \<and> wrote s2 ?W3 s')"
        using install_trans_commit_ok [OF b2 h2] by (simp add: f2 sh homes)
      show "okK (bindK (install_trans 0 s2) (\<lambda>_ s. write_head (s\<lparr>lh_n := 0\<rparr>)))
        (\<lambda>_ s'. bio_ok {} s' \<and> wrote (s\<lparr>lh_n := 0\<rparr>)
          (?W1 @ (?st, ?h) # ?W3 @ [(?st, head_bytes 0 ?bl ?h)]) s')"
      proof (rule okK_bindI [OF i], elim conjE)
        fix u3 s3 assume s3: "bio_ok {} s3" "wrote s2 ?W3 s3"
        note w3 = wrote_trans [OF w2 s3(2)]
        note f3 = wrote_log_fields [OF w3]
        have "?st \<notin> fst ` set ?W3" using st by auto
        then have v3: "view s3 ?st = ?h" using s3(2) v2 by (simp add: wrote_def apply_writes_other)
        have h3: "held s3 = {}" using w3 h by (simp add: wrote_def)
        let ?t = "s3\<lparr>lh_n := 0\<rparr>"
        have "okK (write_head ?t) (\<lambda>_ s'. bio_ok {} s' \<and> wrote ?t [(?st, head_bytes 0 (lh_block s) ?h)] s')"
          using write_head_ok [of "{}" ?t] s3(1) h3 f3 l(1) v3 by (simp add: param_defs)
        moreover have "head_bytes 0 (lh_block s) ?h = head_bytes 0 ?bl ?h" by (simp add: head_bytes_def)
        ultimately show "okK (write_head ?t) (\<lambda>_ s'. bio_ok {} s' \<and> wrote (s\<lparr>lh_n := 0\<rparr>)
          (?W1 @ (?st, ?h) # ?W3 @ [(?st, head_bytes 0 ?bl ?h)]) s')"
          using wrote_trans [OF wrote_lh [OF w3, of 0]] by (auto elim!: okK_weaken)
      qed
    qed
  qed
  then show ?thesis using n by (simp add: commit_def commit_writes_def Let_def)
qed

text \<open>Recovery returns, and this is all it writes.\<close>

lemma read_head_ok:
  assumes ok: "bio_ok {} s" "held s = {}" and dev: "lg_dev s = ROOTDEV" and len: "length (lh_block s) = LOGSIZE"
    and n: "head_n (disk s (lg_start s)) \<le> int LOGSIZE"
  shows "okK (read_head s) (\<lambda>_ s'. bio_ok {} s' \<and> wrote (s\<lparr>lh_n := head_n (disk s (lg_start s)),
     lh_block := lh_block s'\<rparr>) [] s' \<and> length (lh_block s') = LOGSIZE \<and> logged s' = head_blocks (disk s (lg_start s)))"
proof -
  let ?h = "disk s (lg_start s)"
  let ?bl = "fold (\<lambda>i bl. bl[i := get32 ?h (4 + 4 * i)]) [0..<nat (head_n ?h)] (lh_block s)"
  have fold: "length (fold (\<lambda>i bl. bl[i := get32 ?h (4 + 4 * i)]) [0..<k] bs) = length bs \<and>
      (\<forall>i < k. fold (\<lambda>i bl. bl[i := get32 ?h (4 + 4 * i)]) [0..<k] bs ! i = get32 ?h (4 + 4 * i))"
    if "k \<le> length bs" for k and bs :: "uint list"
    using that by (induction k) (auto simp: nth_upd less_Suc_eq)
  have bl: "length ?bl = LOGSIZE" "take (nat (head_n ?h)) ?bl = head_blocks ?h"
    using fold [of "nat (head_n ?h)" "lh_block s"] len n
    by (auto simp: head_blocks_def intro!: nth_equalityI)
  have v: "view s (lg_start s) = ?h" by (rule view_clean [OF ok(1)]) (use ok in auto)
  show ?thesis
    unfolding read_head_def dev
  proof (rule okK_bindI [OF bread_idle [OF ok(1)]])
    show "card ({} :: uint set) + card (held s) < NBUF" using ok by (simp add: param_defs)
    fix b s1 assume 1: "bio_ok {} s1 \<and> bread_post s (lg_start s) b s1"
    note p = bread_post_simps [OF 1 [THEN conjunct2]]
    note f = bframe_log [OF p(6)]
    let ?t = "s1\<lparr>lh_n := head_n ?h, lh_block := ?bl\<rparr>"
    have "okK (brelse b ?t) (\<lambda>_ s'. bio_ok {} s' \<and> brelse_post ?t b s')"
      by (rule brelse_ok) (use 1 p v in auto)
    moreover have "bframe (s\<lparr>lh_n := head_n ?h, lh_block := ?bl\<rparr>) ?t" by (intro bframe_lh p(6))
    ultimately have "okK (brelse b ?t) (\<lambda>_ s'. bio_ok {} s' \<and> wrote (s\<lparr>lh_n := head_n ?h,
        lh_block := lh_block s'\<rparr>) [] s' \<and> length (lh_block s') = LOGSIZE \<and> logged s' = head_blocks ?h)"
    proof (elim okK_weaken conjE)
      fix u s' assume *: "bframe (s\<lparr>lh_n := head_n ?h, lh_block := ?bl\<rparr>) ?t" "bio_ok {} s'" "brelse_post ?t b s'"
      note q = brelse_post_simps [OF *(3)]
      note g = bframe_log [OF q(5)] bframe_trans [OF *(1) q(5)]
      have "lh_block s' = ?bl" "lh_n s' = head_n ?h" using g by simp_all
      then show "bio_ok {} s' \<and> wrote (s\<lparr>lh_n := head_n ?h, lh_block := lh_block s'\<rparr>) [] s' \<and>
          length (lh_block s') = LOGSIZE \<and> logged s' = head_blocks ?h"
        using *(2) p q g(8) ok(2) bl by (simp add: wrote_def logged_def)
    qed
    then show "okK (let d = b_data (buf_of s1 b); s = s1\<lparr>lh_n := sint (get32 d 0)\<rparr> in
        if int LOGSIZE < lh_n s then Stuck else
        let s = s\<lparr>lh_block := fold (\<lambda>i bl. bl[i := get32 d (4 + 4 * i)]) [0..<nat (lh_n s)] (lh_block s)\<rparr>
        in brelse b s) (\<lambda>_ s'. bio_ok {} s' \<and> wrote (s\<lparr>lh_n := head_n ?h,
        lh_block := lh_block s'\<rparr>) [] s' \<and> length (lh_block s') = LOGSIZE \<and> logged s' = head_blocks ?h)"
      using n f p(8) v by (simp add: Let_def head_n_def)
  qed (use ok in auto)
qed

lemma recover_from_log_ok:
  assumes ok: "bio_ok {} s" "held s = {}" and dev: "lg_dev s = ROOTDEV" and len: "length (lh_block s) = LOGSIZE"
    and fits: "log_fits (lg_start s) (lg_size s)" and vh: "valid_head (lg_start s) (lg_size s) (disk s (lg_start s))"
  shows "okK (recover_from_log s) (\<lambda>_ s'. log_ok s' \<and> lh_n s' = 0 \<and> held s' = {} \<and>
     lg_start s' = lg_start s \<and> lg_size s' = lg_size s \<and> lg_outstanding s' = lg_outstanding s \<and>
     disk s' = recovered (lg_start s) (disk s) \<and> dwrites s' = dwrites s @ recover_writes (lg_start s) (disk s))"
proof -
  let ?st = "lg_start s" and ?h = "disk s (lg_start s)" and ?bl = "head_blocks (disk s (lg_start s))"
  let ?W = "home_copies ?st ?bl (disk s)"
  have v: "view s = disk s" by (rule ext, rule view_clean [OF ok(1)]) (use ok in auto)
  have n: "0 \<le> head_n ?h" "head_n ?h < lg_size s" "head_n ?h \<le> int LOGSIZE"
    using vh fits by (auto simp: valid_head_def log_fits_def)
  have stn: "?st \<notin> set ?bl" using vh start_area [OF fits] by (auto simp: valid_head_def)
  have hlen: "length ?h = BSIZE" by (rule bio_okD(3) [OF ok(1)])
  show ?thesis
    unfolding recover_from_log_def
  proof (rule okK_bindI [OF read_head_ok [OF ok dev len n(3)]], elim conjE)
    fix u s1 assume s1: "bio_ok {} s1" "wrote (s\<lparr>lh_n := head_n ?h, lh_block := lh_block s1\<rparr>) [] s1"
      "length (lh_block s1) = LOGSIZE" "logged s1 = ?bl"
    note f1 = wrote_log_fields(1-6) [OF s1(2), simplified]
    have w1: "held s1 = {}" "view s1 = disk s" "disk s1 = disk s" "dwrites s1 = dwrites s"
      using s1(2) v ok(2) by (simp_all add: wrote_def)
    have sh: "log_shape s1"
      using s1(3,4) f1 n vh fits dev by (simp add: log_shape_def valid_head_def)
    show "okK (bindK (install_trans 1 s1) (\<lambda>_ s. write_head (s\<lparr>lh_n := 0\<rparr>)))
      (\<lambda>_ s'. log_ok s' \<and> lh_n s' = 0 \<and> held s' = {} \<and> lg_start s' = ?st \<and> lg_size s' = lg_size s \<and>
        lg_outstanding s' = lg_outstanding s \<and>
        disk s' = recovered ?st (disk s) \<and> dwrites s' = dwrites s @ recover_writes ?st (disk s))"
    proof (rule okK_bindI [OF install_trans_recover_ok [OF s1(1) sh w1(1)]], elim conjE)
      fix u s2 assume s2: "bio_ok {} s2" "wrote s1 (home_copies (lg_start s1) (logged s1) (view s1)) s2"
      note f2 = wrote_log_fields [OF s2(2), unfolded f1, simplified]
      have w2: "wrote s1 ?W s2" using s2(2) f1 s1(4) w1 by simp
      have "view s2 ?st = ?h"
        using w2 w1 stn by (simp add: wrote_def apply_writes_other fst_home_copies)
      then have wh: "okK (write_head (s2\<lparr>lh_n := 0\<rparr>)) (\<lambda>_ s'. bio_ok {} s' \<and>
          wrote (s2\<lparr>lh_n := 0\<rparr>) [(?st, head_bytes 0 (lh_block s2) ?h)] s')"
        using write_head_ok [of "{}" "s2\<lparr>lh_n := 0\<rparr>"] s2(1) w2 w1(1) f2 dev by (simp add: wrote_def param_defs)
      show "okK (write_head (s2\<lparr>lh_n := 0\<rparr>)) (\<lambda>_ s'. log_ok s' \<and> lh_n s' = 0 \<and> held s' = {} \<and>
          lg_start s' = ?st \<and> lg_size s' = lg_size s \<and> lg_outstanding s' = lg_outstanding s \<and>
          disk s' = recovered ?st (disk s) \<and> dwrites s' = dwrites s @ recover_writes ?st (disk s))"
      proof (rule okK_weaken [OF wh], elim conjE)
        fix u s3 assume s3: "bio_ok {} s3" "wrote (s2\<lparr>lh_n := 0\<rparr>) [(?st, head_bytes 0 (lh_block s2) ?h)] s3"
        note f3 = wrote_log_fields [OF s3(2), simplified, unfolded f2]
        have hb: "head_bytes 0 (lh_block s2) ?h = head_bytes 0 [] ?h" by (simp add: head_bytes_def)
        have w3: "disk s3 = recovered ?st (disk s)" "dwrites s3 = dwrites s @ recover_writes ?st (disk s)" "held s3 = {}"
          using s3(2) w2 w1 by (simp_all add: wrote_def recovered_def recover_writes_def hb)
        have "disk s3 ?st = head_bytes 0 [] ?h" using s3(2) hb by (simp add: wrote_def)
        then have "head_n (disk s3 ?st) = 0" using head_n_clear [OF hlen] by simp
        then have "log_ok s3"
          using s3(1) f3 dev fits s1(3) f2(7) by (auto simp: log_ok_def log_shape_def logged_def log_fits_def)
        then show "log_ok s3 \<and> lh_n s3 = 0 \<and> held s3 = {} \<and>
          lg_start s3 = ?st \<and> lg_size s3 = lg_size s \<and> lg_outstanding s3 = lg_outstanding s \<and>
          disk s3 = recovered ?st (disk s) \<and> dwrites s3 = dwrites s @ recover_writes ?st (disk s)"
          using w3 f3 by simp
      qed
    qed
  qed
qed

section \<open>Crashes\<close>

lemma head_blocks_clear: "head_n h = 0 \<Longrightarrow> head_blocks h = []"
  by (simp add: head_blocks_def)

lemma recovered_clear: "head_n (d st) = 0 \<Longrightarrow> n \<noteq> st \<Longrightarrow> recovered st d n = d n"
  by (simp add: recovered_def recover_writes_def head_blocks_clear home_copies_def)

lemma recovered_home:
  assumes "distinct (head_blocks (d st))" and "st \<notin> set (head_blocks (d st))"
  shows "i < length (head_blocks (d st)) \<Longrightarrow> recovered st d (head_blocks (d st) ! i) = d (log_addr st i)"
    and "n \<noteq> st \<Longrightarrow> n \<notin> set (head_blocks (d st)) \<Longrightarrow> recovered st d n = d n"
proof -
  let ?bl = "head_blocks (d st)"
  show "recovered st d (?bl ! i) = d (log_addr st i)" if "i < length ?bl"
  proof -
    have "?bl ! i \<noteq> st" using assms(2) nth_mem [OF that] by metis
    then show ?thesis
      using home_copies_at [OF assms(1) that] by (simp add: recovered_def recover_writes_def)
  qed
  show "recovered st d n = d n" if "n \<noteq> st" "n \<notin> set ?bl"
    using that by (simp add: recovered_def recover_writes_def apply_writes_other fst_home_copies)
qed

text \<open>A disk on which the header and the log blocks hold the transaction \<open>bl\<close> with contents \<open>v\<close>.\<close>

lemma recovered_committed:
  assumes "head_blocks (d st) = bl" "distinct bl" "st \<notin> set bl"
    and "\<And>i. i < length bl \<Longrightarrow> d (log_addr st i) = v (bl ! i)" and "\<And>n. n \<notin> A \<Longrightarrow> n \<notin> set bl \<Longrightarrow> d n = v n"
    and "st \<in> A" "n \<notin> A"
  shows "recovered st d n = v n"
proof (cases "n \<in> set bl")
  case True
  then obtain i where "i < length bl" "n = bl ! i" by (auto simp: in_set_conv_nth)
  then show ?thesis using recovered_home(1) [of d st i] assms by simp
next
  case False
  moreover have "n \<noteq> st" using assms(6,7) by blast
  ultimately show ?thesis using recovered_home(2) [of d st n] assms(1-3) assms(5) [OF assms(7)] by simp
qed

lemma set_take_fst: "n \<in> fst ` set (take k ws) \<Longrightarrow> n \<in> fst ` set ws"
  using set_take_subset by fastforce

lemma valid_head_clear: "log_fits st sz \<Longrightarrow> head_n h = 0 \<Longrightarrow> valid_head st sz h"
  by (simp add: valid_head_def head_blocks_clear log_fits_def)

text \<open>Before the header is written, nothing outside the log area has changed.\<close>

lemma crash_before_head:
  fixes v :: "uint \<Rightarrow> uchar list"
  assumes "log_fits st sz" "length bl \<le> nat (sz - 1)" "head_n (d st) = 0" "k \<le> length bl" "n \<notin> log_area st sz"
  defines "dk \<equiv> apply_writes (take k (commit_writes st bl v)) d"
  shows "valid_head st sz (dk st)" "recovered st dk n = d n"
proof -
  have t: "take k (commit_writes st bl v) = take k (log_copies st bl v)"
    using assms(4) by (simp add: commit_writes_def Let_def log_copies_def)
  have "m \<in> log_area st sz \<and> m \<noteq> st" if "m \<in> fst ` set (take k (log_copies st bl v))" for m
    using set_take_fst [OF that] assms(2) log_addr_area [OF assms(1)] log_addr_start [OF assms(1)]
    by (auto simp: fst_log_copies)
  then have "dk st = d st" "dk n = d n"
    using assms(5) unfolding dk_def t by (blast intro: apply_writes_other)+
  moreover have "n \<noteq> st" using start_area [OF assms(1)] assms(5) by blast
  ultimately show "valid_head st sz (dk st)" "recovered st dk n = d n"
    using assms(1,3) by (simp_all add: valid_head_clear recovered_clear)
qed

text \<open>From the header write on, recovery completes the transaction.\<close>

lemma crash_after_head:
  assumes fits: "log_fits st sz" and bl: "length bl \<le> nat (sz - 1)" "distinct bl" "set bl \<inter> log_area st sz = {}"
    and len: "length (v st) = BSIZE" and v: "\<And>n. n \<notin> set bl \<Longrightarrow> v n = d n" and "length bl < k" "n \<notin> log_area st sz"
  defines "dk \<equiv> apply_writes (take k (commit_writes st bl v)) d"
  shows "valid_head st sz (dk st)" "recovered st dk n = v n"
proof -
  define h where "h = head_bytes (int (length bl)) bl (v st)"
  define H where "H = map (\<lambda>n. (n, v n)) bl"
  have sz: "int (length bl) \<le> int LOGSIZE" "int (length bl) < sz" using fits bl(1) by (auto simp: log_fits_def)
  have h: "head_n h = int (length bl)" "head_blocks h = bl" "length h = BSIZE"
    using head_roundtrip [OF len _ sz(1)] len by (simp_all add: h_def)
  have st: "st \<notin> set bl" "n \<noteq> st" using start_area [OF fits] bl(3) assms(8) by auto
  obtain j where j: "k = Suc (length bl) + j" using assms(7) less_iff_Suc_add by auto
  have t: "take k (commit_writes st bl v) = log_copies st bl v @ [(st, h)] @ take j (H @ [(st, head_bytes 0 bl h)])"
    unfolding commit_writes_def Let_def h_def [symmetric] H_def [symmetric]
    by (simp add: j log_copies_def)
  define d1 where "d1 = (apply_writes (log_copies st bl v) d)(st := h)"
  have d1: "d1 (log_addr st i) = v (bl ! i)" if "i < length bl" for i
    using log_copies_at [OF fits bl(1) that] log_addr_start [OF fits, of i] bl(1) that by (simp add: d1_def)
  have d1h: "d1 m = d m" if "m \<notin> log_area st sz" for m
  proof -
    have "m \<notin> fst ` set (log_copies st bl v)" using log_addr_area [OF fits] bl(1) that by (auto simp: fst_log_copies)
    moreover have "m \<noteq> st" using start_area [OF fits] that by blast
    ultimately show ?thesis by (simp add: d1_def apply_writes_other)
  qed
  show "valid_head st sz (dk st)" "recovered st dk n = v n"
  proof -
    consider "j \<le> length bl" | "length bl < j" by linarith
    then have "valid_head st sz (dk st) \<and> recovered st dk n = v n"
    proof cases
      case 1
      then have dk: "dk = apply_writes (take j H) d1" by (simp add: dk_def t d1_def H_def)
      have sub: "fst ` set (take j H) \<subseteq> set bl" using set_take_subset [of j H] by (force simp: H_def)
      have dkst: "dk st = h" using sub st by (subst dk, subst apply_writes_other) (auto simp: d1_def)
      have "recovered st dk n = v n"
      proof (rule recovered_committed [where A = "log_area st sz" and bl = bl])
        show "dk (log_addr st i) = v (bl ! i)" if "i < length bl" for i
        proof -
          have "log_addr st i \<notin> set bl" using log_addr_area [OF fits, of i] bl that by auto
          then show ?thesis using sub d1 [OF that] by (subst dk, subst apply_writes_other) auto
        qed
        show "dk m = v m" if "m \<notin> log_area st sz" "m \<notin> set bl" for m
          using that sub d1h [OF that(1)] v by (subst dk, subst apply_writes_other) auto
      qed (use dkst h bl(2) st start_area [OF fits] assms(8) in auto)
      moreover have "valid_head st sz (dk st)" using dkst h sz bl by (simp add: valid_head_def)
      ultimately show ?thesis by simp
    next
      case 2
      then have dk: "dk = (apply_writes H d1)(st := head_bytes 0 bl h)" by (simp add: dk_def t d1_def H_def)
      have c: "head_n (dk st) = 0" using head_n_clear [OF h(3)] by (simp add: dk)
      have "n \<in> set bl \<or> d n = v n" using v by metis
      then have "apply_writes H d1 n = v n"
        by (intro apply_writes_same) (use d1h [OF assms(8)] in \<open>auto simp: H_def image_iff\<close>)
      then show ?thesis
        using c st(2) fits by (simp add: valid_head_clear recovered_clear) (simp add: dk)
    qed
    then show "valid_head st sz (dk st)" "recovered st dk n = v n" by auto
  qed
qed

text \<open>A crash during recovery leaves a disk that recovers to the same home blocks.\<close>

lemma crash_in_recovery:
  fixes j :: nat
  assumes fits: "log_fits st sz" and vh: "valid_head st sz (d st)" and len: "length (d st) = BSIZE"
    and n: "n \<notin> log_area st sz"
  defines "dj \<equiv> apply_writes (take j (recover_writes st d)) d"
  shows "valid_head st sz (dj st)" "length (dj st) = BSIZE" "recovered st dj n = recovered st d n"
proof -
  let ?bl = "head_blocks (d st)" and ?H = "home_copies st (head_blocks (d st)) d"
  have bl: "distinct ?bl" "set ?bl \<inter> log_area st sz = {}" "length ?bl \<le> nat (sz - 1)" "st \<notin> set ?bl"
    using vh start_area [OF fits] by (auto simp: valid_head_def head_blocks_def)
  have nst: "n \<noteq> st" using n start_area [OF fits] by blast
  have "valid_head st sz (dj st) \<and> length (dj st) = BSIZE \<and> recovered st dj n = recovered st d n"
  proof (cases "j \<le> length ?bl")
    case True
    then have dj: "dj = apply_writes (take j ?H) d"
      by (simp add: dj_def recover_writes_def home_copies_def)
    have sub: "fst ` set (take j ?H) \<subseteq> set ?bl" using set_take_fst [of _ j ?H] by (auto simp: fst_home_copies)
    have djst: "dj st = d st" using sub bl(4) by (subst dj, subst apply_writes_other) auto
    have log: "dj (log_addr st i) = d (log_addr st i)" if "i < length ?bl" for i
    proof -
      have "log_addr st i \<notin> set ?bl" using log_addr_area [OF fits, of i] bl that by auto
      then show ?thesis using sub by (subst dj, subst apply_writes_other) auto
    qed
    have "recovered st dj n = recovered st d n"
    proof (rule recovered_committed [where A = "log_area st sz" and bl = ?bl])
      show "dj (log_addr st i) = recovered st d (?bl ! i)" if "i < length ?bl" for i
        using log [OF that] recovered_home(1) [where d = d, OF bl(1,4) that] by simp
      show "dj m = recovered st d m" if "m \<notin> log_area st sz" "m \<notin> set ?bl" for m
      proof -
        have "m \<noteq> st" using that(1) start_area [OF fits] by blast
        then show ?thesis
          using sub that recovered_home(2) [where d = d, OF bl(1,4)] by (subst dj, subst apply_writes_other) auto
      qed
    qed (use djst bl start_area [OF fits] n in auto)
    then show ?thesis using djst vh len by simp
  next
    case False
    then have dj: "dj = recovered st d" by (simp add: dj_def recovered_def recover_writes_def home_copies_def)
    then have "dj st = head_bytes 0 [] (d st)" by (simp add: recovered_def recover_writes_def)
    then have "head_n (dj st) = 0" "length (dj st) = BSIZE" using head_n_clear [OF len] len by simp_all
    then show ?thesis using fits nst dj by (simp add: valid_head_clear recovered_clear)
  qed
  then show "valid_head st sz (dj st)" "length (dj st) = BSIZE" "recovered st dj n = recovered st d n" by auto
qed

section \<open>Transactions\<close>

text \<open>The part of the state an operation of the log may change.\<close>

definition lframe :: "'a log_st_scheme \<Rightarrow> 'a log_st_scheme \<Rightarrow> bool" where
  "lframe s s' \<longleftrightarrow> bframe (s\<lparr>lh_n := 0, lh_block := []\<rparr>) (s'\<lparr>lh_n := 0, lh_block := []\<rparr>)"

lemma lframe_refl [simp]: "lframe s s"
  by (simp add: lframe_def)

lemma lframe_sym: "lframe s s' \<Longrightarrow> lframe s' s"
  by (simp add: lframe_def bframe_sym)

lemma lframe_trans [trans]: "lframe s s' \<Longrightarrow> lframe s' s'' \<Longrightarrow> lframe s s''"
  unfolding lframe_def by (rule bframe_trans)

lemma bframe_lframe: "bframe s s' \<Longrightarrow> lframe s s'"
  by (simp add: lframe_def bframe_lh)

lemma lframe_lh [simp]: "lframe s (t\<lparr>lh_n := n\<rparr>) = lframe s t" "lframe s (t\<lparr>lh_block := b\<rparr>) = lframe s t"
  by (simp_all add: lframe_def)

lemma lframe_simps:
  assumes "lframe s s'"
  shows "cur s' = cur s" "sched_ok s' = sched_ok s" "sched_ok s \<Longrightarrow> mypid s' = mypid s"
    "length (procs s') = length (procs s)" "mem s' = mem s" "freelist s' = freelist s"
    "lg_start s' = lg_start s" "lg_size s' = lg_size s" "lg_outstanding s' = lg_outstanding s"
    "lg_committing s' = lg_committing s" "lg_dev s' = lg_dev s"
  using bframe_simps [OF assms [unfolded lframe_def]] bframe_log [OF assms [unfolded lframe_def]]
  by (simp_all add: sched_ok_def mypid_def split: option.splits)

text \<open>
  \<^verbatim>\<open>log_write\<close> puts the block of a held buffer under the log: a block that is there already
  is absorbed, a new one is pinned, and nothing else changes.
\<close>

lemma log_write_ok:
  assumes ok: "log_ok s" and o: "owns s b n" and home: "n \<notin> log_area (lg_start s) (lg_size s)"
    and room: "lh_n s < int LOGSIZE" "lh_n s < lg_size s - 1" and trans: "1 \<le> lg_outstanding s"
  shows "okK (log_write b s) (\<lambda>_ s'. log_ok s' \<and> set (logged s') = insert n (set (logged s)) \<and>
     lh_n s' = lh_n s + of_bool (n \<notin> set (logged s)) \<and> view s' = view s \<and> held s' = held s \<and>
     (\<forall>c m. owns s' c m = owns s c m) \<and> (\<forall>c. b_data (buf_of s' c) = b_data (buf_of s c)) \<and>
     disk s' = disk s \<and> dwrites s' = dwrites s \<and> procs s' = procs s \<and> lframe s s')"
proof -
  have b: "bio_ok (set (logged s)) s" "log_shape s" "head_n (disk s (lg_start s)) = 0" using ok by (auto simp: log_ok_def)
  note l = log_shapeD [OF b(2)]
  have bn: "b_blockno (buf_of s b) = n" by (rule ownsD(4) [OF o])
  let ?n = "nat (lh_n s)"
  have lt: "?n < length (lh_block s)" "int ?n = lh_n s" using room l(11,12) by auto
  show ?thesis
  proof (cases "n \<in> set (logged s)")
    case True
    then have "scan (\<lambda>x. x = n) (logged s) \<noteq> None" by (auto simp: scan_None in_set_conv_nth)
    then obtain i where i: "scan (\<lambda>x. x = n) (logged s) = Some i" by auto
    note si = scan_SomeD [OF i]
    have "i < ?n" using si(1) l(5) by simp
    moreover from this have "lh_block s ! i = n" using si(2) l(9) by simp
    ultimately have "log_write b s = Ret () s"
      using i room trans bn lt list_update_id [of "lh_block s" i] by (simp add: log_write_def Let_def logged_def)
    then show ?thesis using ok True by (simp add: insert_absorb)
  next
    case False
    then have i: "scan (\<lambda>x. x = n) (logged s) = None" by (auto simp: scan_None in_set_conv_nth)
    let ?s = "(bpin b (s\<lparr>lh_block := (lh_block s)[?n := n]\<rparr>))\<lparr>lh_n := lh_n s + 1\<rparr>"
    have r: "log_write b s = Ret () ?s"
      using i room trans bn lt by (simp add: log_write_def Let_def logged_def)
    have f: "lh_block ?s = (lh_block s)[?n := n]" "lh_n ?s = lh_n s + 1" "lg_start ?s = lg_start s"
      "lg_size ?s = lg_size s" "lg_dev ?s = lg_dev s" by (simp_all add: bpin_def upd_buf_def)
    have lg: "logged ?s = logged s @ [n]"
      using lt l(11) by (simp add: logged_def f nat_add_distrib take_Suc_conv_app_nth)
    have blt: "b < length (bufs s)" using bio_okD(2) [OF b(1)] ownsD(1) [OF o] by simp
    then have blt': "b < length (bufs (s\<lparr>lh_block := (lh_block s)[?n := n]\<rparr>))" by simp
    note pin = pin_simps(1-8) [OF blt']
    have "bio_ok (insert n (set (logged s))) (bpin b (s\<lparr>lh_block := (lh_block s)[?n := n]\<rparr>))"
      by (rule bpin_ok) (use b(1) o False in auto)
    moreover have "log_shape ?s"
      using b(2) home room False by (auto simp: log_shape_def f lg)
    ultimately have "log_ok ?s" using b(3) pin(1) by (simp add: log_ok_def lg f)
    moreover have "lframe s ?s"
      using bframe_lframe [OF pin(7)] by (simp add: lframe_def)
    ultimately show ?thesis using r pin lg False by (simp add: f)
  qed
qed

text \<open>The errors of \<^verbatim>\<open>log_write\<close>.\<close>

lemma log_write_too_big:
  "int LOGSIZE \<le> lh_n s \<or> lg_size s - 1 \<le> lh_n s \<Longrightarrow> log_write b s = Panic ''too big a transaction''"
  by (auto simp: log_write_def)

text \<open>\<^verbatim>\<open>end_op\<close> of the last operation commits; the state afterwards.\<close>

lemma end_op_ok:
  assumes ok: "log_ok s" and h: "held s = {}" and last: "lg_outstanding s = 1" "lg_committing s = 0"
  shows "okK (end_op s) (\<lambda>_ s'. log_ok s' \<and> lh_n s' = 0 \<and> held s' = {} \<and> lg_outstanding s' = 0 \<and>
     lg_committing s' = 0 \<and> (\<forall>n. n \<notin> log_area (lg_start s) (lg_size s) \<longrightarrow> view s' n = view s n) \<and>
     view s' = disk s' \<and>
     dwrites s' = dwrites s @ (if lh_n s = 0 then [] else commit_writes (lg_start s) (logged s) (view s)))"
proof -
  define s0 where "s0 = s\<lparr>lg_outstanding := 0, lg_committing := 1\<rparr>"
  have b: "bio_ok (set (logged s)) s" "log_shape s" "head_n (disk s (lg_start s)) = 0" using ok by (auto simp: log_ok_def)
  note l = log_shapeD [OF b(2)]
  have s0: "logged s0 = logged s" "log_ok s0" "held s0 = {}" "view s0 = view s" "lh_n s0 = lh_n s"
    "lg_start s0 = lg_start s" "lg_size s0 = lg_size s" "dwrites s0 = dwrites s"
    using ok h by (simp_all add: s0_def log_ok_def log_shape_def logged_def)
  let ?A = "log_area (lg_start s) (lg_size s)"
  let ?W = "if lh_n s = 0 then [] else commit_writes (lg_start s) (logged s) (view s)"
  have "okK (commit s0) (\<lambda>_ s'. bio_ok {} s' \<and> wrote (s0\<lparr>lh_n := 0\<rparr>) ?W s')"
  proof (cases "lh_n s = 0")
    case True
    have "s0\<lparr>lh_n := lh_n s0\<rparr> = s0" by simp
    then have "wrote (s0\<lparr>lh_n := 0\<rparr>) [] s0" using True s0(5) by (metis wrote_refl)
    moreover have "bio_ok {} s0" using s0(2) True by (simp add: log_ok_def logged_def s0(5))
    ultimately show ?thesis using True s0(5) by (simp add: commit_def)
  next
    case False
    then show ?thesis using commit_ok [OF s0(2,3)] s0 l(11) by simp
  qed
  then have "okK (end_op s) (\<lambda>_ s'. \<exists>s1. s' = wakeup ChanLog (s1\<lparr>lg_committing := 0\<rparr>) \<and> bio_ok {} s1 \<and>
      wrote (s0\<lparr>lh_n := 0\<rparr>) ?W s1)"
    using last by (simp add: end_op_def s0_def [symmetric]) (auto elim!: okK_E)
  then show ?thesis
  proof (rule okK_weaken, elim exE conjE)
    fix u s' s1 assume s': "s' = wakeup ChanLog (s1\<lparr>lg_committing := 0\<rparr>)" "bio_ok {} s1"
      "wrote (s0\<lparr>lh_n := 0\<rparr>) ?W s1"
    note f = wrote_log_fields [OF s'(3), simplified]
    have g: "bufs s' = bufs s1" "disk s' = disk s1" "dwrites s' = dwrites s1" "lh_n s' = 0"
      "lg_outstanding s' = 0" "lg_committing s' = 0" "lg_start s' = lg_start s" "lg_size s' = lg_size s"
      "lg_dev s' = lg_dev s" "lh_block s' = lh_block s" "sched_ok s'"
      using f s0 bio_okD(1) [OF s'(2)] unfolding s'(1)
      by (simp_all add: s0_def) (simp_all add: wakeup_def sched_ok_def)
    have v: "view s' = view s1" by (rule view_cong) (simp_all add: g)
    have k: "bio_ok {} s'" "held s' = {}"
      using s'(2,3) h g unfolding bio_ok_def caches_def by (auto simp: held_def wrote_def s0_def)
    have d: "view s' = disk s'" by (rule ext, rule view_clean [OF k(1)]) (use k in auto)
    have A: "lg_start s \<in> ?A" "\<And>i. i < length (logged s) \<Longrightarrow> log_addr (lg_start s) i \<in> ?A"
      using start_area [OF l(2)] l(5,10) by auto
    have "view s' n = view s n" if "n \<notin> ?A" for n
    proof -
      have "view s' n = apply_writes ?W (view s) n" using v s'(3) by (simp add: wrote_def s0)
      also have "\<dots> = view s n"
        by (rule apply_writes_same)
          (use that A in \<open>auto simp: commit_writes_def Let_def log_copies_def split: if_splits\<close>)
      finally show ?thesis .
    qed
    moreover have "head_n (disk s' (lg_start s)) = 0"
    proof (cases "lh_n s = 0")
      case True
      then show ?thesis using s'(3) b(3) g by (simp add: wrote_def s0_def)
    next
      case False
      have "length (view s (lg_start s)) = BSIZE"
        using view_clean [OF b(1)] l(8) A(1) h bio_okD(3) [OF b(1)] by (metis empty_iff)
      then show ?thesis
        using s'(3) False g head_n_clear by (simp add: wrote_def commit_writes_def Let_def)
    qed
    then have "log_ok s'"
      using k(1) l(1,2,12) g by (auto simp: log_ok_def log_shape_def logged_def log_fits_def)
    ultimately show "log_ok s' \<and> lh_n s' = 0 \<and> held s' = {} \<and> lg_outstanding s' = 0 \<and> lg_committing s' = 0 \<and>
      (\<forall>n. n \<notin> ?A \<longrightarrow> view s' n = view s n) \<and> view s' = disk s' \<and> dwrites s' = dwrites s @ ?W"
      using g k(2) s'(3) s0(8) d by (simp add: wrote_def)
  qed
qed

text \<open>Blocks keep their length.\<close>

lemma view_length: "bio_ok P s \<Longrightarrow> length (view s n) = BSIZE"
  using bio_okD(3,4) [of P s] bio_okD(2) [of P s]
  by (fastforce simp: view_def buf_ok_def dest: scan_SomeD(1) split: option.splits)

lemma apply_writes_length:
  "(\<And>n b. (n, b) \<in> set ws \<Longrightarrow> length b = BSIZE) \<Longrightarrow> (\<And>n. length (d n) = BSIZE) \<Longrightarrow>
   length (apply_writes ws d n) = BSIZE"
proof (induction ws arbitrary: d)
  case (Cons w ws)
  obtain m b where w: "w = (m, b)" by force
  show ?case unfolding w apply_writes_simps
    by (rule Cons.IH) (use Cons.prems w in auto)
qed simp

lemma commit_writes_length:
  "(n, b) \<in> set (commit_writes st bl v) \<Longrightarrow> (\<And>n. length (v n) = BSIZE) \<Longrightarrow> length b = BSIZE"
  by (auto simp: commit_writes_def Let_def log_copies_def)

text \<open>The machine after a power failure: the disk \<open>d\<close>, and a kernel that has just been loaded.\<close>

definition fresh_boot :: "(uint \<Rightarrow> uchar list) \<Rightarrow> 'a log_st_scheme \<Rightarrow> bool" where
  "fresh_boot d r \<longleftrightarrow> sched_ok r \<and> bufs r = replicate (Suc NBUF) zero_buf \<and> disk r = d \<and>
     length (lh_block r) = LOGSIZE"

lemma initlog_ok:
  assumes "fresh_boot d r" and "\<And>n. length (d n) = BSIZE"
    and fits: "log_fits (sb_logstart sb) (sint (sb_nlog sb))"
    and vh: "valid_head (sb_logstart sb) (sint (sb_nlog sb)) (d (sb_logstart sb))"
  shows "okK (initlog ROOTDEV sb (binit r)) (\<lambda>_ r'. log_ok r' \<and> lh_n r' = 0 \<and> held r' = {} \<and>
     disk r' = recovered (sb_logstart sb) d)"
proof -
  have r: "sched_ok r" "bufs r = replicate (Suc NBUF) zero_buf" "disk r = d" using assms(1) by (auto simp: fresh_boot_def)
  note b = binit_ok [OF r(1,2), unfolded r(3), OF assms(2)]
  let ?r = "(binit r)\<lparr>lg_start := sb_logstart sb, lg_size := sint (sb_nlog sb), lg_dev := ROOTDEV\<rparr>"
  have "lh_block ?r = lh_block r" using bframe_log(7) [OF b(4)] by simp
  then have "okK (recover_from_log ?r) (\<lambda>_ r'. log_ok r' \<and> lh_n r' = 0 \<and> held r' = {} \<and>
     disk r' = recovered (sb_logstart sb) d)"
    using b assms by (intro okK_weaken [OF recover_from_log_ok]) (auto simp: fresh_boot_def)
  then show ?thesis by (simp add: initlog_def sizeof_logheader_def param_defs BSIZE_def)
qed

section \<open>An example transaction\<close>

text \<open>A file system whose log has 30 blocks from block 2, just booted, and a transaction that
  has modified block 45.\<close>

definition demo_boot :: log_st where
  "demo_boot = \<lparr>procs = replicate NPROC zero_proc, cur = Some 0, nextpid = 2, initproc = Some 0, ticks = 0, kout = [],
     mem = (\<lambda>_. 0), freelist = 0, kend = 0, kernel_pagetable = 0,
     bufs = replicate (Suc NBUF) zero_buf, disk = (\<lambda>_. replicate BSIZE 0), dwrites = [],
     lg_start = 2, lg_size = 30, lg_outstanding = 1, lg_committing = 0, lg_dev = ROOTDEV,
     lh_n = 0, lh_block = replicate LOGSIZE 0\<rparr>"

definition demo_sb :: superblock where
  "demo_sb = \<lparr>sb_magic = 270544960, sb_size = 2000, sb_nblocks = 1954, sb_ninodes = 200, sb_nlog = 30,
     sb_logstart = 2, sb_inodestart = 32, sb_bmapstart = 45\<rparr>"

definition demo_tx :: log_st where
  "demo_tx = (upd_buf 0 (\<lambda>x. x\<lparr>b_dev := ROOTDEV, b_blockno := 45, b_valid := 1, b_refcnt := 1,
       b_data := replicate BSIZE 7\<rparr>) (binit demo_boot))\<lparr>lh_n := 1, lh_block := (replicate LOGSIZE 0)[0 := 45]\<rparr>"

lemma demo_boot_ok:
  "fresh_boot (\<lambda>_. replicate BSIZE 0) demo_boot" "bio_ok {} (binit demo_boot)" "held (binit demo_boot) = {}"
  "bframe demo_boot (binit demo_boot)" "disk (binit demo_boot) = (\<lambda>_. replicate BSIZE 0)"
  "\<not> caches (binit demo_boot) i n"
proof -
  show f: "fresh_boot (\<lambda>_. replicate BSIZE 0) demo_boot"
    by (simp add: fresh_boot_def demo_boot_def sched_ok_def NPROC_def)
  have b: "bio_ok {} (binit demo_boot)" "view (binit demo_boot) = disk demo_boot" "held (binit demo_boot) = {}"
    "bframe demo_boot (binit demo_boot)" "disk (binit demo_boot) = disk demo_boot"
    "dwrites (binit demo_boot) = dwrites demo_boot" "\<not> caches (binit demo_boot) i n"
    by (rule binit_ok; use f in \<open>simp add: fresh_boot_def\<close>)+
  then show "bio_ok {} (binit demo_boot)" "held (binit demo_boot) = {}"
    "bframe demo_boot (binit demo_boot)" "disk (binit demo_boot) = (\<lambda>_. replicate BSIZE 0)"
    "\<not> caches (binit demo_boot) i n"
    using f by (auto simp: fresh_boot_def)
qed

lemma log_area_45: "(45 :: uint) \<notin> log_area 2 30"
  by (simp add: log_area_def)

lemma demo_tx_ok: "log_ok demo_tx" "held demo_tx = {}" "lg_outstanding demo_tx = 1" "lg_committing demo_tx = 0"
  "lg_start demo_tx = 2" "lg_size demo_tx = 30" "lh_n demo_tx = 1" "logged demo_tx = [45]"
proof -
  note b = demo_boot_ok
  have f: "lg_outstanding demo_tx = 1" "lg_committing demo_tx = 0" "lg_start demo_tx = 2" "lg_size demo_tx = 30"
    "lg_dev demo_tx = ROOTDEV" "lh_n demo_tx = 1" "lh_block demo_tx = (replicate LOGSIZE 0)[0 := 45]"
    "disk demo_tx = (\<lambda>_. replicate BSIZE 0)"
    using bframe_log [OF b(4)] b(5) by (simp_all add: demo_tx_def upd_buf_def) (simp_all add: demo_boot_def)
  have lg: "logged demo_tx = [45]" by (simp add: logged_def f param_defs take_Suc_conv_app_nth)
  have pos: "0 < NBUF" "Suc 0 \<le> NBUF" by (simp_all add: param_defs)
  have nl: "\<not> is_locked (buf_of (binit demo_boot) 0)" using b(3) pos by (auto simp: held_def)
  define x where "x = (buf_of (binit demo_boot) 0)\<lparr>b_dev := ROOTDEV, b_blockno := 45, b_valid := 1, b_refcnt := 1,
       b_data := replicate BSIZE 7\<rparr>"
  have bufs: "bufs demo_tx = (bufs (binit demo_boot))[0 := x]"
    by (simp add: demo_tx_def upd_buf_def x_def)
  have xl: "\<not> is_locked x" using nl by (simp add: x_def is_locked_def)
  have ok: "bio_ok {45} demo_tx"
  proof (rule bio_ok_change [OF b(2) pos(1) bufs])
    show "sched_ok demo_tx" using bio_okD(1) [OF b(2)] by (simp add: demo_tx_def sched_ok_def)
    show "buf_ok {45} (disk demo_tx) x" using xl by (simp add: buf_ok_def x_def)
    show "buf_ok {45} (disk demo_tx) (buf_of (binit demo_boot) j)" if "j < NBUF" "j \<noteq> 0" for j
      using bio_okD(4) [OF b(2) that(1)] b(6) [of j] that(1) f(8) b(5) by (auto simp: buf_ok_def caches_def)
  qed (use f b(6) in \<open>auto simp: x_def\<close>)
  show "log_ok demo_tx"
    using ok log_area_45 by (simp add: log_ok_def log_shape_def lg f log_fits_def param_defs)
      (simp add: head_n_def get32_def BSIZE_def)
  show "held demo_tx = {}"
    using b(3) xl bio_okD(2) [OF b(2)] pos by (auto simp: held_def bufs nth_upd)
qed (use bframe_log [OF demo_boot_ok(4)] in \<open>simp_all add: demo_tx_def upd_buf_def demo_boot_def logged_def param_defs take_Suc_conv_app_nth\<close>)

section \<open>Crash safety\<close>

text \<open>C1: a file system transaction is atomic. When the last outstanding operation ends, \<open>end_op\<close>
  returns; and if the power fails after any number \<open>k\<close> of the disk writes it makes, then
  booting from that disk returns from \<open>initlog\<close>, and outside the log area every block is as
  before the transaction when \<open>k\<close> does not reach the header write, and as the transaction
  left it from the header write on.\<close>

theorem transaction_atomic:
  fixes s :: "'a log_st_scheme"
  assumes ok: "log_ok s" and h: "held s = {}" and last: "lg_outstanding s = 1" "lg_committing s = 0"
    and sb: "sb_logstart sb = lg_start s" "sint (sb_nlog sb) = lg_size s"
  shows "\<exists>s' W. end_op s = Ret () s' \<and> dwrites s' = dwrites s @ W \<and>
     (\<forall>k (r :: 'b log_st_scheme). fresh_boot (apply_writes (take k W) (disk s)) r \<longrightarrow>
        okK (initlog ROOTDEV sb (binit r)) (\<lambda>_ r'. log_ok r' \<and>
          (\<forall>n. n \<notin> log_area (lg_start s) (lg_size s) \<longrightarrow>
             disk r' n = (if k \<le> nat (lh_n s) then disk s n else view s n))))"
proof -
  let ?W = "if lh_n s = 0 then [] else commit_writes (lg_start s) (logged s) (view s)"
  let ?A = "log_area (lg_start s) (lg_size s)"
  have b: "bio_ok (set (logged s)) s" "log_shape s" "head_n (disk s (lg_start s)) = 0" using ok by (auto simp: log_ok_def)
  note l = log_shapeD [OF b(2)]
  have clean: "view s n = disk s n" if "n \<notin> set (logged s)" for n
    by (rule view_clean [OF b(1)]) (use that h in auto)
  have len: "length (apply_writes (take k ?W) (disk s) n) = BSIZE" for k n
    by (rule apply_writes_length)
      (use commit_writes_length view_length [OF b(1)] bio_okD(3) [OF b(1)] in
        \<open>auto split: if_splits dest!: in_set_takeD\<close>)
  have crash: "valid_head (lg_start s) (lg_size s) (apply_writes (take k ?W) (disk s) (lg_start s)) \<and>
      (\<forall>n. n \<notin> ?A \<longrightarrow> recovered (lg_start s) (apply_writes (take k ?W) (disk s)) n =
         (if k \<le> nat (lh_n s) then disk s n else view s n))" for k
  proof (cases "lh_n s = 0")
    case True
    then have "view s n = disk s n" for n using clean by (simp add: logged_def)
    moreover have "recovered (lg_start s) (disk s) n = disk s n" if "n \<notin> ?A" for n
      using recovered_clear [of "disk s"] b(3) start_area [OF l(2)] that by metis
    ultimately show ?thesis
      using True b(3) l(2) by (auto simp: valid_head_clear)
  next
    case False
    have bl: "length (logged s) \<le> nat (lg_size s - 1)" "set (logged s) \<inter> ?A = {}" using l by auto
    obtain n0 where n0: "n0 \<notin> ?A" using bl(2) False l(5,11) by (metis disjoint_iff last_in_set length_0_conv nat_0_iff order_antisym)
    show ?thesis
    proof (cases "k \<le> length (logged s)")
      case True
      then show ?thesis
        using crash_before_head [where d = "disk s" and v = "view s", OF l(2) bl(1) b(3) True] n0 False l(5) by auto
    next
      case k: False
      then show ?thesis
        using crash_after_head [where d = "disk s" and v = "view s" and k = k, OF l(2) bl(1) l(7) bl(2) view_length [OF b(1)] clean] n0 False l(5) by auto
    qed
  qed
  have "okK (initlog ROOTDEV sb (binit r)) (\<lambda>_ r'. log_ok r' \<and>
          (\<forall>n. n \<notin> ?A \<longrightarrow> disk r' n = (if k \<le> nat (lh_n s) then disk s n else view s n)))"
    if "fresh_boot (apply_writes (take k ?W) (disk s)) r" for k and r :: "'b log_st_scheme"
    using crash [of k] len l(2) sb that
    by (intro okK_weaken [OF initlog_ok]) auto
  moreover obtain s' where "end_op s = Ret () s'" "dwrites s' = dwrites s @ ?W"
    using end_op_ok [OF ok h last] by (auto elim!: okK_E)
  ultimately show ?thesis by blast
qed

theorem transaction_atomic_witness:
  "\<exists>s' W. end_op demo_tx = Ret () s' \<and> dwrites s' = dwrites demo_tx @ W \<and>
     (\<forall>k (r :: log_st). fresh_boot (apply_writes (take k W) (disk demo_tx)) r \<longrightarrow>
        okK (initlog ROOTDEV demo_sb (binit r)) (\<lambda>_ r'. log_ok r' \<and>
          (\<forall>n. n \<notin> log_area (lg_start demo_tx) (lg_size demo_tx) \<longrightarrow>
             disk r' n = (if k \<le> nat (lh_n demo_tx) then disk demo_tx n else view demo_tx n))))"
  using transaction_atomic [OF demo_tx_ok(1-4), of demo_sb] by (simp add: demo_tx_ok(5,6) demo_sb_def)



end
