(* ===== verification/Fs_Block.thy ===== *)
theory Fs_Block
  imports Log Vm
begin

text \<open>
  The state of the file system, \<^verbatim>\<open>src/kernel/fs.c\<close> with \<^verbatim>\<open>fs.h\<close> and \<^verbatim>\<open>file.h\<close>, and its lowest
  layer: the super block and the free bitmap. The super block and the table of in-memory
  inodes extend the state of the log. The second half of the theory states what an operation
  does inside a transaction: every later proof reads and updates blocks through
  \<open>read_tx\<close>, \<open>write_tx\<close> and \<open>release_tx\<close>, which hide buffers and log entries behind \<open>view\<close>,
  the contents every reader sees.
\<close>

section \<open>State and layout\<close>

definition ROOTINO :: uint where [param_defs]: "ROOTINO = 1"
definition FSMAGIC :: uint where [param_defs]: "FSMAGIC = 0x10203040"
definition NDIRECT :: nat where [param_defs]: "NDIRECT = 12"
definition NINDIRECT :: nat where [param_defs]: "NINDIRECT = BSIZE div 4"
definition MAXFILE :: nat where [param_defs]: "MAXFILE = NDIRECT + NINDIRECT"
definition IPB :: nat where [param_defs]: "IPB = BSIZE div 64"
definition BPB :: nat where [param_defs]: "BPB = BSIZE * 8"
definition DIRSIZ :: nat where [param_defs]: "DIRSIZ = 14"

definition IBLOCK :: "uint \<Rightarrow> superblock \<Rightarrow> uint" where
  "IBLOCK i sb = i div of_nat IPB + sb_inodestart sb"

definition BBLOCK :: "uint \<Rightarrow> superblock \<Rightarrow> uint" where
  "BBLOCK b sb = b div of_nat BPB + sb_bmapstart sb"

record inode =
  i_dev :: uint
  i_inum :: uint
  i_ref :: int
  i_lock :: sleeplock
  i_valid :: int
  i_type :: ushort
  i_major :: ushort
  i_minor :: ushort
  i_nlink :: ushort
  i_size :: uint
  i_addrs :: "uint list"

record fs_st = log_st +
  fs_sb :: superblock          \<comment> \<open>\<open>struct superblock sb\<close>\<close>
  inodes :: "inode list"       \<comment> \<open>\<open>itable.inode[NINODE]\<close>\<close>

section \<open>The super block\<close>

text \<open>The 32 bytes of \<^verbatim>\<open>struct superblock\<close>.\<close>

definition superblock_of :: "uchar list \<Rightarrow> superblock" where
  "superblock_of d = \<lparr>sb_magic = get32 d 0, sb_size = get32 d 4, sb_nblocks = get32 d 8,
     sb_ninodes = get32 d 12, sb_nlog = get32 d 16, sb_logstart = get32 d 20,
     sb_inodestart = get32 d 24, sb_bmapstart = get32 d 28\<rparr>"

definition readsb :: "uint \<Rightarrow> 'a fs_st_scheme \<Rightarrow> (superblock, 'a fs_st_scheme) outcome" where
  "readsb dev s =
     bindK (bread dev 1 s) (\<lambda>bp s.
     let sb = superblock_of (b_data (buf_of s bp)) in
     bindK (brelse bp s) (\<lambda>_ s. Ret sb s))"

definition fsinit :: "uint \<Rightarrow> 'a fs_st_scheme \<Rightarrow> (unit, 'a fs_st_scheme) outcome" where
  "fsinit dev s =
     bindK (readsb dev s) (\<lambda>sb s.
     let s = s\<lparr>fs_sb := sb\<rparr> in
     if sb_magic (fs_sb s) \<noteq> FSMAGIC then Panic ''invalid file system''
     else initlog dev (fs_sb s) s)"

section \<open>Blocks\<close>

definition bzero :: "uint \<Rightarrow> uint \<Rightarrow> 'a fs_st_scheme \<Rightarrow> (unit, 'a fs_st_scheme) outcome" where
  "bzero dev bno s =
     bindK (bread dev bno s) (\<lambda>bp s.
     bindK (log_write bp (set_data bp (replicate BSIZE 0) s)) (\<lambda>_ s. brelse bp s))"

text \<open>The bit of block number \<open>bi\<close> of a bitmap block.\<close>

definition bit_mask :: "nat \<Rightarrow> uchar" where
  "bit_mask bi = push_bit (bi mod 8) 1"

definition bit_set :: "uchar list \<Rightarrow> nat \<Rightarrow> bool" where
  "bit_set d bi \<longleftrightarrow> d ! (bi div 8) AND bit_mask bi \<noteq> 0"

text \<open>
  The inner loop of \<^verbatim>\<open>balloc\<close> has no effect before it finds a clear bit. The loop counter \<open>b\<close> is
  an \<open>int\<close>: counting past \<open>2 ^ 31\<close> is outside what C defines.
\<close>

definition balloc_group :: "uint \<Rightarrow> nat \<Rightarrow> 'a fs_st_scheme \<Rightarrow> (uint option, 'a fs_st_scheme) outcome" where
  "balloc_group dev b s =
     bindK (bread dev (BBLOCK (of_nat b) (fs_sb s)) s) (\<lambda>bp s.
     let d = b_data (buf_of s bp) in
     case find (\<lambda>bi. b + bi < unat (sb_size (fs_sb s)) \<and> \<not> bit_set d bi) [0..<BPB] of
       Some bi \<Rightarrow>
         bindK (log_write bp (set_data bp (d[bi div 8 := d ! (bi div 8) OR bit_mask bi]) s)) (\<lambda>_ s.
         bindK (brelse bp s) (\<lambda>_ s.
         bindK (bzero dev (of_nat (b + bi)) s) (\<lambda>_ s. Ret (Some (of_nat (b + bi))) s)))
     | None \<Rightarrow>
         bindK (brelse bp s) (\<lambda>_ s. if 2 ^ 31 \<le> b + BPB then Stuck else Ret None s))"

definition balloc :: "uint \<Rightarrow> 'a fs_st_scheme \<Rightarrow> (uint, 'a fs_st_scheme) outcome" where
  "balloc dev s =
     bindK (findK (map (\<lambda>g. g * BPB) [0..<(unat (sb_size (fs_sb s)) + BPB - 1) div BPB]) (balloc_group dev) s)
       (\<lambda>r s. case r of Some b \<Rightarrow> Ret b s
         | None \<Rightarrow> Ret 0 (kprint ''balloc: out of blocks\<newline>'' s))"

definition bfree :: "uint \<Rightarrow> uint \<Rightarrow> 'a fs_st_scheme \<Rightarrow> (unit, 'a fs_st_scheme) outcome" where
  "bfree dev b s =
     bindK (bread dev (BBLOCK b (fs_sb s)) s) (\<lambda>bp s.
     let bi = unat b mod BPB; d = b_data (buf_of s bp) in
     if \<not> bit_set d bi then Panic ''freeing free block''
     else bindK (log_write bp (set_data bp (d[bi div 8 := d ! (bi div 8) AND NOT (bit_mask bi)]) s))
            (\<lambda>_ s. brelse bp s))"

section \<open>Operations inside a transaction\<close>

text \<open>
  \<open>tx H s\<close>: a transaction is open, the running process holds exactly the buffers \<open>dom H\<close>, buffer
  \<open>b\<close> for block \<open>H b\<close>, and a block whose cached contents differ from the disk is in the log.
\<close>

definition tx :: "(nat \<rightharpoonup> uint) \<Rightarrow> 'a log_st_scheme \<Rightarrow> bool" where
  "tx H s \<longleftrightarrow> log_ok s \<and> 1 \<le> lg_outstanding s \<and> held s = dom H \<and>
     (\<forall>b n. H b = Some n \<longrightarrow> owns s b n) \<and> (\<forall>n. n \<notin> set (logged s) \<longrightarrow> view s n = disk s n)"

text \<open>
  \<open>did B s V s'\<close>: from \<open>s\<close> to \<open>s'\<close> readers have come to see \<open>V\<close>, at most the blocks \<open>B\<close> were added to
  the log, and nothing was written to the disk. \<open>room B s\<close>: the log has space for the blocks \<open>B\<close>.
\<close>

definition did :: "uint set \<Rightarrow> 'a log_st_scheme \<Rightarrow> (uint \<Rightarrow> uchar list) \<Rightarrow> 'a log_st_scheme \<Rightarrow> bool" where
  "did B s V s' \<longleftrightarrow> view s' = V \<and> set (logged s) \<subseteq> set (logged s') \<and> set (logged s') \<subseteq> set (logged s) \<union> B \<and>
     disk s' = disk s \<and> dwrites s' = dwrites s \<and> lframe s s'"

definition room :: "uint set \<Rightarrow> 'a log_st_scheme \<Rightarrow> bool" where
  "room B s \<longleftrightarrow> finite B \<and> B \<inter> log_area (lg_start s) (lg_size s) = {} \<and>
     int (card (set (logged s) \<union> B)) + 2 \<le> lg_size s"

lemma did_refl [simp]: "did B s (view s) s"
  by (simp add: did_def)

lemma did_trans: "did B s V s' \<Longrightarrow> did B s' V' s'' \<Longrightarrow> did B s V' s''"
  unfolding did_def by (auto intro: lframe_trans)

lemma did_view: "did B s V s' \<Longrightarrow> view s' = V"
  by (simp add: did_def)

lemma did_mono: "did B s V s' \<Longrightarrow> B \<subseteq> B' \<Longrightarrow> did B' s V s'"
  by (auto simp: did_def)

lemma room_mono:
  assumes "room B s" "B' \<subseteq> B"
  shows "room B' s"
proof -
  have "finite B" "finite B'" using assms by (auto simp: room_def intro: finite_subset)
  moreover from this have "card (set (logged s) \<union> B') \<le> card (set (logged s) \<union> B)"
    using assms(2) by (intro card_mono) auto
  ultimately show ?thesis using assms by (auto simp: room_def)
qed

lemma did_room:
  assumes "did B s V s'" "room B s"
  shows "room B s'"
proof -
  have "set (logged s') \<union> B = set (logged s) \<union> B" using assms(1) by (auto simp: did_def)
  then show ?thesis using assms lframe_simps(7,8) [of s s'] by (simp add: room_def did_def)
qed

lemma lframe_fs:
  assumes "lframe s s'"
  shows "fs_sb s' = fs_sb s" "inodes s' = inodes s"
proof -
  from assms obtain ps bs d w where "s'\<lparr>lh_n := 0, lh_block := []\<rparr> =
      s\<lparr>lh_n := 0, lh_block := [], procs := ps, bufs := bs, disk := d, dwrites := w\<rparr>"
    unfolding lframe_def bframe_def by blast
  from this [THEN arg_cong [where f = fs_sb]] this [THEN arg_cong [where f = inodes]]
  show "fs_sb s' = fs_sb s" "inodes s' = inodes s" by simp_all
qed

lemma txD:
  assumes "tx H s"
  shows "log_ok s" "bio_ok (set (logged s)) s" "log_shape s" "1 \<le> lg_outstanding s" "held s = dom H"
    "H b = Some n \<Longrightarrow> owns s b n" "n \<notin> set (logged s) \<Longrightarrow> view s n = disk s n"
  using assms by (auto simp: tx_def log_ok_def)

lemma room_bound: "log_ok s \<Longrightarrow> room B s \<Longrightarrow> card (set (logged s)) + 2 \<le> NBUF"
proof -
  assume a: "log_ok s" "room B s"
  have "finite B" using a(2) by (simp add: room_def)
  then have "card (set (logged s)) \<le> card (set (logged s) \<union> B)" by (intro card_mono) auto
  moreover have "lg_size s \<le> int LOGSIZE" using a(1) by (simp add: log_ok_def log_shape_def log_fits_def)
  ultimately show ?thesis using a(2) by (simp add: room_def param_defs)
qed

lemma read_tx:
  assumes t: "tx H s" and n: "n \<notin> ran H" and r: "room B s" and one: "card (dom H) \<le> 1"
  shows "okK (bread ROOTDEV n s) (\<lambda>b s'. b \<notin> dom H \<and> tx (H(b \<mapsto> n)) s' \<and> did {} s (view s) s' \<and>
     b_data (buf_of s' b) = view s n)"
proof -
  note d = txD [OF t]
  have "okK (bread ROOTDEV n s) (\<lambda>b s'. bio_ok (set (logged s)) s' \<and> bread_post s n b s')"
  proof (rule bread_idle [OF d(2)])
    show "card (set (logged s)) + card (held s) < NBUF" using room_bound [OF d(1) r] one d(5) by simp
    fix i assume "i \<in> held s"
    then obtain m where "H i = Some m" using d(5) by auto
    then have "owns s i m" "m \<noteq> n" using d(6) n by (auto simp: ran_def)
    then show "\<not> caches s i n" by (auto simp: owns_def caches_def)
  qed simp
  then show ?thesis
  proof (rule okK_weaken, elim conjE)
    fix b s' assume ok: "bio_ok (set (logged s)) s'" and p: "bread_post s n b s'"
    note q = bread_post_simps [OF p]
    note fr = bframe_log [OF q(6)]
    have lg: "logged s' = logged s" by (simp add: logged_def fr)
    have bH: "b \<notin> dom H" using q(3) d(5) by simp
    have ow: "owns s' c m" if "H c = Some m" for c m
    proof -
      have "c \<noteq> b" using that bH by auto
      then have "buf_of s' c = buf_of s c" using p by (simp add: bread_post_def)
      moreover have "mypid s' = mypid s" using bframe_simps(3) [OF q(6)] bio_okD(1) [OF d(2)] by simp
      ultimately show ?thesis using d(6) [OF that] by (simp add: owns_def caches_def holdingsleep_def)
    qed
    have "log_ok s'" using d(1) ok fr q(4) by (simp add: log_ok_def log_shape_def lg)
    then have "tx (H(b \<mapsto> n)) s'"
      unfolding tx_def using d(4,5,7) q fr lg ow by auto
    then show "b \<notin> dom H \<and> tx (H(b \<mapsto> n)) s' \<and> did {} s (view s) s' \<and> b_data (buf_of s' b) = view s n"
      using bH q lg by (simp add: did_def bframe_lframe)
  qed
qed

lemma write_tx:
  assumes t: "tx H s" and b: "H b = Some n" and len: "length d = BSIZE" and r: "room B s" "n \<in> B"
  shows "okK (log_write b (set_data b d s)) (\<lambda>_ s'. tx H s' \<and> did {n} s ((view s)(n := d)) s')"
proof -
  note e = txD [OF t]
  have o: "owns s b n" by (rule e(6) [OF b])
  let ?s = "set_data b d s"
  have sd: "bio_ok (set (logged s)) ?s" "view ?s = (view s)(n := d)" using set_data_ok [OF e(2) o len] by auto
  have b': "b < length (bufs s)" using ownsD(1) [OF o] bio_okD(2) [OF e(2)] by simp
  have f0: "lframe s ?s" by (simp add: set_data_def bframe_lframe)
  have f: "logged ?s = logged s" "lg_start ?s = lg_start s" "lg_size ?s = lg_size s" "lg_outstanding ?s = lg_outstanding s"
    "lh_n ?s = lh_n s" "lh_block ?s = lh_block s" "lg_dev ?s = lg_dev s" "disk ?s = disk s" "dwrites ?s = dwrites s" "lframe s ?s"
    using f0 by (simp_all add: set_data_def logged_def upd_buf_def)
  have ow: "owns ?s c m = owns s c m" for c m
    using b' by (auto simp: set_data_def owns_def caches_def buf_of_upd_buf holdingsleep_def)
  have he: "held ?s = held s" using b' by (auto simp: set_data_def held_def buf_of_upd_buf is_locked_def)
  have ok: "log_ok ?s" using e(1) sd(1) by (simp add: log_ok_def log_shape_def f)
  have lt: "lh_n s + 2 \<le> lg_size s"
  proof -
    have "finite B" using r(1) by (simp add: room_def)
    then have "card (set (logged s)) \<le> card (set (logged s) \<union> B)" by (intro card_mono) auto
    then show ?thesis using r(1) distinct_card [of "logged s"] log_shapeD(5,7,11) [OF e(3)] by (auto simp: room_def)
  qed
  moreover have "lg_size s \<le> int LOGSIZE" using e(3) by (simp add: log_shape_def log_fits_def)
  ultimately have "okK (log_write b ?s) (\<lambda>_ s'. log_ok s' \<and> set (logged s') = insert n (set (logged ?s)) \<and>
     lh_n s' = lh_n ?s + of_bool (n \<notin> set (logged ?s)) \<and> view s' = view ?s \<and> held s' = held ?s \<and>
     (\<forall>c m. owns s' c m = owns ?s c m) \<and> (\<forall>c. b_data (buf_of s' c) = b_data (buf_of ?s c)) \<and>
     disk s' = disk ?s \<and> dwrites s' = dwrites ?s \<and> procs s' = procs ?s \<and> lframe ?s s')"
    using ok o ow e(4) r by (intro log_write_ok) (auto simp: f room_def)
  then show ?thesis
  proof (rule okK_weaken, elim conjE)
    fix s' assume a: "log_ok s'" "set (logged s') = insert n (set (logged ?s))" "view s' = view ?s" "held s' = held ?s"
      "\<forall>c m. owns s' c m = owns ?s c m" "disk s' = disk ?s" "dwrites s' = dwrites ?s" "lframe ?s s'"
    have "tx H s'" unfolding tx_def using a e(4-7) lframe_simps(9) [OF a(8)] by (auto simp: f ow he sd(2))
    moreover have "lframe s s'" using f(10) a(8) by (rule lframe_trans)
    ultimately show "tx H s' \<and> did {n} s ((view s)(n := d)) s'" using a by (auto simp: did_def f sd(2))
  qed
qed

lemma release_tx:
  assumes t: "tx H s" and b: "H b = Some n"
  shows "okK (brelse b s) (\<lambda>_ s'. tx (H(b := None)) s' \<and> did {} s (view s) s')"
proof -
  note d = txD [OF t]
  have "okK (brelse b s) (\<lambda>_ s'. bio_ok (set (logged s)) s' \<and> brelse_post s b s')"
    using d(7) [of n] by (intro brelse_ok [OF d(2) d(6) [OF b]]) blast
  then show ?thesis
  proof (rule okK_weaken, elim conjE)
    fix s' assume ok: "bio_ok (set (logged s)) s'" and p: "brelse_post s b s'"
    note q = brelse_post_simps [OF p]
    note fr = bframe_log [OF q(5)]
    have lg: "logged s' = logged s" by (simp add: logged_def fr)
    have ow: "owns s' c m" if "H c = Some m" "c \<noteq> b" for c m
    proof -
      have "payload (buf_of s' c) = payload (buf_of s c)" using p that by (simp add: brelse_post_def)
      from this [THEN arg_cong [where f = b_valid]] this [THEN arg_cong [where f = b_lock]]
      have "b_valid (buf_of s' c) = b_valid (buf_of s c)" "b_lock (buf_of s' c) = b_lock (buf_of s c)"
        by (simp_all add: payload_def)
      moreover have "mypid s' = mypid s" using bframe_simps(3) [OF q(5)] bio_okD(1) [OF d(2)] by simp
      moreover have "caches s' c m = caches s c m" using p by (simp add: brelse_post_def)
      ultimately show ?thesis using d(6) [OF that(1)] by (simp add: owns_def holdingsleep_def)
    qed
    have "log_ok s'" using d(1) ok fr q(3) by (simp add: log_ok_def log_shape_def lg)
    then have "tx (H(b := None)) s'"
      unfolding tx_def using d(4,5,7) q fr lg ow by auto
    then show "tx (H(b := None)) s' \<and> did {} s (view s) s'"
      using q lg by (simp add: did_def bframe_lframe)
  qed
qed

lemma release_new:
  assumes "tx (H(b \<mapsto> n)) s" "b \<notin> dom H"
  shows "okK (brelse b s) (\<lambda>_ s'. tx H s' \<and> did {} s (view s) s')"
proof -
  have "(H(b \<mapsto> n))(b := None) = H" using assms(2) by (auto simp: fun_eq_iff)
  then show ?thesis using release_tx [OF assms(1), of b n] by simp
qed

lemma did_first: "did {} s (view s) s' \<Longrightarrow> did B s' V s'' \<Longrightarrow> did B s V s''"
  by (rule did_trans [where s' = s' and V = "view s"]) (auto simp: did_def)

lemma did_last: "did B s V s' \<Longrightarrow> did {} s' (view s') s'' \<Longrightarrow> did B s V s''"
  by (rule did_trans [where s' = s' and V = V]) (auto simp: did_def)

text \<open>The code's way to change a block: read it, change the buffer, log it, release it.\<close>

lemma update_tx:
  assumes t: "tx H s" and n: "n \<notin> ran H" and r: "room B s" "n \<in> B" and one: "card (dom H) \<le> 1"
    and len: "length (f (view s n)) = BSIZE"
  shows "okK (bindK (bread ROOTDEV n s) (\<lambda>b s. bindK (log_write b (set_data b (f (b_data (buf_of s b))) s))
           (\<lambda>_ s. brelse b s)))
     (\<lambda>_ s'. tx H s' \<and> did {n} s ((view s)(n := f (view s n))) s')"
proof (rule okK_bindI [OF read_tx [OF t n r(1) one]], elim conjE)
  fix b s1 assume b: "b \<notin> dom H" "tx (H(b \<mapsto> n)) s1" "did {} s (view s) s1" "b_data (buf_of s1 b) = view s n"
  have r1: "room B s1" using did_room [OF did_mono [OF b(3), of B] r(1)] by simp
  have w: "okK (log_write b (set_data b (f (view s n)) s1))
      (\<lambda>_ s'. tx (H(b \<mapsto> n)) s' \<and> did {n} s1 ((view s1)(n := f (view s n))) s')"
    by (rule write_tx [OF b(2) _ len r1 r(2)]) simp
  show "okK (bindK (log_write b (set_data b (f (b_data (buf_of s1 b))) s1)) (\<lambda>_ s. brelse b s))
      (\<lambda>_ s'. tx H s' \<and> did {n} s ((view s)(n := f (view s n))) s')"
    unfolding b(4)
  proof (rule okK_bindI [OF w], elim conjE)
    fix s2 assume s2: "tx (H(b \<mapsto> n)) s2" "did {n} s1 ((view s1)(n := f (view s n))) s2"
    then have "did {n} s ((view s)(n := f (view s n))) s2"
      using did_first [OF b(3)] did_view [OF b(3)] by metis
    then show "okK (brelse b s2) (\<lambda>_ s'. tx H s' \<and> did {n} s ((view s)(n := f (view s n))) s')"
      using release_new [OF s2(1) b(1)] by (elim okK_weaken) (auto intro: did_last)
  qed
qed

section \<open>Allocating and freeing blocks\<close>

lemma bzero_ok:
  assumes "tx H s" "n \<notin> ran H" "room B s" "n \<in> B" "card (dom H) \<le> 1"
  shows "okK (bzero ROOTDEV n s) (\<lambda>_ s'. tx H s' \<and> did {n} s ((view s)(n := replicate BSIZE 0)) s')"
  unfolding bzero_def using update_tx [OF assms, of "\<lambda>_. replicate BSIZE 0"] by simp

text \<open>The bitmap as readers see it.\<close>

definition in_use :: "superblock \<Rightarrow> (uint \<Rightarrow> uchar list) \<Rightarrow> uint \<Rightarrow> bool" where
  "in_use sb v b \<longleftrightarrow> bit_set (v (BBLOCK b sb)) (unat b mod BPB)"

lemma bit_mask_bit: "bit (bit_mask bi) k \<longleftrightarrow> k = bi mod 8"
  by (auto simp: bit_mask_def bit_simps)

lemma bit_set_bit: "bit_set d bi \<longleftrightarrow> bit (d ! (bi div 8)) (bi mod 8)"
proof (cases "bit (d ! (bi div 8)) (bi mod 8)")
  case True
  then have "bit (d ! (bi div 8) AND bit_mask bi) (bi mod 8)" by (simp add: bit_and_iff bit_mask_bit)
  then show ?thesis using True by (auto simp: bit_set_def)
next
  case False
  then have "d ! (bi div 8) AND bit_mask bi = 0" by (intro bit_word_eqI) (auto simp: bit_and_iff bit_mask_bit)
  then show ?thesis using False by (simp add: bit_set_def)
qed

lemma div_mod_8: "a div 8 = b div 8 \<Longrightarrow> a mod 8 = b mod 8 \<longleftrightarrow> a = (b :: nat)"
  by (metis div_mult_mod_eq)

lemma bit_set_mark:
  assumes "length d = BSIZE" "bi < BPB"
  shows "bit_set (d[bi div 8 := d ! (bi div 8) OR bit_mask bi]) bj \<longleftrightarrow> bj = bi \<or> bit_set d bj"
    and "bit_set (d[bi div 8 := d ! (bi div 8) AND NOT (bit_mask bi)]) bj \<longleftrightarrow> bj \<noteq> bi \<and> bit_set d bj"
proof -
  have l: "bi div 8 < length d" using assms by (simp add: param_defs)
  have "bj mod 8 < 8" by simp
  then show "bit_set (d[bi div 8 := d ! (bi div 8) OR bit_mask bi]) bj \<longleftrightarrow> bj = bi \<or> bit_set d bj"
    "bit_set (d[bi div 8 := d ! (bi div 8) AND NOT (bit_mask bi)]) bj \<longleftrightarrow> bj \<noteq> bi \<and> bit_set d bj"
    using l div_mod_8 [of bj bi]
    by (cases "bj div 8 = bi div 8"; auto simp: bit_set_bit nth_upd bit_or_iff bit_and_iff bit_not_iff bit_mask_bit)+
qed

text \<open>The bitmap fits its blocks: the bit of a block number lies in the block \<^verbatim>\<open>BBLOCK\<close> names.\<close>

lemma BBLOCK_group:
  "bi < BPB \<Longrightarrow> b + bi < 2 ^ 32 \<Longrightarrow> b = g * BPB \<Longrightarrow>
     BBLOCK (of_nat (b + bi)) sb = BBLOCK (of_nat b) sb \<and> unat (of_nat (b + bi) :: uint) mod BPB = bi"
  by (simp add: BBLOCK_def word_unat_eq_iff unat_div unat_of_nat take_bit_eq_mod param_defs unat_word_ariths
      del: of_nat_add of_nat_mult)

definition map_blocks :: "superblock \<Rightarrow> uint set" where
  "map_blocks sb = {BBLOCK b sb | b. b < sb_size sb}"

text \<open>The bitmap lies outside the log and does not wrap around.\<close>

definition bitmap_ok :: "'a fs_st_scheme \<Rightarrow> bool" where
  "bitmap_ok s \<longleftrightarrow> map_blocks (fs_sb s) \<inter> log_area (lg_start s) (lg_size s) = {} \<and>
     unat (sb_size (fs_sb s)) + BPB \<le> 2 ^ 31 \<and>
     unat (sb_bmapstart (fs_sb s)) + unat (sb_size (fs_sb s)) div BPB < 2 ^ 32"

lemma BBLOCK_inj:
  assumes "bitmap_ok s" "b < sb_size (fs_sb s)" "c < sb_size (fs_sb s)" "BBLOCK b (fs_sb s) = BBLOCK c (fs_sb s)"
    "unat b mod BPB = unat c mod BPB"
  shows "b = c"
proof -
  have u: "unat (BBLOCK x (fs_sb s)) = unat x div BPB + unat (sb_bmapstart (fs_sb s))" if "x < sb_size (fs_sb s)" for x
  proof -
    have "unat x div BPB \<le> unat (sb_size (fs_sb s)) div BPB" using that by (intro div_le_mono) (simp add: word_less_nat_alt)
    then show ?thesis using assms(1)
      by (simp add: BBLOCK_def unat_word_ariths unat_div bitmap_ok_def param_defs)
  qed
  have "unat b div BPB = unat c div BPB" using u [OF assms(2)] u [OF assms(3)] assms(4) by simp
  then have "unat b = unat c" using assms(5) by (metis div_mult_mod_eq)
  then show ?thesis by (simp add: word_unat_eq_iff)
qed

text \<open>The flat search the two nested loops of \<^verbatim>\<open>balloc\<close> amount to.\<close>

definition free_block :: "superblock \<Rightarrow> (uint \<Rightarrow> uchar list) \<Rightarrow> nat option" where
  "free_block sb v = find (\<lambda>b. \<not> in_use sb v (of_nat b)) [0..<unat (sb_size sb)]"

lemma upt_split: "i \<le> j \<Longrightarrow> j \<le> k \<Longrightarrow> [i..<k] = [i..<j] @ [j..<k]"
  using upt_add_eq_append [of i j "k - j"] by simp

lemma find_append: "find P (xs @ ys) = (case find P xs of Some x \<Rightarrow> Some x | None \<Rightarrow> find P ys)"
  by (induction xs) auto

lemma find_shift: "find P [b..<b + k] = map_option ((+) b) (find (\<lambda>i. P (b + i)) [0..<k])"
  by (induction k) (auto simp: find_append split: option.splits)

lemma find_guard: "find (\<lambda>i. b + i < n \<and> Q i) [0..<k] = find Q [0..<min k (n - b)]"
proof (induction k)
  case (Suc k)
  show ?case
  proof (cases "b + k < n")
    case True
    then have "min (Suc k) (n - b) = Suc k" "min k (n - b) = k" by auto
    then show ?thesis using Suc True by (simp add: find_append split: option.split)
  next
    case False
    then have "min (Suc k) (n - b) = min k (n - b)" by auto
    then show ?thesis using Suc False by (simp add: find_append split: option.split)
  qed
qed simp

text \<open>One group of the outer loop: the blocks whose bits share a bitmap block.\<close>

lemma find_group:
  assumes "b = g * BPB" "n \<le> 2 ^ 32" "b < n"
  shows "find (\<lambda>bi. b + bi < n \<and> \<not> bit_set (v (BBLOCK (of_nat b) sb)) bi) [0..<BPB] = r \<Longrightarrow>
    find (\<lambda>c. \<not> in_use sb v (of_nat c)) [b..<n] =
      (case r of Some bi \<Rightarrow> Some (b + bi) | None \<Rightarrow> find (\<lambda>c. \<not> in_use sb v (of_nat c)) [b + BPB..<n])"
proof -
  let ?k = "min BPB (n - b)"
  assume r: "find (\<lambda>bi. b + bi < n \<and> \<not> bit_set (v (BBLOCK (of_nat b) sb)) bi) [0..<BPB] = r"
  have sp: "[b..<n] = [b..<b + ?k] @ [b + ?k..<n]" using assms(3) by (intro upt_split) auto
  have "find (\<lambda>c. \<not> in_use sb v (of_nat c)) [b..<b + ?k] =
      map_option ((+) b) (find (\<lambda>i. \<not> in_use sb v (of_nat (b + i))) [0..<?k])" by (rule find_shift)
  also have "find (\<lambda>i. \<not> in_use sb v (of_nat (b + i))) [0..<?k] =
      find (\<lambda>i. \<not> bit_set (v (BBLOCK (of_nat b) sb)) i) [0..<?k]"
  proof (rule find_cong [OF refl])
    fix i assume "i \<in> set [0..<?k]"
    then have "i < BPB" "b + i < 2 ^ 32" using assms by auto
    from BBLOCK_group [OF this assms(1)] show "(\<not> in_use sb v (of_nat (b + i))) = (\<not> bit_set (v (BBLOCK (of_nat b) sb)) i)"
      by (simp add: in_use_def)
  qed
  also have "\<dots> = r" using r find_guard [of b n "\<lambda>i. \<not> bit_set (v (BBLOCK (of_nat b) sb)) i" BPB] by simp
  finally have "find (\<lambda>c. \<not> in_use sb v (of_nat c)) [b..<n] =
      (case map_option ((+) b) r of Some x \<Rightarrow> Some x | None \<Rightarrow> find (\<lambda>c. \<not> in_use sb v (of_nat c)) [b + ?k..<n])"
    unfolding sp find_append by simp
  moreover have "[b + ?k..<n] = [b + BPB..<n]" using assms(3) by (cases "BPB \<le> n - b") (auto simp: min_def)
  ultimately show ?thesis by (cases r) auto
qed

text \<open>What readers see once block \<open>c\<close> is taken: its bit set and its contents zero.\<close>

definition take_block :: "superblock \<Rightarrow> uint \<Rightarrow> (uint \<Rightarrow> uchar list) \<Rightarrow> uint \<Rightarrow> uchar list" where
  "take_block sb c v = (let m = BBLOCK c sb; bi = unat c mod BPB in
     (v(m := (v m)[bi div 8 := v m ! (bi div 8) OR bit_mask bi]))(c := replicate BSIZE 0))"

lemma lframe_bitmap: "lframe s s' \<Longrightarrow> bitmap_ok s' = bitmap_ok s"
  using lframe_simps(7,8) [of s s'] lframe_fs [of s s'] by (simp add: bitmap_ok_def)

lemma tx_length: "tx H s \<Longrightarrow> length (view s n) = BSIZE"
  by (rule view_length [OF txD(2)])

lemma balloc_group_ok:
  assumes t: "tx H s" and r: "room B s" and one: "card (dom H) \<le> 1" and bm: "bitmap_ok s"
    and b: "b = g * BPB" "b < unat (sb_size (fs_sb s))"
    and H: "\<And>n. n \<in> ran H \<Longrightarrow> in_use (fs_sb s) (view s) n \<and> n \<notin> map_blocks (fs_sb s)"
    and B: "\<And>c. free_block (fs_sb s) (view s) = Some c \<Longrightarrow> BBLOCK (of_nat c) (fs_sb s) \<in> B \<and> of_nat c \<in> B"
    and before: "\<And>c. c < b \<Longrightarrow> in_use (fs_sb s) (view s) (of_nat c)"
  shows "okK (balloc_group ROOTDEV b s) (\<lambda>r s'. tx H s' \<and> (case r of
      None \<Rightarrow> did {} s (view s) s' \<and> (\<forall>c < b + BPB. c < unat (sb_size (fs_sb s)) \<longrightarrow> in_use (fs_sb s) (view s) (of_nat c))
    | Some a \<Rightarrow> free_block (fs_sb s) (view s) = Some (unat a) \<and> did B s (take_block (fs_sb s) a (view s)) s'))"
proof -
  let ?n = "unat (sb_size (fs_sb s))" and ?m = "BBLOCK (of_nat b) (fs_sb s)"
  have n32: "?n \<le> 2 ^ 32" using unat_less_32 [of "sb_size (fs_sb s)"] by simp
  have "of_nat b < sb_size (fs_sb s)" using b(2) n32 by (simp add: word_less_nat_alt unat_of_nat take_bit_eq_mod)
  then have mm: "?m \<in> map_blocks (fs_sb s)" by (auto simp: map_blocks_def)
  then have nr: "?m \<notin> ran H" using H by blast
  have fb: "free_block (fs_sb s) (view s) = find (\<lambda>c. \<not> in_use (fs_sb s) (view s) (of_nat c)) [b..<?n]"
  proof -
    have "[0..<?n] = [0..<b] @ [b..<?n]" using b(2) by (intro upt_split) auto
    moreover have "find (\<lambda>c. \<not> in_use (fs_sb s) (view s) (of_nat c)) [0..<b] = None"
      using before by (auto simp: find_None_iff)
    ultimately show ?thesis by (simp add: free_block_def find_append)
  qed
  show ?thesis
    unfolding balloc_group_def
  proof (rule okK_bindI [OF read_tx [OF t nr r one]], elim conjE, goal_cases)
    case (1 bp s1)
    note s1 = this
    have sb: "fs_sb s1 = fs_sb s" using s1(3) lframe_fs(1) by (auto simp: did_def)
    have r1: "room B s1" using did_room [OF did_mono [OF s1(3), of B] r] by simp
    note v1 = did_view [OF s1(3)]
    define res where "res = find (\<lambda>bi. b + bi < ?n \<and> \<not> bit_set (view s ?m) bi) [0..<BPB]"
    note fg = find_group [where v = "view s" and sb = "fs_sb s", OF b(1) n32 b(2) res_def [symmetric], folded fb]
    show ?case
    proof (cases res)
      case None
      then have "\<forall>bi < BPB. b + bi < ?n \<longrightarrow> bit_set (view s ?m) bi"
        unfolding res_def find_None_iff by auto
      then have "in_use (fs_sb s) (view s) (of_nat c)" if "c < b + BPB" "c < ?n" for c
        using before [of c] BBLOCK_group [of "c - b" b g] that n32 b(1) by (cases "c < b") (auto simp: in_use_def)
      moreover have "\<not> 2 ^ 31 \<le> b + BPB" using bm b(2) by (simp add: bitmap_ok_def)
      moreover have "okK (brelse bp s1) (\<lambda>_ s'. tx H s' \<and> did {} s (view s) s')"
        by (rule okK_weaken [OF release_new [OF s1(2,1)]]) (use did_last [OF s1(3)] v1 in auto)
      ultimately show ?thesis
        using None unfolding Let_def s1(4) sb res_def [symmetric] by (auto simp: okK_bindK elim!: okK_weaken)
    next
      case (Some bi)
      then have bi: "bi < BPB" "b + bi < ?n" "\<not> bit_set (view s ?m) bi"
        unfolding res_def find_Some_iff by auto
      let ?a = "of_nat (b + bi) :: uint"
      have ua: "unat ?a = b + bi" using bi(2) n32 by (simp add: unat_of_nat take_bit_eq_mod del: of_nat_add)
      have grp: "BBLOCK ?a (fs_sb s) = ?m" "unat ?a mod BPB = bi" using BBLOCK_group [OF bi(1) _ b(1), of "fs_sb s"] bi(2) n32 by auto
      have fr: "free_block (fs_sb s) (view s) = Some (b + bi)" using fg Some by simp
      from B [OF fr] have inB: "?m \<in> B" "?a \<in> B" using grp by auto
      have aH: "?a \<notin> ran H" using H [of ?a] bi(3) grp by (auto simp: in_use_def)
      let ?d = "(view s ?m)[bi div 8 := view s ?m ! (bi div 8) OR bit_mask bi]"
      have w: "okK (log_write bp (set_data bp ?d s1)) (\<lambda>_ s'. tx (H(bp \<mapsto> ?m)) s' \<and> did {?m} s1 ((view s1)(?m := ?d)) s')"
        by (rule write_tx [OF s1(2) _ _ r1 inB(1)]) (simp_all add: tx_length [OF t])
      have "okK (bindK (log_write bp (set_data bp ?d s1)) (\<lambda>_ s. bindK (brelse bp s) (\<lambda>_ s. bzero ROOTDEV ?a s)))
          (\<lambda>_ s'. tx H s' \<and> did B s (take_block (fs_sb s) ?a (view s)) s')"
      proof (rule okK_bindI [OF w], elim conjE, rule okK_bindI [OF release_new [OF _ s1(1)]], assumption, elim conjE, goal_cases)
        case (1 u s2 u' s3)
        have "did B s ((view s)(?m := ?d)) s2"
          using did_first [OF s1(3) 1(2) [unfolded v1]] did_mono inB(1) by blast
        then have d3: "did B s ((view s)(?m := ?d)) s3" using did_last 1(4) by blast
        have r3: "room B s3" by (rule did_room [OF d3 r])
        show ?case
        proof (rule okK_weaken [OF bzero_ok [OF 1(3) aH r3 inB(2) one]], elim conjE)
          fix s4 assume "tx H s4" and d4: "did {?a} s3 ((view s3)(?a := replicate BSIZE 0)) s4"
          have "did B s ((view s3)(?a := replicate BSIZE 0)) s4"
            using did_trans [OF d3 did_mono [OF d4]] inB(2) by blast
          then show "tx H s4 \<and> did B s (take_block (fs_sb s) ?a (view s)) s4"
            using \<open>tx H s4\<close> did_view [OF d3] by (simp add: take_block_def Let_def grp del: of_nat_add)
        qed
      qed
      then have "okK (bindK (log_write bp (set_data bp ?d s1)) (\<lambda>_ s. bindK (brelse bp s) (\<lambda>_ s.
          bindK (bzero ROOTDEV ?a s) (\<lambda>_ s. Ret (Some ?a) s))))
          (\<lambda>r s'. r = Some ?a \<and> tx H s' \<and> did B s (take_block (fs_sb s) ?a (view s)) s')"
        by (simp add: okK_bindK)
      then show ?thesis
        using Some fr ua unfolding Let_def s1(4) sb res_def [symmetric]
        by (simp del: of_nat_add) (elim okK_weaken, simp)
    qed
  qed
qed

lemma tx_kprint [simp]: "tx H (kprint m s) = tx H s" "view (kprint m s) = view s"
proof -
  have e: "bufs (kprint m s) = bufs s" "disk (kprint m s) = disk s" "procs (kprint m s) = procs s" "cur (kprint m s) = cur s"
    "logged (kprint m s) = logged s" "lg_outstanding (kprint m s) = lg_outstanding s"
    by (simp_all add: kprint_def logged_def)
  have sh: "log_shape (kprint m s) = log_shape s" "lg_start (kprint m s) = lg_start s"
    by (simp_all add: kprint_def log_shape_def logged_def)
  show v: "view (kprint m s) = view s" by (rule bio_cong(3) [OF e(1-4)])
  show "tx H (kprint m s) = tx H s"
    unfolding tx_def log_ok_def e sh v bio_cong(1,2,4) [OF e(1-4)] ..
qed

lemma balloc_loop_ok:
  assumes t: "tx H s" and r: "room B s" and one: "card (dom H) \<le> 1" and bm: "bitmap_ok s"
    and H: "\<And>n. n \<in> ran H \<Longrightarrow> in_use (fs_sb s) (view s) n \<and> n \<notin> map_blocks (fs_sb s)"
    and B: "\<And>c. free_block (fs_sb s) (view s) = Some c \<Longrightarrow> BBLOCK (of_nat c) (fs_sb s) \<in> B \<and> of_nat c \<in> B"
    and before: "\<And>c. c < g * BPB \<Longrightarrow> c < unat (sb_size (fs_sb s)) \<Longrightarrow> in_use (fs_sb s) (view s) (of_nat c)"
    and G: "G = (unat (sb_size (fs_sb s)) + BPB - 1) div BPB"
  shows "okK (findK (map (\<lambda>g. g * BPB) [g..<G]) (balloc_group ROOTDEV) s) (\<lambda>r s'. tx H s' \<and> (case r of
      None \<Rightarrow> free_block (fs_sb s) (view s) = None \<and> did {} s (view s) s'
    | Some a \<Rightarrow> free_block (fs_sb s) (view s) = Some (unat a) \<and> did B s (take_block (fs_sb s) a (view s)) s'))"
  using assms
proof (induction "G - g" arbitrary: g s)
  case 0
  then have "\<And>c. c < unat (sb_size (fs_sb s)) \<Longrightarrow> c < g * BPB"
    by (simp add: param_defs)
  then have "free_block (fs_sb s) (view s) = None"
    using 0 by (auto simp: free_block_def find_None_iff)
  then show ?case using 0 by simp
next
  case (Suc k)
  have lt: "g * BPB < unat (sb_size (fs_sb s))" using Suc.hyps(2) Suc.prems(8) by (simp add: param_defs)
  have c: "[g..<G] = g # [Suc g..<G]" using Suc.hyps(2) by (simp add: upt_conv_Cons)
  show ?case
    unfolding c list.map findK.simps
  proof (rule okK_bindI [OF balloc_group_ok [OF Suc.prems(1-4) refl lt Suc.prems(5,6)]], goal_cases)
    case (4 r s1)
    show ?case
    proof (cases r)
      case None
      then have s1: "tx H s1" "did {} s (view s) s1"
        "\<And>c. c < g * BPB + BPB \<Longrightarrow> c < unat (sb_size (fs_sb s)) \<Longrightarrow> in_use (fs_sb s) (view s) (of_nat c)"
        using 4 by auto
      have f: "fs_sb s1 = fs_sb s" "bitmap_ok s1" "view s1 = view s"
        using s1(2) lframe_fs(1) lframe_bitmap Suc.prems(4) by (auto simp: did_def)
      have "okK (findK (map (\<lambda>g. g * BPB) [Suc g..<G]) (balloc_group ROOTDEV) s1) (\<lambda>r s'. tx H s' \<and> (case r of
          None \<Rightarrow> free_block (fs_sb s1) (view s1) = None \<and> did {} s1 (view s1) s'
        | Some a \<Rightarrow> free_block (fs_sb s1) (view s1) = Some (unat a) \<and> did B s1 (take_block (fs_sb s1) a (view s1)) s'))"
        using Suc.hyps(2) Suc.prems s1 f did_room [OF did_mono [OF s1(2), of B] Suc.prems(2)]
        by (intro Suc.hyps(1)) (auto simp: add.commute)
      then show ?thesis
        using None f did_first [OF s1(2)]
        by (auto elim!: okK_weaken split: option.splits)
    qed (use 4 in auto)
  qed (use Suc.prems lt in auto)
qed

lemma in_use_take:
  assumes "bitmap_ok s" "length (v (BBLOCK a (fs_sb s))) = BSIZE" "a < sb_size (fs_sb s)" "c < sb_size (fs_sb s)"
    "a \<notin> map_blocks (fs_sb s)"
  shows "in_use (fs_sb s) (take_block (fs_sb s) a v) c \<longleftrightarrow> c = a \<or> in_use (fs_sb s) v c"
proof -
  let ?m = "BBLOCK a (fs_sb s)"
  have "?m \<noteq> a" using assms(3,5) by (auto simp: map_blocks_def)
  moreover have "BBLOCK c (fs_sb s) \<noteq> a" using assms(4,5) by (auto simp: map_blocks_def)
  moreover have "unat a mod BPB < BPB" by (simp add: param_defs)
  ultimately show ?thesis
    using bit_set_mark(1) [OF assms(2), of "unat a mod BPB" "unat c mod BPB"] BBLOCK_inj [OF assms(1,4,3)]
    by (auto simp: in_use_def take_block_def Let_def)
qed

text \<open>\<^verbatim>\<open>bfree\<close> clears the bit of a block in use, and panics on a block that is free already.\<close>

definition drop_block :: "superblock \<Rightarrow> uint \<Rightarrow> (uint \<Rightarrow> uchar list) \<Rightarrow> uint \<Rightarrow> uchar list" where
  "drop_block sb b v = (let m = BBLOCK b sb; bi = unat b mod BPB in
     v(m := (v m)[bi div 8 := v m ! (bi div 8) AND NOT (bit_mask bi)]))"

lemma in_use_drop:
  assumes "bitmap_ok s" "length (v (BBLOCK a (fs_sb s))) = BSIZE" "a < sb_size (fs_sb s)" "c < sb_size (fs_sb s)"
  shows "in_use (fs_sb s) (drop_block (fs_sb s) a v) c \<longleftrightarrow> c \<noteq> a \<and> in_use (fs_sb s) v c"
proof -
  have "unat a mod BPB < BPB" by (simp add: param_defs)
  then show ?thesis
    using bit_set_mark(2) [OF assms(2), of "unat a mod BPB" "unat c mod BPB"] BBLOCK_inj [OF assms(1,4,3)]
    by (auto simp: in_use_def drop_block_def Let_def)
qed

lemma bfree_ok:
  assumes t: "tx H s" and n: "BBLOCK b (fs_sb s) \<notin> ran H" and r: "room B s" "BBLOCK b (fs_sb s) \<in> B"
    and one: "card (dom H) \<le> 1" and u: "in_use (fs_sb s) (view s) b"
  shows "okK (bfree ROOTDEV b s) (\<lambda>_ s'. tx H s' \<and> did {BBLOCK b (fs_sb s)} s (drop_block (fs_sb s) b (view s)) s')"
proof -
  let ?m = "BBLOCK b (fs_sb s)" and ?bi = "unat b mod BPB"
  let ?f = "\<lambda>d :: uchar list. d[?bi div 8 := d ! (?bi div 8) AND NOT (bit_mask ?bi)]"
  have "okK (bindK (bread ROOTDEV ?m s) (\<lambda>b s. bindK (log_write b (set_data b (?f (b_data (buf_of s b))) s)) (\<lambda>_ s. brelse b s)))
      (\<lambda>_ s'. tx H s' \<and> did {?m} s ((view s)(?m := ?f (view s ?m))) s')"
    by (rule update_tx [OF t n r one]) (simp add: tx_length [OF t])
  moreover have "okK (bread ROOTDEV ?m s) (\<lambda>bp s1. b_data (buf_of s1 bp) = view s ?m)"
    by (rule okK_weaken [OF read_tx [OF t n r(1) one]]) simp
  ultimately show ?thesis
    using u unfolding bfree_def drop_block_def in_use_def Let_def by (cases "bread ROOTDEV ?m s") auto
qed

section \<open>An example file system\<close>

text \<open>The state after boot from a disk \<open>d\<close> with an empty log, with the inode table \<open>ino\<close> and one
  operation begun.\<close>

definition demo_fs :: "(uint \<Rightarrow> uchar list) \<Rightarrow> inode list \<Rightarrow> fs_st" where
  "demo_fs d ino = binit \<lparr>procs = replicate NPROC zero_proc, cur = Some 0, nextpid = 2, initproc = Some 0, ticks = 0,
     kout = [], mem = (\<lambda>_. 0), freelist = 0, kend = 0, kernel_pagetable = 0,
     bufs = replicate (Suc NBUF) zero_buf, disk = d, dwrites = [],
     lg_start = 2, lg_size = 30, lg_outstanding = 1, lg_committing = 0, lg_dev = ROOTDEV,
     lh_n = 0, lh_block = replicate LOGSIZE 0, fs_sb = demo_sb, inodes = ino\<rparr>"

lemma demo_fs_ok:
  assumes "\<And>n. length (d n) = BSIZE" "head_n (d 2) = 0"
  shows "tx Map.empty (demo_fs d ino)" "view (demo_fs d ino) = d" "logged (demo_fs d ino) = []"
    "fs_sb (demo_fs d ino) = demo_sb" "inodes (demo_fs d ino) = ino" "bitmap_ok (demo_fs d ino)"
    "finite B \<Longrightarrow> B \<inter> log_area 2 30 = {} \<Longrightarrow> card B \<le> 28 \<Longrightarrow> room B (demo_fs d ino)"
proof -
  let ?r = "\<lparr>procs = replicate NPROC zero_proc, cur = Some 0, nextpid = 2, initproc = Some 0, ticks = 0,
     kout = [], mem = (\<lambda>_. 0), freelist = 0, kend = 0, kernel_pagetable = 0,
     bufs = replicate (Suc NBUF) zero_buf, disk = d, dwrites = [],
     lg_start = 2, lg_size = 30, lg_outstanding = 1, lg_committing = 0, lg_dev = ROOTDEV,
     lh_n = 0, lh_block = replicate LOGSIZE 0, fs_sb = demo_sb, inodes = ino\<rparr> :: fs_st"
  have e: "demo_fs d ino = binit ?r" by (simp add: demo_fs_def)
  have k: "sched_ok ?r" "bufs ?r = replicate (Suc NBUF) zero_buf" by (simp_all add: sched_ok_def NPROC_def)
  note b = binit_ok [OF k] and f = bframe_log [of ?r "binit ?r"]
  have b: "bio_ok {} (binit ?r)" "view (binit ?r) = d" "held (binit ?r) = {}" "bframe ?r (binit ?r)" "disk (binit ?r) = d"
    using binit_ok [OF k] assms(1) by simp_all
  note f = bframe_log [OF b(4)] and g = lframe_fs [OF bframe_lframe [OF b(4)]]
  show lg: "logged (demo_fs d ino) = []" "view (demo_fs d ino) = d" "fs_sb (demo_fs d ino) = demo_sb" "inodes (demo_fs d ino) = ino"
    using f g b(2) by (simp_all add: e logged_def)
  have "log_ok (demo_fs d ino)"
    using b f lg assms(2) by (simp add: e log_ok_def log_shape_def log_fits_def param_defs)
  then show "tx Map.empty (demo_fs d ino)" using b f lg by (simp add: e tx_def)
  show "bitmap_ok (demo_fs d ino)"
    using lg(3) f by (auto simp: e bitmap_ok_def demo_sb_def param_defs map_blocks_def BBLOCK_def log_area_def
        word_unat_eq_iff unat_word_ariths unat_div word_less_nat_alt)
  show "room B (demo_fs d ino)" if "finite B" "B \<inter> log_area 2 30 = {}" "card B \<le> 28"
    using that lg(1) f by (simp add: e room_def)
qed

section \<open>The block allocator is correct\<close>

text \<open>
  C8: \<^verbatim>\<open>balloc\<close> allocates the first free block. In an open transaction whose log has room for the
  bitmap block and the new block, it returns the least block number whose bit is clear, sets
  that bit and no other, zeroes the block, and changes no other block; when every bit is set
  it returns 0 and changes no block.
\<close>

theorem balloc_correct:
  assumes "tx Map.empty s" and "bitmap_ok s" and "room B s"
    and "\<forall>c. free_block (fs_sb s) (view s) = Some c \<longrightarrow>
      {BBLOCK (of_nat c) (fs_sb s), of_nat c} \<subseteq> B \<and> of_nat c \<notin> map_blocks (fs_sb s)"
  shows "okK (balloc ROOTDEV s) (\<lambda>a s'. tx Map.empty s' \<and> (case free_block (fs_sb s) (view s) of
      None \<Rightarrow> a = 0 \<and> view s' = view s
    | Some c \<Rightarrow> unat a = c \<and> view s' a = replicate BSIZE 0 \<and>
        (\<forall>x < sb_size (fs_sb s). in_use (fs_sb s) (view s') x = (x = a \<or> in_use (fs_sb s) (view s) x)) \<and>
        (\<forall>n. n \<noteq> a \<longrightarrow> n \<noteq> BBLOCK a (fs_sb s) \<longrightarrow> view s' n = view s n)))"
proof -
  have "okK (findK (map (\<lambda>g. g * BPB) [0..<(unat (sb_size (fs_sb s)) + BPB - 1) div BPB]) (balloc_group ROOTDEV) s)
     (\<lambda>r s'. tx Map.empty s' \<and> (case r of
      None \<Rightarrow> free_block (fs_sb s) (view s) = None \<and> did {} s (view s) s'
    | Some a \<Rightarrow> free_block (fs_sb s) (view s) = Some (unat a) \<and> did B s (take_block (fs_sb s) a (view s)) s'))"
    using assms by (intro balloc_loop_ok) auto
  moreover have "in_use (fs_sb s) (take_block (fs_sb s) a (view s)) x = (x = a \<or> in_use (fs_sb s) (view s) x)"
    if "free_block (fs_sb s) (view s) = Some (unat a)" "x < sb_size (fs_sb s)" for a x
  proof -
    have "a < sb_size (fs_sb s)" using that(1) by (auto simp: free_block_def find_Some_iff word_less_nat_alt)
    then show ?thesis
      using that assms(4) by (intro in_use_take [OF assms(2)]) (auto simp: tx_length [OF assms(1)])
  qed
  ultimately show ?thesis
    unfolding balloc_def okK_bindK
    by (elim okK_weaken) (auto simp: did_def take_block_def Let_def split: option.splits)
qed

definition demo_bitmap :: "uint \<Rightarrow> uchar list" where
  "demo_bitmap n = (if n = 45 then 1 # replicate 1023 0 else replicate 1024 0)"

lemma demo_bitmap_ok: "length (demo_bitmap n) = BSIZE" "head_n (demo_bitmap 2) = 0"
  "free_block demo_sb demo_bitmap = Some 1" "map_blocks demo_sb = {45}"
proof -
  show "length (demo_bitmap n) = BSIZE" by (simp add: demo_bitmap_def BSIZE_def)
  show "head_n (demo_bitmap 2) = 0" by (simp add: demo_bitmap_def head_n_def get32_def)
  have "in_use demo_sb demo_bitmap 0" "\<not> in_use demo_sb demo_bitmap 1"
    by (simp_all add: in_use_def BBLOCK_def demo_sb_def demo_bitmap_def bit_set_def bit_mask_def param_defs)
  moreover have "[0..<unat (sb_size demo_sb)] = [0..<2] @ [2..<unat (sb_size demo_sb)]"
    by (rule upt_split) (simp_all add: demo_sb_def)
  moreover have "[0..<2] = [0, 1 :: nat]" by (simp add: upt_rec)
  ultimately show "free_block demo_sb demo_bitmap = Some 1"
    unfolding free_block_def by simp
  show "map_blocks demo_sb = {45}"
  proof -
    have "BBLOCK b demo_sb = 45" if "b < 2000" for b
      using that by (simp add: BBLOCK_def demo_sb_def param_defs word_unat_eq_iff unat_word_ariths unat_div word_less_nat_alt)
    then show ?thesis unfolding map_blocks_def by (auto simp: demo_sb_def intro: exI [of _ 0])
  qed
qed

theorem balloc_correct_witness:
  "okK (balloc ROOTDEV (demo_fs demo_bitmap [])) (\<lambda>a s'. unat a = 1 \<and> view s' 1 = replicate BSIZE 0 \<and>
     (\<forall>x < 2000. in_use demo_sb (view s') x = (x = 1 \<or> in_use demo_sb demo_bitmap x)))"
proof -
  note d = demo_fs_ok [where d = demo_bitmap and ino = "[]", OF demo_bitmap_ok(1,2)]
  have "okK (balloc ROOTDEV (demo_fs demo_bitmap [])) (\<lambda>a s'. tx Map.empty s' \<and>
     (case free_block (fs_sb (demo_fs demo_bitmap [])) (view (demo_fs demo_bitmap [])) of
      None \<Rightarrow> a = 0 \<and> view s' = view (demo_fs demo_bitmap [])
    | Some c \<Rightarrow> unat a = c \<and> view s' a = replicate BSIZE 0 \<and>
        (\<forall>x < sb_size (fs_sb (demo_fs demo_bitmap [])). in_use (fs_sb (demo_fs demo_bitmap [])) (view s') x =
           (x = a \<or> in_use (fs_sb (demo_fs demo_bitmap [])) (view (demo_fs demo_bitmap [])) x)) \<and>
        (\<forall>n. n \<noteq> a \<longrightarrow> n \<noteq> BBLOCK a (fs_sb (demo_fs demo_bitmap [])) \<longrightarrow>
           view s' n = view (demo_fs demo_bitmap []) n)))"
  proof (rule balloc_correct [OF d(1,6)])
    show "room {45, 1} (demo_fs demo_bitmap [])" by (rule d(7)) (simp_all add: log_area_def)
    have "BBLOCK (of_nat 1) demo_sb = 45" by (simp add: BBLOCK_def param_defs demo_sb_def)
    then show "\<forall>c. free_block (fs_sb (demo_fs demo_bitmap [])) (view (demo_fs demo_bitmap [])) = Some c \<longrightarrow>
      {BBLOCK (of_nat c) (fs_sb (demo_fs demo_bitmap [])), of_nat c} \<subseteq> {45, 1} \<and>
      of_nat c \<notin> map_blocks (fs_sb (demo_fs demo_bitmap []))"
      unfolding d demo_bitmap_ok(3,4) by auto
  qed
  moreover have "a = 1" if "unat a = 1" for a :: uint using that by (simp add: word_unat_eq_iff)
  moreover have "sb_size demo_sb = 2000" by (simp add: demo_sb_def)
  ultimately show ?thesis
    unfolding d demo_bitmap_ok(3) option.case by (elim okK_weaken) metis
qed

end
