(* ===== verification/Fs_Inode.thy ===== *)
theory Fs_Inode
  imports Fs_Block
begin

text \<open>
  Inodes, \<^verbatim>\<open>src/kernel/fs.c\<close>: the table of in-memory inodes with its reference counts and locks,
  the on-disk inode as 64 bytes of a block, the mapping of file blocks to disk blocks, and
  reading and writing file contents.
\<close>

definition T_DIR :: ushort where [param_defs]: "T_DIR = 1"
definition T_FILE :: ushort where [param_defs]: "T_FILE = 2"
definition T_DEVICE :: ushort where [param_defs]: "T_DEVICE = 3"

definition upd_inode :: "nat \<Rightarrow> (inode \<Rightarrow> inode) \<Rightarrow> 'a fs_st_scheme \<Rightarrow> 'a fs_st_scheme" where
  "upd_inode i f s = s\<lparr>inodes := (inodes s)[i := f (inodes s ! i)]\<rparr>"

abbreviation ino :: "'a fs_st_scheme \<Rightarrow> nat \<Rightarrow> inode" where
  "ino s i \<equiv> inodes s ! i"

section \<open>The inode table\<close>

definition iinit :: "'a fs_st_scheme \<Rightarrow> 'a fs_st_scheme" where
  "iinit s = s\<lparr>inodes := map (\<lambda>x. x\<lparr>i_lock := initsleeplock (i_lock x)\<rparr>) (inodes s)\<rparr>"

text \<open>One pass finds the entry of the inode, if there is one, and else remembers the first free entry.\<close>

definition iget :: "uint \<Rightarrow> uint \<Rightarrow> 'a fs_st_scheme \<Rightarrow> (nat, 'a fs_st_scheme) outcome" where
  "iget dev inum s =
     (case scan (\<lambda>x. 0 < i_ref x \<and> i_dev x = dev \<and> i_inum x = inum) (inodes s) of
        Some i \<Rightarrow> Ret i (upd_inode i (\<lambda>x. x\<lparr>i_ref := i_ref x + 1\<rparr>) s)
      | None \<Rightarrow>
         (case scan (\<lambda>x. i_ref x = 0) (inodes s) of
            None \<Rightarrow> Panic ''iget: no inodes''
          | Some i \<Rightarrow> Ret i (upd_inode i (\<lambda>x. x\<lparr>i_dev := dev, i_inum := inum, i_ref := 1, i_valid := 0\<rparr>) s)))"

definition idup :: "nat \<Rightarrow> 'a fs_st_scheme \<Rightarrow> nat \<times> 'a fs_st_scheme" where
  "idup ip s = (ip, upd_inode ip (\<lambda>x. x\<lparr>i_ref := i_ref x + 1\<rparr>) s)"

section \<open>On-disk inodes\<close>

record dinode =
  d_type :: ushort
  d_major :: ushort
  d_minor :: ushort
  d_nlink :: ushort
  d_size :: uint
  d_addrs :: "uint list"

text \<open>The place of an inode in its block, and the fields of \<^verbatim>\<open>struct dinode\<close> there.\<close>

definition dinode_off :: "uint \<Rightarrow> nat" where
  "dinode_off inum = (unat inum mod IPB) * 64"

definition get_dinode :: "uchar list \<Rightarrow> nat \<Rightarrow> dinode" where
  "get_dinode d k = \<lparr>d_type = get16 d k, d_major = get16 d (k + 2), d_minor = get16 d (k + 4),
     d_nlink = get16 d (k + 6), d_size = get32 d (k + 8),
     d_addrs = map (\<lambda>i. get32 d (k + 12 + 4 * i)) [0..<NDIRECT + 1]\<rparr>"

definition put_dinode :: "nat \<Rightarrow> dinode \<Rightarrow> uchar list \<Rightarrow> uchar list" where
  "put_dinode k x d =
     (let d = put16 k (d_type x) d;
          d = put16 (k + 2) (d_major x) d;
          d = put16 (k + 4) (d_minor x) d;
          d = put16 (k + 6) (d_nlink x) d;
          d = put32 (k + 8) (d_size x) d
      in fold (\<lambda>i d. put32 (k + 12 + 4 * i) (d_addrs x ! i) d) [0..<NDIRECT + 1] d)"

text \<open>The disk half of an in-memory inode, and loading it.\<close>

definition dinode_of :: "inode \<Rightarrow> dinode" where
  "dinode_of x = \<lparr>d_type = i_type x, d_major = i_major x, d_minor = i_minor x, d_nlink = i_nlink x,
     d_size = i_size x, d_addrs = i_addrs x\<rparr>"

definition load_dinode :: "dinode \<Rightarrow> inode \<Rightarrow> inode" where
  "load_dinode y x = x\<lparr>i_type := d_type y, i_major := d_major y, i_minor := d_minor y,
     i_nlink := d_nlink y, i_size := d_size y, i_addrs := d_addrs y\<rparr>"

text \<open>The loop counter of \<^verbatim>\<open>ialloc\<close> is an \<open>int\<close> compared with an unsigned count.\<close>

definition ialloc :: "uint \<Rightarrow> ushort \<Rightarrow> 'a fs_st_scheme \<Rightarrow> (nat option, 'a fs_st_scheme) outcome" where
  "ialloc dev type s =
     bindK (findK [1..<unat (sb_ninodes (fs_sb s))] (\<lambda>inum s.
       if 2 ^ 31 \<le> inum then Stuck else
       bindK (bread dev (IBLOCK (of_nat inum) (fs_sb s)) s) (\<lambda>bp s.
       let d = b_data (buf_of s bp); k = dinode_off (of_nat inum) in
       if get16 d k = 0
       then bindK (log_write bp (set_data bp (put16 k type (put_bytes k (replicate 64 0) d)) s)) (\<lambda>_ s.
            bindK (brelse bp s) (\<lambda>_ s.
            bindK (iget dev (of_nat inum) s) (\<lambda>ip s. Ret (Some ip) s)))
       else bindK (brelse bp s) (\<lambda>_ s. Ret None s))) s)
     (\<lambda>r s. case r of Some ip \<Rightarrow> Ret (Some ip) s
        | None \<Rightarrow> Ret None (kprint ''ialloc: no inodes\<newline>'' s))"

definition iupdate :: "nat \<Rightarrow> 'a fs_st_scheme \<Rightarrow> (unit, 'a fs_st_scheme) outcome" where
  "iupdate ip s =
     bindK (bread (i_dev (ino s ip)) (IBLOCK (i_inum (ino s ip)) (fs_sb s)) s) (\<lambda>bp s.
     bindK (log_write bp (set_data bp
         (put_dinode (dinode_off (i_inum (ino s ip))) (dinode_of (ino s ip)) (b_data (buf_of s bp))) s)) (\<lambda>_ s.
     brelse bp s))"

section \<open>Locking\<close>

text \<open>A null pointer is \<open>None\<close>.\<close>

definition ilock :: "nat option \<Rightarrow> 'a fs_st_scheme \<Rightarrow> (unit, 'a fs_st_scheme) outcome" where
  "ilock p s = (case p of None \<Rightarrow> Panic ''ilock'' | Some ip \<Rightarrow>
     if i_ref (ino s ip) < 1 then Panic ''ilock''
     else bindK (acquiresleep (ChanInodeLock ip) (i_lock (ino s ip)) s) (\<lambda>lk s.
       let s = upd_inode ip (\<lambda>x. x\<lparr>i_lock := lk\<rparr>) s in
       if i_valid (ino s ip) = 0
       then bindK (bread (i_dev (ino s ip)) (IBLOCK (i_inum (ino s ip)) (fs_sb s)) s) (\<lambda>bp s.
            let y = get_dinode (b_data (buf_of s bp)) (dinode_off (i_inum (ino s ip)));
                s = upd_inode ip (load_dinode y) s in
            bindK (brelse bp s) (\<lambda>_ s.
            let s = upd_inode ip (\<lambda>x. x\<lparr>i_valid := 1\<rparr>) s in
            if i_type (ino s ip) = 0 then Panic ''ilock: no type'' else Ret () s))
       else Ret () s))"

definition iunlock :: "nat option \<Rightarrow> 'a fs_st_scheme \<Rightarrow> (unit, 'a fs_st_scheme) outcome" where
  "iunlock p s = (case p of None \<Rightarrow> Panic ''iunlock'' | Some ip \<Rightarrow>
     if \<not> holdingsleep (i_lock (ino s ip)) s \<or> i_ref (ino s ip) < 1 then Panic ''iunlock''
     else let (lk, s) = releasesleep (ChanInodeLock ip) (i_lock (ino s ip)) s
          in Ret () (upd_inode ip (\<lambda>x. x\<lparr>i_lock := lk\<rparr>) s))"

section \<open>Blocks of a file\<close>

definition bmap :: "nat \<Rightarrow> uint \<Rightarrow> 'a fs_st_scheme \<Rightarrow> (uint, 'a fs_st_scheme) outcome" where
  "bmap ip bn s =
     (if bn < of_nat NDIRECT then
        (let addr = i_addrs (ino s ip) ! unat bn in
         if addr = 0
         then bindK (balloc (i_dev (ino s ip)) s) (\<lambda>addr s.
              if addr = 0 then Ret 0 s
              else Ret addr (upd_inode ip (\<lambda>x. x\<lparr>i_addrs := (i_addrs x)[unat bn := addr]\<rparr>) s))
         else Ret addr s)
      else let bn = bn - of_nat NDIRECT in
      if bn < of_nat NINDIRECT then
        bindK (if i_addrs (ino s ip) ! NDIRECT = 0
               then bindK (balloc (i_dev (ino s ip)) s) (\<lambda>addr s.
                    if addr = 0 then Ret 0 s
                    else Ret addr (upd_inode ip (\<lambda>x. x\<lparr>i_addrs := (i_addrs x)[NDIRECT := addr]\<rparr>) s))
               else Ret (i_addrs (ino s ip) ! NDIRECT) s) (\<lambda>addr s.
        if addr = 0 then Ret 0 s else
        bindK (bread (i_dev (ino s ip)) addr s) (\<lambda>bp s.
        let addr = get32 (b_data (buf_of s bp)) (4 * unat bn) in
        bindK (if addr = 0
               then bindK (balloc (i_dev (ino s ip)) s) (\<lambda>addr s.
                    if addr \<noteq> 0
                    then bindK (log_write bp (set_data bp (put32 (4 * unat bn) addr (b_data (buf_of s bp))) s))
                           (\<lambda>_ s. Ret addr s)
                    else Ret addr s)
               else Ret addr s) (\<lambda>addr s.
        bindK (brelse bp s) (\<lambda>_ s. Ret addr s))))
      else Panic ''bmap: out of range'')"

definition itrunc :: "nat \<Rightarrow> 'a fs_st_scheme \<Rightarrow> (unit, 'a fs_st_scheme) outcome" where
  "itrunc ip s =
     bindK (forK [0..<NDIRECT] (\<lambda>i s.
       if i_addrs (ino s ip) ! i \<noteq> 0
       then bindK (bfree (i_dev (ino s ip)) (i_addrs (ino s ip) ! i) s) (\<lambda>_ s.
            Ret () (upd_inode ip (\<lambda>x. x\<lparr>i_addrs := (i_addrs x)[i := 0]\<rparr>) s))
       else Ret () s) s) (\<lambda>_ s.
     bindK (if i_addrs (ino s ip) ! NDIRECT \<noteq> 0
       then bindK (bread (i_dev (ino s ip)) (i_addrs (ino s ip) ! NDIRECT) s) (\<lambda>bp s.
            bindK (forK [0..<NINDIRECT] (\<lambda>j s.
              let a = get32 (b_data (buf_of s bp)) (4 * j) in
              if a \<noteq> 0 then bfree (i_dev (ino s ip)) a s else Ret () s) s) (\<lambda>_ s.
            bindK (brelse bp s) (\<lambda>_ s.
            bindK (bfree (i_dev (ino s ip)) (i_addrs (ino s ip) ! NDIRECT) s) (\<lambda>_ s.
            Ret () (upd_inode ip (\<lambda>x. x\<lparr>i_addrs := (i_addrs x)[NDIRECT := 0]\<rparr>) s)))))
       else Ret () s) (\<lambda>_ s.
     iupdate ip (upd_inode ip (\<lambda>x. x\<lparr>i_size := 0\<rparr>) s)))"

section \<open>Dropping a reference\<close>

definition iput :: "nat \<Rightarrow> 'a fs_st_scheme \<Rightarrow> (unit, 'a fs_st_scheme) outcome" where
  "iput ip s =
     bindK (if i_ref (ino s ip) = 1 \<and> i_valid (ino s ip) \<noteq> 0 \<and> i_nlink (ino s ip) = 0
       then bindK (acquiresleep (ChanInodeLock ip) (i_lock (ino s ip)) s) (\<lambda>lk s.
            bindK (itrunc ip (upd_inode ip (\<lambda>x. x\<lparr>i_lock := lk\<rparr>) s)) (\<lambda>_ s.
            bindK (iupdate ip (upd_inode ip (\<lambda>x. x\<lparr>i_type := 0\<rparr>) s)) (\<lambda>_ s.
            let s = upd_inode ip (\<lambda>x. x\<lparr>i_valid := 0\<rparr>) s;
                (lk, s) = releasesleep (ChanInodeLock ip) (i_lock (ino s ip)) s
            in Ret () (upd_inode ip (\<lambda>x. x\<lparr>i_lock := lk\<rparr>) s))))
       else Ret () s) (\<lambda>_ s.
     Ret () (upd_inode ip (\<lambda>x. x\<lparr>i_ref := i_ref x - 1\<rparr>) s))"

definition iunlockput :: "nat \<Rightarrow> 'a fs_st_scheme \<Rightarrow> (unit, 'a fs_st_scheme) outcome" where
  "iunlockput ip s = bindK (iunlock (Some ip) s) (\<lambda>_ s. iput ip s)"

section \<open>Status\<close>

record stat =
  st_dev :: int
  st_ino :: uint
  st_type :: ushort
  st_nlink :: ushort
  st_size :: uint64

definition stati :: "nat \<Rightarrow> 'a fs_st_scheme \<Rightarrow> stat" where
  "stati ip s = \<lparr>st_dev = sint (i_dev (ino s ip)), st_ino = i_inum (ino s ip), st_type = i_type (ino s ip),
     st_nlink = i_nlink (ino s ip), st_size = ucast (i_size (ino s ip))\<rparr>"

section \<open>Reading and writing contents\<close>

text \<open>
  Where \<^verbatim>\<open>readi\<close> copies to: a user address of the running process, a kernel address, or an object
  of the caller, which then takes the bytes from the result. Where \<^verbatim>\<open>writei\<close> copies from: a user
  address, or an object of the caller with the given bytes.
\<close>

datatype dest = ToUser uint64 | ToKernel uint64 | ToObject

datatype source = FromUser uint64 | FromObject "uchar list"

definition copy_to :: "dest \<Rightarrow> uchar list \<Rightarrow> 'a fs_st_scheme \<Rightarrow> (int, 'a fs_st_scheme) outcome" where
  "copy_to dst src s = (case dst of
     ToUser a \<Rightarrow> either_copyout True a src s
   | ToKernel a \<Rightarrow> either_copyout False a src s
   | ToObject \<Rightarrow> Ret 0 s)"

definition move_dest :: "uint \<Rightarrow> dest \<Rightarrow> dest" where
  "move_dest m dst = (case dst of ToUser a \<Rightarrow> ToUser (a + ucast m) | ToKernel a \<Rightarrow> ToKernel (a + ucast m) | ToObject \<Rightarrow> ToObject)"

definition copy_from :: "source \<Rightarrow> nat \<Rightarrow> 'a fs_st_scheme \<Rightarrow> (int \<times> uchar list, 'a fs_st_scheme) outcome" where
  "copy_from src m s = (case src of
     FromUser a \<Rightarrow> either_copyin True a m s
   | FromObject bs \<Rightarrow> Ret (0, take m bs) s)"

definition move_source :: "uint \<Rightarrow> source \<Rightarrow> source" where
  "move_source m src = (case src of FromUser a \<Rightarrow> FromUser (a + ucast m) | FromObject bs \<Rightarrow> FromObject (drop (unat m) bs))"

text \<open>The bytes the next round of either loop transfers.\<close>

definition chunk :: "uint \<Rightarrow> uint \<Rightarrow> uint \<Rightarrow> uint" where
  "chunk off n tot = min (n - tot) (of_nat BSIZE - off mod of_nat BSIZE)"

lemma chunk_progress:
  assumes "tot < n"
  shows "0 < chunk off n tot" "unat (tot + chunk off n tot) = unat tot + unat (chunk off n tot)"
    "tot + chunk off n tot \<le> n"
proof -
  have "unat (off mod of_nat BSIZE) < 1024" by (simp add: unat_mod BSIZE_def)
  then have "0 < unat (of_nat BSIZE - off mod of_nat BSIZE :: uint)"
    by (simp add: unat_sub_if_size word_size BSIZE_def)
  moreover have u: "unat (n - tot) = unat n - unat tot" "unat tot < unat n"
    using assms unat_sub [of tot n] by (simp_all add: word_less_nat_alt word_le_nat_alt)
  ultimately show "0 < chunk off n tot" using assms by (simp add: chunk_def min_def word_less_nat_alt)
  have "unat (chunk off n tot) \<le> unat (n - tot)" by (simp add: chunk_def min_def word_le_nat_alt)
  then have le: "unat tot + unat (chunk off n tot) \<le> unat n" using u by simp
  then show e: "unat (tot + chunk off n tot) = unat tot + unat (chunk off n tot)"
    using unat_less_32 [of n] by (simp add: unat_word_ariths)
  show "tot + chunk off n tot \<le> n" using le e by (simp add: word_le_nat_alt)
qed

lemma chunk_decreases: "tot < n \<Longrightarrow> unat n - unat (tot + chunk off n tot) < unat n - unat tot"
  using chunk_progress [of tot n off] by (simp add: word_less_nat_alt)

function readi_loop ::
  "nat \<Rightarrow> dest \<Rightarrow> uint \<Rightarrow> uint \<Rightarrow> uint \<Rightarrow> 'a fs_st_scheme \<Rightarrow> (uint \<times> uchar list, 'a fs_st_scheme) outcome" where
  "readi_loop ip dst off n tot s =
     (if tot < n then
        bindK (bmap ip (off div of_nat BSIZE) s) (\<lambda>addr s.
        if addr = 0 then Ret (tot, []) s
        else bindK (bread (i_dev (ino s ip)) addr s) (\<lambda>bp s.
        let m = chunk off n tot;
            src = get_bytes (unat (off mod of_nat BSIZE)) (unat m) (b_data (buf_of s bp)) in
        bindK (copy_to dst src s) (\<lambda>r s.
        if r = - 1 then bindK (brelse bp s) (\<lambda>_ s. Ret (- 1, []) s)
        else bindK (brelse bp s) (\<lambda>_ s.
             bindK (readi_loop ip (move_dest m dst) (off + m) n (tot + m) s) (\<lambda>r s.
             Ret (fst r, src @ snd r) s)))))
      else Ret (tot, []) s)"
  by pat_completeness auto

termination
  by (relation "measure (\<lambda>(ip, dst, off, n, tot, s). unat n - unat tot)")
    (simp_all add: chunk_decreases)

declare readi_loop.simps [simp del]

definition readi ::
  "nat \<Rightarrow> dest \<Rightarrow> uint \<Rightarrow> uint \<Rightarrow> 'a fs_st_scheme \<Rightarrow> (uint \<times> uchar list, 'a fs_st_scheme) outcome" where
  "readi ip dst off n s =
     (if i_size (ino s ip) < off \<or> off + n < off then Ret (0, []) s
      else let n = (if i_size (ino s ip) < off + n then i_size (ino s ip) - off else n)
           in readi_loop ip dst off n 0 s)"

text \<open>
  The result of the writing loop is the count and the offset it stopped at. A failing copy has
  stored what it had read so far in the buffer, which is then released without being logged.
\<close>

function writei_loop ::
  "nat \<Rightarrow> source \<Rightarrow> uint \<Rightarrow> uint \<Rightarrow> uint \<Rightarrow> 'a fs_st_scheme \<Rightarrow> (uint \<times> uint, 'a fs_st_scheme) outcome" where
  "writei_loop ip src off n tot s =
     (if tot < n then
        bindK (bmap ip (off div of_nat BSIZE) s) (\<lambda>addr s.
        if addr = 0 then Ret (tot, off) s
        else bindK (bread (i_dev (ino s ip)) addr s) (\<lambda>bp s.
        let m = chunk off n tot in
        bindK (copy_from src (unat m) s) (\<lambda>r s.
        let s = set_data bp (put_bytes (unat (off mod of_nat BSIZE)) (snd r) (b_data (buf_of s bp))) s in
        if fst r = - 1 then bindK (brelse bp s) (\<lambda>_ s. Ret (tot, off) s)
        else bindK (log_write bp s) (\<lambda>_ s.
             bindK (brelse bp s) (\<lambda>_ s.
             writei_loop ip (move_source m src) (off + m) n (tot + m) s)))))
      else Ret (tot, off) s)"
  by pat_completeness auto

termination
  by (relation "measure (\<lambda>(ip, dst, off, n, tot, s). unat n - unat tot)")
    (simp_all add: chunk_decreases)

declare writei_loop.simps [simp del]

text \<open>The result \<open>- 1\<close> of an impossible request, otherwise the number of bytes written.\<close>

definition writei ::
  "nat \<Rightarrow> source \<Rightarrow> uint \<Rightarrow> uint \<Rightarrow> 'a fs_st_scheme \<Rightarrow> (uint, 'a fs_st_scheme) outcome" where
  "writei ip src off n s =
     (if i_size (ino s ip) < off \<or> off + n < off then Ret (- 1) s
      else if of_nat (MAXFILE * BSIZE) < off + n then Ret (- 1) s
      else bindK (writei_loop ip src off n 0 s) (\<lambda>r s.
        let s = (if i_size (ino s ip) < snd r then upd_inode ip (\<lambda>x. x\<lparr>i_size := snd r\<rparr>) s else s) in
        bindK (iupdate ip s) (\<lambda>_ s. Ret (fst r) s)))"

section \<open>On-disk inodes: reading back what was written\<close>

lemma length_put_dinode [simp]: "length (put_dinode k x d) = length d"
proof -
  have "length (fold (\<lambda>i d. put32 (k + 12 + 4 * i) (d_addrs x ! i) d) is d) = length d" for "is" d
    by (induction "is" arbitrary: d) auto
  then show ?thesis by (simp add: put_dinode_def Let_def)
qed

lemma fold_put32:
  assumes "k + 4 * n \<le> length d"
  shows "j + 2 \<le> k \<or> k + 4 * n \<le> j \<Longrightarrow> get16 (fold (\<lambda>i d. put32 (k + 4 * i) (f i) d) [0..<n] d) j = get16 d j"
    "i < n \<Longrightarrow> get32 (fold (\<lambda>i d. put32 (k + 4 * i) (f i) d) [0..<n] d) (k + 4 * i) = f i"
    "j + 4 \<le> k \<or> k + 4 * n \<le> j \<Longrightarrow> get32 (fold (\<lambda>i d. put32 (k + 4 * i) (f i) d) [0..<n] d) j = get32 d j"
    "length (fold (\<lambda>i d. put32 (k + 4 * i) (f i) d) [0..<n] d) = length d"
proof -
  let ?F = "\<lambda>n. fold (\<lambda>i d. put32 (k + 4 * i) (f i) d) [0..<n] d"
  have len: "length (?F n) = length d" for n by (induction n) auto
  then show "length (?F n) = length d" .
  show "j + 4 \<le> k \<or> k + 4 * n \<le> j \<Longrightarrow> get32 (?F n) j = get32 d j"
    by (induction n) (auto simp: get32_put32_other)
  show "j + 2 \<le> k \<or> k + 4 * n \<le> j \<Longrightarrow> get16 (?F n) j = get16 d j"
    by (induction n) (auto simp: get16_put32_other)
  show "i < n \<Longrightarrow> get32 (?F n) (k + 4 * i) = f i"
    using assms
  proof (induction n)
    case (Suc n)
    then show ?case
      using len [of n] by (cases "i = n") (auto simp: get32_put32 get32_put32_other less_Suc_eq)
  qed simp
qed

lemma get_put_dinode:
  assumes "k + 64 \<le> length d" "length (d_addrs x) = NDIRECT + 1"
  shows "get_dinode (put_dinode k x d) k = x"
proof -
  have h: "map ((!) (d_addrs x)) [0..<NDIRECT + 1] = d_addrs x" using assms(2) map_nth by metis
  define d5 where "d5 = put32 (k + 8) (d_size x) (put16 (k + 6) (d_nlink x) (put16 (k + 4) (d_minor x)
      (put16 (k + 2) (d_major x) (put16 k (d_type x) d))))"
  have p: "put_dinode k x d = fold (\<lambda>i d. put32 (k + 12 + 4 * i) (d_addrs x ! i) d) [0..<NDIRECT + 1] d5"
    by (simp add: put_dinode_def Let_def d5_def)
  have l5: "length d5 = length d" by (simp add: d5_def)
  have b: "k + 12 + 4 * (NDIRECT + 1) \<le> length d5" using assms(1) l5 by (simp add: param_defs)
  note fp = fold_put32 [OF b, where f = "\<lambda>i. d_addrs x ! i", folded p]
  have g16: "get16 (put_dinode k x d) j = get16 d5 j" if "j + 2 \<le> k + 12" for j using fp(1) [of j] that by simp
  have g32: "get32 (put_dinode k x d) (k + 8) = get32 d5 (k + 8)" using fp(3) [of "k + 8"] by simp
  have "map (\<lambda>i. get32 (put_dinode k x d) (k + 12 + 4 * i)) [0..<NDIRECT + 1] = map ((!) (d_addrs x)) [0..<NDIRECT + 1]"
    by (rule map_cong [OF refl]) (use fp(2) in auto)
  then have a: "map (\<lambda>i. get32 (put_dinode k x d) (k + 12 + 4 * i)) [0..<NDIRECT + 1] = d_addrs x"
    using h by (rule trans)
  show ?thesis
    unfolding get_dinode_def a using g16 [of k] g16 [of "k + 2"] g16 [of "k + 4"] g16 [of "k + 6"] g32 assms(1)
    by (simp add: d5_def get16_put16 get16_put16_other get16_put32_other get32_put32)
qed

lemma get_put_dinode_other:
  assumes "k + 64 \<le> length d" "j + 64 \<le> k \<or> k + 64 \<le> j"
  shows "get_dinode (put_dinode k x d) j = get_dinode d j"
proof -
  define d5 where "d5 = put32 (k + 8) (d_size x) (put16 (k + 6) (d_nlink x) (put16 (k + 4) (d_minor x)
      (put16 (k + 2) (d_major x) (put16 k (d_type x) d))))"
  have p: "put_dinode k x d = fold (\<lambda>i d. put32 (k + 12 + 4 * i) (d_addrs x ! i) d) [0..<NDIRECT + 1] d5"
    by (simp add: put_dinode_def Let_def d5_def)
  have b: "k + 12 + 4 * (NDIRECT + 1) \<le> length d5" using assms(1) by (simp add: param_defs d5_def)
  note fp = fold_put32 [OF b, where f = "\<lambda>i. d_addrs x ! i", folded p]
  have g16: "get16 (put_dinode k x d) (j + i) = get16 d (j + i)" if "i + 2 \<le> 8" for i
    using fp(1) [of "j + i"] that assms(2)
    by (auto simp: param_defs d5_def get16_put16_other get16_put32_other)
  have g32: "get32 (put_dinode k x d) (j + i) = get32 d (j + i)" if "8 \<le> i" "i + 4 \<le> 64" for i
    using fp(3) [of "j + i"] that assms(2)
    by (auto simp: param_defs d5_def get32_put16_other get32_put32_other)
  show ?thesis
    unfolding get_dinode_def using g16 [of 0] g16 [of 2] g16 [of 4] g16 [of 6] g32 [of 8] g32
    by (auto simp: add.assoc param_defs)
qed

text \<open>The inode numbered \<open>i\<close> as readers see it on the disk.\<close>

definition disk_inode :: "superblock \<Rightarrow> (uint \<Rightarrow> uchar list) \<Rightarrow> uint \<Rightarrow> dinode" where
  "disk_inode sb v i = get_dinode (v (IBLOCK i sb)) (dinode_off i)"

definition inodes_fit :: "superblock \<Rightarrow> bool" where
  "inodes_fit sb \<longleftrightarrow> unat (sb_inodestart sb) + unat (sb_ninodes sb) < 2 ^ 32"

lemma dinode_apart:
  assumes "inodes_fit sb" "i < sb_ninodes sb" "j < sb_ninodes sb" "i \<noteq> j" "IBLOCK i sb = IBLOCK j sb"
  shows "dinode_off i + 64 \<le> dinode_off j \<or> dinode_off j + 64 \<le> dinode_off i"
proof -
  have u: "unat (IBLOCK x sb) = unat x div IPB + unat (sb_inodestart sb)" if "x < sb_ninodes sb" for x
  proof -
    have "unat x div 16 \<le> unat x" by simp
    then show ?thesis using that assms(1)
      by (simp add: IBLOCK_def unat_word_ariths unat_div inodes_fit_def param_defs word_less_nat_alt)
  qed
  have "unat i div IPB = unat j div IPB" using u [OF assms(2)] u [OF assms(3)] assms(5) by simp
  moreover have "unat i \<noteq> unat j" using assms(4) by (simp add: word_unat_eq_iff)
  ultimately have "unat i mod IPB \<noteq> unat j mod IPB" by (metis div_mult_mod_eq)
  then show ?thesis unfolding dinode_off_def by (cases "unat i mod IPB < unat j mod IPB") auto
qed

lemma dinode_fits: "dinode_off i + 64 \<le> BSIZE"
proof -
  have "unat i mod IPB < IPB" by (simp add: param_defs)
  then show ?thesis by (simp add: dinode_off_def param_defs)
qed

lemma disk_inode_put:
  fixes i :: uint and sb :: superblock
  assumes "\<And>n. length (v n) = BSIZE" "length (d_addrs x) = NDIRECT + 1"
  defines "v' \<equiv> v(IBLOCK i sb := put_dinode (dinode_off i) x (v (IBLOCK i sb)))"
  shows "disk_inode sb v' i = x"
    "inodes_fit sb \<Longrightarrow> i < sb_ninodes sb \<Longrightarrow> j < sb_ninodes sb \<Longrightarrow> j \<noteq> i \<Longrightarrow> disk_inode sb v' j = disk_inode sb v j"
proof -
  have l: "dinode_off i + 64 \<le> length (v (IBLOCK i sb))" using assms(1) dinode_fits by simp
  show "disk_inode sb v' i = x" using get_put_dinode [OF l assms(2)] by (simp add: disk_inode_def v'_def)
  show "disk_inode sb v' j = disk_inode sb v j" if "inodes_fit sb" "i < sb_ninodes sb" "j < sb_ninodes sb" "j \<noteq> i"
    using get_put_dinode_other [OF l, of "dinode_off j" x] dinode_apart [OF that(1,3,2,4)]
    by (cases "IBLOCK j sb = IBLOCK i sb") (auto simp: disk_inode_def v'_def)
qed

section \<open>Transactions and the inode table\<close>

text \<open>The table is no part of what the cache and the log look at.\<close>

lemma tx_inodes [simp]:
  "tx H (s\<lparr>inodes := x\<rparr>) = tx H s" "view (s\<lparr>inodes := x\<rparr>) = view s" "room B (s\<lparr>inodes := x\<rparr>) = room B s"
  "logged (s\<lparr>inodes := x\<rparr>) = logged s" "mypid (s\<lparr>inodes := x\<rparr>) = mypid s"
proof -
  let ?s = "s\<lparr>inodes := x\<rparr>"
  have e: "bufs ?s = bufs s" "disk ?s = disk s" "procs ?s = procs s" "cur ?s = cur s" by simp_all
  show lg: "logged ?s = logged s" by (simp add: logged_def)
  show v: "view ?s = view s" by (rule bio_cong(3) [OF e])
  show "mypid ?s = mypid s" by (rule bio_cong(5) [OF e])
  have sh: "log_shape ?s = log_shape s" by (simp add: log_shape_def lg)
  show "tx H ?s = tx H s" unfolding tx_def log_ok_def lg sh v bio_cong(1,2,4) [OF e] by simp
  show "room B ?s = room B s" by (simp add: room_def lg)
qed

definition idid :: "uint set \<Rightarrow> 'a fs_st_scheme \<Rightarrow> (uint \<Rightarrow> uchar list) \<Rightarrow> 'a fs_st_scheme \<Rightarrow> bool" where
  "idid B s V s' \<longleftrightarrow> did B (s\<lparr>inodes := []\<rparr>) V (s'\<lparr>inodes := []\<rparr>)"

lemma lframe_inodes: "lframe s s' \<Longrightarrow> lframe (s\<lparr>inodes := x\<rparr>) (s'\<lparr>inodes := x\<rparr>)"
proof -
  assume "lframe s s'"
  then obtain ps bs d w where e: "s'\<lparr>lh_n := 0, lh_block := []\<rparr> =
      s\<lparr>lh_n := 0, lh_block := [], procs := ps, bufs := bs, disk := d, dwrites := w\<rparr>"
    and st: "stateless ps = stateless (procs s)"
    unfolding lframe_def bframe_def by auto
  have "s'\<lparr>inodes := x, lh_n := 0, lh_block := []\<rparr> = s'\<lparr>lh_n := 0, lh_block := [], inodes := x\<rparr>" by simp
  also have "\<dots> = s\<lparr>lh_n := 0, lh_block := [], procs := ps, bufs := bs, disk := d, dwrites := w, inodes := x\<rparr>"
    using e [THEN arg_cong [where f = "inodes_update (\<lambda>_. x)"]] by simp
  also have "\<dots> = s\<lparr>inodes := x, lh_n := 0, lh_block := [], procs := ps, bufs := bs, disk := d, dwrites := w\<rparr>" by simp
  finally have "s'\<lparr>inodes := x, lh_n := 0, lh_block := []\<rparr> =
      s\<lparr>inodes := x, lh_n := 0, lh_block := [], procs := ps, bufs := bs, disk := d, dwrites := w\<rparr>" .
  moreover have "stateless ps = stateless (procs (s\<lparr>inodes := x, lh_n := 0, lh_block := []\<rparr>))" using st by simp
  ultimately show "lframe (s\<lparr>inodes := x\<rparr>) (s'\<lparr>inodes := x\<rparr>)" unfolding lframe_def bframe_def by blast
qed

lemma did_idid: "did B s V s' \<Longrightarrow> idid B s V s' \<and> inodes s' = inodes s"
  by (auto simp: idid_def did_def lframe_fs intro: lframe_inodes)

lemma idid_upd [simp]:
  "idid B s V (t\<lparr>inodes := x\<rparr>) = idid B s V t" "idid B (s\<lparr>inodes := x\<rparr>) V t = idid B s V t"
  "idid B s V (upd_inode i f t) = idid B s V t" "idid B (upd_inode i f s) V t = idid B s V t"
  by (simp_all add: idid_def upd_inode_def)

lemma tx_upd_inode [simp]:
  "tx H (upd_inode i f s) = tx H s" "view (upd_inode i f s) = view s" "room B (upd_inode i f s) = room B s"
  "fs_sb (upd_inode i f s) = fs_sb s" "logged (upd_inode i f s) = logged s" "cur (upd_inode i f s) = cur s"
  "procs (upd_inode i f s) = procs s" "length (inodes (upd_inode i f s)) = length (inodes s)"
  "mypid (upd_inode i f s) = mypid s" "bufs (upd_inode i f s) = bufs s" "disk (upd_inode i f s) = disk s"
  by (simp_all add: upd_inode_def)

lemma ino_upd_inode: "i < length (inodes s) \<Longrightarrow> ino (upd_inode i f s) j = (if i = j then f (ino s i) else ino s j)"
  by (simp add: upd_inode_def)

lemma idid_trans: "idid B s V s' \<Longrightarrow> idid B s' V' s'' \<Longrightarrow> idid B s V' s''"
  unfolding idid_def by (rule did_trans)

lemma idid_mono: "idid B s V s' \<Longrightarrow> B \<subseteq> B' \<Longrightarrow> idid B' s V s'"
  unfolding idid_def by (rule did_mono)

lemma idid_view: "idid B s V s' \<Longrightarrow> view s' = V"
  unfolding idid_def using did_view by fastforce

lemma idid_room: "idid B s V s' \<Longrightarrow> room B s \<Longrightarrow> room B s'"
  unfolding idid_def using did_room [of B "s\<lparr>inodes := []\<rparr>" V "s'\<lparr>inodes := []\<rparr>"] by simp

lemma idid_sb: "idid B s V s' \<Longrightarrow> fs_sb s' = fs_sb s"
  unfolding idid_def did_def using lframe_fs(1) [of "s\<lparr>inodes := []\<rparr>" "s'\<lparr>inodes := []\<rparr>"] by simp

lemma idid_refl [simp]: "idid B s (view s) s"
  using did_refl [of B "s\<lparr>inodes := []\<rparr>"] by (simp add: idid_def)

lemma iupdate_ok:
  assumes t: "tx Map.empty s" and r: "room B s" "IBLOCK (i_inum (ino s ip)) (fs_sb s) \<in> B" and dev: "i_dev (ino s ip) = ROOTDEV"
  shows "okK (iupdate ip s) (\<lambda>_ s'. tx Map.empty s' \<and> inodes s' = inodes s \<and>
     idid B s ((view s)(IBLOCK (i_inum (ino s ip)) (fs_sb s) :=
       put_dinode (dinode_off (i_inum (ino s ip))) (dinode_of (ino s ip)) (view s (IBLOCK (i_inum (ino s ip)) (fs_sb s))))) s')"
proof -
  let ?n = "IBLOCK (i_inum (ino s ip)) (fs_sb s)"
  let ?f = "put_dinode (dinode_off (i_inum (ino s ip))) (dinode_of (ino s ip))"
  have "okK (bindK (bread ROOTDEV ?n s) (\<lambda>b s. bindK (log_write b (set_data b (?f (b_data (buf_of s b))) s)) (\<lambda>_ s. brelse b s)))
      (\<lambda>_ s'. tx Map.empty s' \<and> did {?n} s ((view s)(?n := ?f (view s ?n))) s')"
    by (rule update_tx [OF t _ r]) (simp_all add: tx_length [OF t])
  moreover have "okK (bread ROOTDEV ?n s) (\<lambda>_ s1. inodes s1 = inodes s)"
    by (rule okK_weaken [OF read_tx [OF t _ r(1)]]) (auto dest: did_idid)
  ultimately have "okK (iupdate ip s) (\<lambda>_ s'. tx Map.empty s' \<and> did {?n} s ((view s)(?n := ?f (view s ?n))) s')"
    unfolding iupdate_def dev by (cases "bread ROOTDEV ?n s") auto
  then show ?thesis
    by (elim okK_weaken) (use r(2) idid_mono did_idid in blast)
qed

lemma load_dinode_lock: "load_dinode y (x\<lparr>i_lock := l\<rparr>) = (load_dinode y x)\<lparr>i_lock := l\<rparr>"
  by (simp add: load_dinode_def)

text \<open>Locking an entry that has not been read loads the inode from its block.\<close>

lemma ilock_load_ok:
  assumes t: "tx Map.empty s" and r: "room B s" and ip: "ip < length (inodes s)"
    and x: "i_dev (ino s ip) = ROOTDEV" "1 \<le> i_ref (ino s ip)" "i_valid (ino s ip) = 0" "sl_locked (i_lock (ino s ip)) = 0"
    and ty: "d_type (disk_inode (fs_sb s) (view s) (i_inum (ino s ip))) \<noteq> 0"
  shows "okK (ilock (Some ip) s) (\<lambda>_ s'. tx Map.empty s' \<and> idid {} s (view s) s' \<and>
     inodes s' = (inodes s)[ip := (load_dinode (disk_inode (fs_sb s) (view s) (i_inum (ino s ip))) (ino s ip))
       \<lparr>i_lock := \<lparr>sl_locked = 1, sl_pid = mypid s\<rparr>, i_valid := 1\<rparr>])"
proof -
  let ?lk = "\<lparr>sl_locked = 1, sl_pid = mypid s\<rparr>"
  let ?s = "upd_inode ip (\<lambda>x. x\<lparr>i_lock := ?lk\<rparr>) s"
  let ?y = "disk_inode (fs_sb s) (view s) (i_inum (ino s ip))"
  let ?n = "IBLOCK (i_inum (ino s ip)) (fs_sb s)"
  have "sched_ok s" using txD(2) [OF t] by (rule bio_okD(1))
  then obtain c where "cur s = Some c" by (auto simp: sched_ok_def)
  then have lk: "acquiresleep (ChanInodeLock ip) (i_lock (ino s ip)) s = Ret ?lk s"
    using x(4) by (cases "i_lock (ino s ip)") (simp add: acquiresleep_def mypid_def)
  have i: "ino ?s ip = (ino s ip)\<lparr>i_lock := ?lk\<rparr>" using ip by (simp add: ino_upd_inode)
  have rd: "okK (bread ROOTDEV ?n ?s) (\<lambda>b s'. tx [b \<mapsto> ?n] s' \<and> did {} ?s (view s) s' \<and> b_data (buf_of s' b) = view s ?n)"
    by (rule okK_weaken [OF read_tx [of Map.empty ?s ?n B]]) (use t r in auto)
  have "okK (bindK (bread ROOTDEV ?n ?s) (\<lambda>bp s.
            let s = upd_inode ip (load_dinode (get_dinode (b_data (buf_of s bp)) (dinode_off (i_inum (ino s ip))))) s in
            bindK (brelse bp s) (\<lambda>_ s.
            let s = upd_inode ip (\<lambda>x. x\<lparr>i_valid := 1\<rparr>) s in
            if i_type (ino s ip) = 0 then Panic ''ilock: no type'' else Ret () s)))
     (\<lambda>_ s'. tx Map.empty s' \<and> idid {} s (view s) s' \<and>
       inodes s' = (inodes s)[ip := (load_dinode ?y (ino s ip))\<lparr>i_lock := ?lk, i_valid := 1\<rparr>])"
  proof (rule okK_bindI [OF rd], elim conjE, unfold Let_def)
    fix bp s1 assume s1: "tx [bp \<mapsto> ?n] s1" "did {} ?s (view s) s1" "b_data (buf_of s1 bp) = view s ?n"
    have n1: "inodes s1 = inodes ?s" "idid {} s (view s) s1" using did_idid [OF s1(2)] by auto
    let ?s1 = "upd_inode ip (load_dinode ?y) s1"
    have y: "get_dinode (b_data (buf_of s1 bp)) (dinode_off (i_inum (ino s1 ip))) = ?y"
      using s1(3) n1(1) i by (simp add: disk_inode_def)
    have rl: "okK (brelse bp ?s1) (\<lambda>_ s'. tx Map.empty s' \<and> did {} ?s1 (view ?s1) s')"
      by (rule release_new [where n = ?n]) (use s1 in auto)
    have i1: "inodes ?s1 = (inodes s)[ip := (load_dinode ?y (ino s ip))\<lparr>i_lock := ?lk\<rparr>]"
      using ip n1(1) by (simp add: upd_inode_def load_dinode_lock)
    show "okK (bindK (brelse bp (upd_inode ip (load_dinode (get_dinode (b_data (buf_of s1 bp)) (dinode_off (i_inum (ino s1 ip))))) s1))
         (\<lambda>_ s. if i_type (ino (upd_inode ip (\<lambda>x. x\<lparr>i_valid := 1\<rparr>) s) ip) = 0 then Panic ''ilock: no type''
           else Ret () (upd_inode ip (\<lambda>x. x\<lparr>i_valid := 1\<rparr>) s)))
       (\<lambda>_ s'. tx Map.empty s' \<and> idid {} s (view s) s' \<and>
         inodes s' = (inodes s)[ip := (load_dinode ?y (ino s ip))\<lparr>i_lock := ?lk, i_valid := 1\<rparr>])"
      unfolding y
    proof (rule okK_bindI [OF rl], elim conjE)
      fix s2 assume s2: "tx Map.empty s2" "did {} ?s1 (view ?s1) s2"
      have n2: "inodes s2 = inodes ?s1" "idid {} s (view s) s2"
        using did_idid [OF s2(2)] idid_trans [OF n1(2)] s1(2) by (auto simp: did_def)
      have "inodes (upd_inode ip (\<lambda>x. x\<lparr>i_valid := 1\<rparr>) s2) = (inodes s)[ip := (load_dinode ?y (ino s ip))\<lparr>i_lock := ?lk, i_valid := 1\<rparr>]"
        using ip n2(1) i1 by (simp add: upd_inode_def)
      then show "okK (if i_type (ino (upd_inode ip (\<lambda>x. x\<lparr>i_valid := 1\<rparr>) s2) ip) = 0 then Panic ''ilock: no type''
           else Ret () (upd_inode ip (\<lambda>x. x\<lparr>i_valid := 1\<rparr>) s2))
         (\<lambda>_ s'. tx Map.empty s' \<and> idid {} s (view s) s' \<and>
           inodes s' = (inodes s)[ip := (load_dinode ?y (ino s ip))\<lparr>i_lock := ?lk, i_valid := 1\<rparr>])"
        using ip ty s2(1) n2(2) by (simp add: load_dinode_def)
    qed
  qed
  then show ?thesis
    using x lk i by (simp add: ilock_def Let_def not_less)
qed

lemma load_dinode_of: "dinode_of (load_dinode y x) = y"
  by (simp add: dinode_of_def load_dinode_def)

text \<open>
  C9: What \<^verbatim>\<open>iupdate\<close> writes is what \<^verbatim>\<open>ilock\<close> reads. In an open transaction with room for the
  inode's block, writing an in-memory inode and then locking an unread table entry for the
  same inode number gives that entry exactly the type, device numbers, link count, size and
  block addresses written; and no other inode on the disk has changed, though they share
  blocks.
\<close>

theorem iupdate_ilock_roundtrip:
  assumes "tx Map.empty s" and "room B s" and "IBLOCK (i_inum (ino s ip)) (fs_sb s) \<in> B"
    and "i_dev (ino s ip) = ROOTDEV" and "length (i_addrs (ino s ip)) = NDIRECT + 1" and "i_type (ino s ip) \<noteq> 0"
    and "jp < length (inodes s)" and "i_dev (ino s jp) = ROOTDEV" and "i_inum (ino s jp) = i_inum (ino s ip)"
    and "1 \<le> i_ref (ino s jp)" and "i_valid (ino s jp) = 0" and "sl_locked (i_lock (ino s jp)) = 0"
    and "inodes_fit (fs_sb s)" and "i_inum (ino s ip) < sb_ninodes (fs_sb s)"
  shows "okK (bindK (iupdate ip s) (\<lambda>_ s. ilock (Some jp) s)) (\<lambda>_ s'.
     dinode_of (ino s' jp) = dinode_of (ino s ip) \<and> i_valid (ino s' jp) = 1 \<and>
     disk_inode (fs_sb s) (view s') (i_inum (ino s ip)) = dinode_of (ino s ip) \<and>
     (\<forall>j < sb_ninodes (fs_sb s). j \<noteq> i_inum (ino s ip) \<longrightarrow>
        disk_inode (fs_sb s) (view s') j = disk_inode (fs_sb s) (view s) j))"
proof (rule okK_bindI [OF iupdate_ok [OF assms(1-4)]], elim conjE)
  fix s1 assume s1: "tx Map.empty s1" "inodes s1 = inodes s"
    and d1: "idid B s ((view s)(IBLOCK (i_inum (ino s ip)) (fs_sb s) := put_dinode (dinode_off (i_inum (ino s ip)))
       (dinode_of (ino s ip)) (view s (IBLOCK (i_inum (ino s ip)) (fs_sb s))))) s1"
  let ?i = "i_inum (ino s ip)"
  have sb: "fs_sb s1 = fs_sb s" by (rule idid_sb [OF d1])
  have len: "length (d_addrs (dinode_of (ino s ip))) = NDIRECT + 1" using assms(5) by (simp add: dinode_of_def)
  note dp = disk_inode_put [where v = "view s" and i = ?i and sb = "fs_sb s", OF tx_length [OF assms(1)] len, folded idid_view [OF d1]]
  have di: "disk_inode (fs_sb s1) (view s1) (i_inum (ino s1 jp)) = dinode_of (ino s ip)"
    using dp(1) sb s1(2) assms(9) by simp
  have "okK (ilock (Some jp) s1) (\<lambda>_ s'. tx Map.empty s' \<and> idid {} s1 (view s1) s' \<and>
     inodes s' = (inodes s1)[jp := (load_dinode (disk_inode (fs_sb s1) (view s1) (i_inum (ino s1 jp))) (ino s1 jp))
       \<lparr>i_lock := \<lparr>sl_locked = 1, sl_pid = mypid s1\<rparr>, i_valid := 1\<rparr>])"
    by (rule ilock_load_ok [OF s1(1) idid_room [OF d1 assms(2)]])
      (use assms s1(2) di in \<open>auto simp: dinode_of_def\<close>)
  then show "okK (ilock (Some jp) s1) (\<lambda>_ s'.
     dinode_of (ino s' jp) = dinode_of (ino s ip) \<and> i_valid (ino s' jp) = 1 \<and>
     disk_inode (fs_sb s) (view s') ?i = dinode_of (ino s ip) \<and>
     (\<forall>j < sb_ninodes (fs_sb s). j \<noteq> ?i \<longrightarrow> disk_inode (fs_sb s) (view s') j = disk_inode (fs_sb s) (view s) j))"
    unfolding di
  proof (rule okK_weaken, elim conjE)
    fix s' assume s': "idid {} s1 (view s1) s'" "inodes s' = (inodes s1)[jp := (load_dinode (dinode_of (ino s ip)) (ino s1 jp))
       \<lparr>i_lock := \<lparr>sl_locked = 1, sl_pid = mypid s1\<rparr>, i_valid := 1\<rparr>]"
    have "dinode_of (x\<lparr>i_lock := l, i_valid := v\<rparr>) = dinode_of x" for x l v by (simp add: dinode_of_def)
    then show "dinode_of (ino s' jp) = dinode_of (ino s ip) \<and> i_valid (ino s' jp) = 1 \<and>
      disk_inode (fs_sb s) (view s') ?i = dinode_of (ino s ip) \<and>
      (\<forall>j < sb_ninodes (fs_sb s). j \<noteq> ?i \<longrightarrow> disk_inode (fs_sb s) (view s') j = disk_inode (fs_sb s) (view s) j)"
      using s' s1(2) assms(7,13,14) dp idid_view [OF s'(1)] by (auto simp: load_dinode_of)
  qed
qed

definition demo_inode :: inode where
  "demo_inode = \<lparr>i_dev = ROOTDEV, i_inum = 5, i_ref = 1, i_lock = \<lparr>sl_locked = 0, sl_pid = 0\<rparr>, i_valid = 0,
     i_type = T_FILE, i_major = 0, i_minor = 0, i_nlink = 1, i_size = 700, i_addrs = 70 # replicate NDIRECT 0\<rparr>"

definition blank_disk :: "uint \<Rightarrow> uchar list" where
  "blank_disk n = replicate BSIZE 0"

lemma blank_disk_ok: "length (blank_disk n) = BSIZE" "head_n (blank_disk 2) = 0"
  by (simp_all add: blank_disk_def head_n_def get32_def BSIZE_def)

theorem iupdate_ilock_roundtrip_witness:
  "okK (bindK (iupdate 0 (demo_fs blank_disk [demo_inode, demo_inode\<lparr>i_size := 0\<rparr>])) (\<lambda>_ s. ilock (Some 1) s)) (\<lambda>_ s'.
     dinode_of (ino s' 1) = dinode_of demo_inode \<and> i_size (ino s' 1) = 700 \<and>
     d_size (disk_inode demo_sb (view s') 6) = d_size (disk_inode demo_sb blank_disk 6))"
proof -
  let ?s = "demo_fs blank_disk [demo_inode, demo_inode\<lparr>i_size := 0\<rparr>]"
  note d = demo_fs_ok [where d = blank_disk and ino = "[demo_inode, demo_inode\<lparr>i_size := 0\<rparr>]", OF blank_disk_ok]
  have b: "IBLOCK 5 demo_sb = 32"
    by (simp add: IBLOCK_def demo_sb_def param_defs word_unat_eq_iff unat_div unat_word_ariths)
  have n: "sb_ninodes demo_sb = 200" "inodes_fit demo_sb" by (simp_all add: demo_sb_def inodes_fit_def)
  have "okK (bindK (iupdate 0 ?s) (\<lambda>_ s. ilock (Some 1) s)) (\<lambda>_ s'.
     dinode_of (ino s' 1) = dinode_of (ino ?s 0) \<and> i_valid (ino s' 1) = 1 \<and>
     disk_inode (fs_sb ?s) (view s') (i_inum (ino ?s 0)) = dinode_of (ino ?s 0) \<and>
     (\<forall>j < sb_ninodes (fs_sb ?s). j \<noteq> i_inum (ino ?s 0) \<longrightarrow>
        disk_inode (fs_sb ?s) (view s') j = disk_inode (fs_sb ?s) (view ?s) j))"
  proof (rule iupdate_ilock_roundtrip [OF d(1)])
    show "room {32} ?s" by (rule d(7)) (simp_all add: log_area_def)
  qed (simp_all add: d n, simp_all add: demo_inode_def b T_FILE_def NDIRECT_def)
  then show ?thesis
    unfolding d
  proof (rule okK_weaken, elim conjE, intro conjI)
    fix s' :: fs_st
    assume a: "dinode_of (ino s' 1) = dinode_of ([demo_inode, demo_inode\<lparr>i_size := 0\<rparr>] ! 0)"
      "\<forall>j < sb_ninodes demo_sb. j \<noteq> i_inum ([demo_inode, demo_inode\<lparr>i_size := 0\<rparr>] ! 0) \<longrightarrow>
         disk_inode demo_sb (view s') j = disk_inode demo_sb blank_disk j"
    show "dinode_of (ino s' 1) = dinode_of demo_inode" using a(1) by simp
    then show "i_size (ino s' 1) = 700" by (simp add: dinode_of_def demo_inode_def)
    show "d_size (disk_inode demo_sb (view s') 6) = d_size (disk_inode demo_sb blank_disk 6)"
      using a(2) n(1) by (simp add: demo_inode_def)
  qed
qed

section \<open>The table holds each inode once\<close>

definition itable_ok :: "'a fs_st_scheme \<Rightarrow> bool" where
  "itable_ok s \<longleftrightarrow> length (inodes s) = NINODE \<and> (\<forall>x \<in> set (inodes s). 0 \<le> i_ref x) \<and>
     (\<forall>i < NINODE. \<forall>j < NINODE. 0 < i_ref (ino s i) \<longrightarrow> 0 < i_ref (ino s j) \<longrightarrow>
        i_dev (ino s i) = i_dev (ino s j) \<longrightarrow> i_inum (ino s i) = i_inum (ino s j) \<longrightarrow> i = j)"

lemma itable_ok_upd:
  assumes "itable_ok s" "i < NINODE" "0 \<le> i_ref (f (ino s i))"
    and "0 < i_ref (f (ino s i)) \<Longrightarrow> (\<forall>j < NINODE. j \<noteq> i \<longrightarrow> 0 < i_ref (ino s j) \<longrightarrow>
      \<not> (i_dev (ino s j) = i_dev (f (ino s i)) \<and> i_inum (ino s j) = i_inum (f (ino s i))))"
  shows "itable_ok (upd_inode i f s)"
proof -
  have len: "length (inodes s) = NINODE" using assms(1) by (simp add: itable_ok_def)
  then have at: "ino (upd_inode i f s) j = (if i = j then f (ino s i) else ino s j)" for j
    using assms(2) by (simp add: ino_upd_inode)
  have "\<forall>x \<in> set (inodes (upd_inode i f s)). 0 \<le> i_ref x"
    using assms(1,3) by (auto simp: itable_ok_def upd_inode_def dest!: set_update_subset_insert [THEN subsetD])
  then show ?thesis
    using assms len unfolding itable_ok_def at by auto
qed

text \<open>
  C10: \<^verbatim>\<open>iget\<close> keeps one table entry per inode. From a table without duplicates it returns an entry
  for the requested device and number and leaves a table without duplicates; the entry's
  reference count is one more if it was in the table, and 1 with the contents to be read
  otherwise; no other entry changes. It panics exactly when the inode is not in the table
  and every entry is referenced.
\<close>

theorem iget_unique:
  assumes "itable_ok s"
  shows "case iget dev inum s of
      Ret ip s' \<Rightarrow> itable_ok s' \<and> ip < NINODE \<and> i_dev (ino s' ip) = dev \<and> i_inum (ino s' ip) = inum \<and>
        (if 0 < i_ref (ino s ip) then ino s' ip = (ino s ip)\<lparr>i_ref := i_ref (ino s ip) + 1\<rparr>
         else i_ref (ino s' ip) = 1 \<and> i_valid (ino s' ip) = 0) \<and>
        (\<forall>j. j \<noteq> ip \<longrightarrow> ino s' j = ino s j) \<and> s' = s\<lparr>inodes := inodes s'\<rparr>
    | Panic m \<Rightarrow> m = ''iget: no inodes'' \<and>
        (\<forall>i < NINODE. 0 < i_ref (ino s i) \<and> \<not> (i_dev (ino s i) = dev \<and> i_inum (ino s i) = inum))
    | _ \<Rightarrow> False"
proof -
  have len: "length (inodes s) = NINODE" and nn: "\<And>i. i < NINODE \<Longrightarrow> 0 \<le> i_ref (ino s i)"
    using assms by (auto simp: itable_ok_def)
  let ?P = "\<lambda>x. 0 < i_ref x \<and> i_dev x = dev \<and> i_inum x = inum"
  show ?thesis
  proof (cases "scan ?P (inodes s)")
    case (Some i)
    note si = scan_SomeD [OF Some]
    have "itable_ok (upd_inode i (\<lambda>x. x\<lparr>i_ref := i_ref x + 1\<rparr>) s)"
      using assms si(1,2) len by (intro itable_ok_upd) (auto simp: itable_ok_def)
    then show ?thesis using Some si(1,2) len by (simp add: iget_def ino_upd_inode) (simp add: upd_inode_def)
  next
    case None
    then have no: "\<And>i. i < NINODE \<Longrightarrow> \<not> ?P (ino s i)" using len by (auto simp: scan_None)
    show ?thesis
    proof (cases "scan (\<lambda>x. i_ref x = 0) (inodes s)")
      case (Some i)
      note si = scan_SomeD [OF Some]
      have "itable_ok (upd_inode i (\<lambda>x. x\<lparr>i_dev := dev, i_inum := inum, i_ref := 1, i_valid := 0\<rparr>) s)"
        using assms si(1) len no by (intro itable_ok_upd) auto
      then show ?thesis using Some None si(1,2) len by (simp add: iget_def ino_upd_inode) (simp add: upd_inode_def)
    next
      case n2: None
      then have "i_ref (ino s i) \<noteq> 0" if "i < NINODE" for i using len that by (auto simp: scan_None)
      then have "0 < i_ref (ino s i)" if "i < NINODE" for i using nn [OF that] that by (simp add: order_less_le)
      then show ?thesis using None n2 no by (auto simp: iget_def)
    qed
  qed
qed

theorem iget_unique_witness:
  "case iget ROOTDEV 5 (demo_fs blank_disk (replicate NINODE (demo_inode\<lparr>i_ref := 0\<rparr>))) of
     Ret ip s' \<Rightarrow> itable_ok s' \<and> i_dev (ino s' ip) = ROOTDEV \<and> i_inum (ino s' ip) = 5 | _ \<Rightarrow> False"
proof -
  let ?s = "demo_fs blank_disk (replicate NINODE (demo_inode\<lparr>i_ref := 0\<rparr>))"
  have i: "inodes ?s = replicate NINODE (demo_inode\<lparr>i_ref := 0\<rparr>)"
    using demo_fs_ok(5) [where d = blank_disk, OF blank_disk_ok] .
  have "itable_ok ?s" by (auto simp: itable_ok_def i)
  note u = iget_unique [OF this, of ROOTDEV 5]
  have "0 < NINODE" by (simp add: NINODE_def)
  moreover from this have "\<not> 0 < i_ref (ino ?s 0)" by (simp add: i)
  ultimately show ?thesis using u by (auto split: outcome.splits)
qed

end
