(* ===== verification/Fs_Content.thy ===== *)
theory Fs_Content
  imports Fs_Inode
begin

text \<open>
  The contents of a file as a sequence of bytes, and what \<^verbatim>\<open>bmap\<close>, \<^verbatim>\<open>readi\<close> and \<^verbatim>\<open>writei\<close> of
  \<^verbatim>\<open>src/kernel/fs.c\<close> do in these terms.
\<close>

section \<open>Contents\<close>

text \<open>The disk block of block \<open>bn\<close> of a file, 0 for a hole, and the bytes of the file.\<close>

definition faddr :: "(uint \<Rightarrow> uchar list) \<Rightarrow> inode \<Rightarrow> nat \<Rightarrow> uint" where
  "faddr v x bn =
     (if bn < NDIRECT then i_addrs x ! bn
      else if i_addrs x ! NDIRECT = 0 then 0
      else get32 (v (i_addrs x ! NDIRECT)) (4 * (bn - NDIRECT)))"

definition fbyte :: "(uint \<Rightarrow> uchar list) \<Rightarrow> inode \<Rightarrow> nat \<Rightarrow> uchar" where
  "fbyte v x k = v (faddr v x (k div BSIZE)) ! (k mod BSIZE)"

definition fbytes :: "(uint \<Rightarrow> uchar list) \<Rightarrow> inode \<Rightarrow> nat \<Rightarrow> nat \<Rightarrow> uchar list" where
  "fbytes v x off n = map (fbyte v x) [off..<off + n]"

text \<open>Every block of the range has a disk block.\<close>

definition allocated :: "(uint \<Rightarrow> uchar list) \<Rightarrow> inode \<Rightarrow> nat \<Rightarrow> nat \<Rightarrow> bool" where
  "allocated v x off n \<longleftrightarrow> off + n \<le> MAXFILE * BSIZE \<and> (\<forall>k. off \<le> k \<longrightarrow> k < off + n \<longrightarrow> faddr v x (k div BSIZE) \<noteq> 0)"

lemma length_fbytes [simp]: "length (fbytes v x off n) = n"
  by (simp add: fbytes_def)

lemma fbytes_0 [simp]: "fbytes v x off 0 = []"
  by (simp add: fbytes_def)

lemma fbytes_split: "fbytes v x off (m + n) = fbytes v x off m @ fbytes v x (off + m) n"
  using upt_split [of off "off + m" "off + (m + n)"] by (simp add: fbytes_def add.assoc)

lemma block_index: "r < b \<Longrightarrow> (r + b * c) div b = c" "r < b \<Longrightarrow> (r + b * c) mod b = (r :: nat)"
  by auto

text \<open>Bytes within one block.\<close>

lemma fbytes_block:
  assumes "off mod BSIZE + m \<le> BSIZE" "length (v (faddr v x (off div BSIZE))) = BSIZE"
  shows "fbytes v x off m = get_bytes (off mod BSIZE) m (v (faddr v x (off div BSIZE)))"
proof (rule nth_equalityI)
  show "length (fbytes v x off m) = length (get_bytes (off mod BSIZE) m (v (faddr v x (off div BSIZE))))"
    using assms by simp
next
  fix i assume "i < length (fbytes v x off m)"
  then have i: "i < m" by simp
  have "off mod BSIZE + i < BSIZE" using assms(1) i by simp
  moreover have "off + i = (off mod BSIZE + i) + BSIZE * (off div BSIZE)" by simp
  ultimately have "(off + i) div BSIZE = off div BSIZE" "(off + i) mod BSIZE = off mod BSIZE + i"
    using block_index [of "off mod BSIZE + i" BSIZE "off div BSIZE"] by simp_all
  then show "fbytes v x off m ! i = get_bytes (off mod BSIZE) m (v (faddr v x (off div BSIZE))) ! i"
    using i assms by (simp add: fbytes_def fbyte_def nth_get_bytes)
qed

section \<open>Looking up a block\<close>

lemma bmap_allocated:
  assumes t: "tx Map.empty s" and r: "room B s" and dev: "i_dev (ino s ip) = ROOTDEV"
    and bn: "unat bn < MAXFILE" "faddr (view s) (ino s ip) (unat bn) \<noteq> 0"
  shows "okK (bmap ip bn s) (\<lambda>a s'. a = faddr (view s) (ino s ip) (unat bn) \<and> tx Map.empty s' \<and> did {} s (view s) s')"
proof (cases "unat bn < NDIRECT")
  case True
  then have "bn < of_nat NDIRECT" by (simp add: word_less_nat_alt param_defs)
  then show ?thesis using True bn(2) t by (simp add: bmap_def faddr_def Let_def)
next
  case False
  let ?n = "i_addrs (ino s ip) ! NDIRECT"
  have nd: "\<not> bn < of_nat NDIRECT" using False by (simp add: word_less_nat_alt param_defs)
  then have u: "unat (bn - of_nat NDIRECT) = unat bn - NDIRECT"
    by (simp add: unat_sub not_less param_defs)
  have ni: "bn - of_nat NDIRECT < of_nat NINDIRECT"
    using u bn(1) False by (simp add: word_less_nat_alt param_defs)
  have n0: "?n \<noteq> 0" and a: "get32 (view s ?n) (4 * (unat bn - NDIRECT)) = faddr (view s) (ino s ip) (unat bn)"
    using bn(2) False by (auto simp: faddr_def split: if_splits)
  have rd: "okK (bread ROOTDEV ?n s) (\<lambda>b s'. tx [b \<mapsto> ?n] s' \<and> did {} s (view s) s' \<and> b_data (buf_of s' b) = view s ?n)"
    by (rule okK_weaken [OF read_tx [OF t _ r]]) auto
  have "okK (bindK (bread ROOTDEV ?n s) (\<lambda>bp s. bindK (brelse bp s) (\<lambda>_ s. Ret (faddr (view s0) (ino s0 ip) (unat bn)) s)))
      (\<lambda>a s'. a = faddr (view s0) (ino s0 ip) (unat bn) \<and> tx Map.empty s' \<and> did {} s (view s) s')" for s0
  proof (rule okK_bindI [OF rd], elim conjE)
    fix bp s1 assume s1: "tx [bp \<mapsto> ?n] s1" "did {} s (view s) s1"
    have "okK (brelse bp s1) (\<lambda>_ s'. tx Map.empty s' \<and> did {} s1 (view s1) s')"
      by (rule release_new [where n = ?n]) (use s1 in auto)
    then show "okK (bindK (brelse bp s1) (\<lambda>_ s. Ret (faddr (view s0) (ino s0 ip) (unat bn)) s))
      (\<lambda>a s'. a = faddr (view s0) (ino s0 ip) (unat bn) \<and> tx Map.empty s' \<and> did {} s (view s) s')"
      by (auto simp: okK_bindK elim!: okK_weaken intro: did_last [OF s1(2)])
  qed
  from this [of s] show ?thesis
    using nd ni n0 dev rd bn(2) a u
    by (cases "bread ROOTDEV ?n s") (auto simp: bmap_def Let_def)
qed

text \<open>Both loops look up the block and read it; \<open>F\<close> is the rest of one round.\<close>

lemma with_block_ok:
  assumes t: "tx Map.empty s" and r: "room B s" and dev: "i_dev (ino s ip) = ROOTDEV"
    and bn: "unat bn < MAXFILE" "faddr (view s) (ino s ip) (unat bn) \<noteq> 0"
    and F: "\<And>bp s1. tx [bp \<mapsto> faddr (view s) (ino s ip) (unat bn)] s1 \<Longrightarrow> did {} s (view s) s1 \<Longrightarrow>
      b_data (buf_of s1 bp) = view s (faddr (view s) (ino s ip) (unat bn)) \<Longrightarrow> okK (F bp s1) Q"
  shows "okK (bindK (bmap ip bn s) (\<lambda>a s. if a = 0 then E s else bindK (bread (i_dev (ino s ip)) a s) F)) Q"
proof (rule okK_bindI [OF bmap_allocated [OF t r dev bn]], elim conjE)
  let ?a = "faddr (view s) (ino s ip) (unat bn)"
  fix a s1 assume a: "a = ?a" and s1: "tx Map.empty s1" "did {} s (view s) s1"
  have i1: "inodes s1 = inodes s" "view s1 = view s" using did_idid [OF s1(2)] did_view [OF s1(2)] by auto
  have r1: "room {} s1" using did_room [OF s1(2) room_mono [OF r]] by simp
  have "okK (bindK (bread ROOTDEV ?a s1) F) Q"
    by (rule okK_bindI [OF read_tx [OF s1(1) _ r1]]) (use did_last [OF s1(2)] i1 F in auto)
  then show "okK (if a = 0 then E s1 else bindK (bread (i_dev (ino s1 ip)) a s1) F) Q"
    using a bn(2) i1(1) dev by simp
qed

section \<open>Reading\<close>

lemma unat_block [simp]:
  "unat (off div of_nat BSIZE :: uint) = unat off div BSIZE" "unat (off mod of_nat BSIZE :: uint) = unat off mod BSIZE"
  by (simp_all add: unat_div unat_mod BSIZE_def)

lemma unat_chunk:
  assumes "tot < n"
  shows "unat (chunk off n tot) = min (unat n - unat tot) (BSIZE - unat off mod BSIZE)"
proof -
  have "unat off mod BSIZE < BSIZE" by (simp add: BSIZE_def)
  then have a: "unat (of_nat BSIZE - off mod of_nat BSIZE :: uint) = BSIZE - unat off mod BSIZE"
    by (simp add: unat_sub_if_size word_size) (simp add: BSIZE_def)
  have "unat (n - tot) = unat n - unat tot" using assms unat_sub [of tot n] by simp
  then show ?thesis using a by (simp add: chunk_def min_def word_le_nat_alt)
qed

lemma allocated_step: "allocated v x off (m + n) \<Longrightarrow> allocated v x (off + m) n"
  by (auto simp: allocated_def)

lemma MAXFILE_bytes: "MAXFILE * BSIZE < 2 ^ 32"
  by (simp add: param_defs)

text \<open>The arithmetic of one round, in natural numbers.\<close>

lemma round:
  assumes "tot < n" "allocated v x (unat off) (unat n - unat tot)"
  defines "m \<equiv> chunk off n tot"
  shows "0 < unat m" "unat off mod BSIZE + unat m \<le> BSIZE" "unat off div BSIZE < MAXFILE"
    "faddr v x (unat off div BSIZE) \<noteq> 0" "unat (off + m) = unat off + unat m"
    "unat n - unat tot = unat m + (unat n - unat (tot + m))"
    "allocated v x (unat (off + m)) (unat n - unat (tot + m))" "tot + m \<le> n"
    "unat n - unat (tot + m) < unat n - unat tot" "unat (tot + m) = unat tot + unat m"
proof -
  note cp = chunk_progress [OF assms(1), of off, folded m_def] and um = unat_chunk [OF assms(1), of off, folded m_def]
  show m0: "0 < unat m" "unat off mod BSIZE + unat m \<le> BSIZE" and tm: "unat (tot + m) = unat tot + unat m" "tot + m \<le> n"
    using cp um by (simp_all add: word_less_nat_alt min_def BSIZE_def split: if_splits)
  have le: "unat m \<le> unat n - unat tot" using um by simp
  show "faddr v x (unat off div BSIZE) \<noteq> 0" using assms(2) m0 le by (auto simp: allocated_def)
  have bnd: "unat off + (unat n - unat tot) \<le> MAXFILE * BSIZE" using assms(2) by (simp add: allocated_def)
  then show "unat off div BSIZE < MAXFILE" using m0 le by (auto simp: less_mult_imp_div_less)
  show uo: "unat (off + m) = unat off + unat m"
    using bnd le MAXFILE_bytes by (simp add: unat_word_ariths)
  show sp: "unat n - unat tot = unat m + (unat n - unat (tot + m))" using tm le by simp
  show "allocated v x (unat (off + m)) (unat n - unat (tot + m))"
    using allocated_step assms(2) uo sp by metis
  show "unat n - unat (tot + m) < unat n - unat tot" using sp m0 by simp
qed

lemma readi_loop_ok:
  assumes "tx Map.empty s" "room B s" "i_dev (ino s ip) = ROOTDEV" "tot \<le> n"
    "allocated (view s) (ino s ip) (unat off) (unat n - unat tot)"
  shows "okK (readi_loop ip ToObject off n tot s) (\<lambda>r s'. fst r = n \<and>
     snd r = fbytes (view s) (ino s ip) (unat off) (unat n - unat tot) \<and> tx Map.empty s' \<and> did {} s (view s) s')"
  using assms
proof (induction "unat n - unat tot" arbitrary: off tot s rule: less_induct)
  case less
  note t = less.prems(1) and r = less.prems(2) and dev = less.prems(3) and al = less.prems(5)
  show ?case
  proof (cases "tot < n")
    case False
    then have "tot = n" using less.prems(4) by simp
    then show ?thesis using t by (simp add: readi_loop.simps)
  next
    case True
    define m where "m = chunk off n tot"
    let ?x = "ino s ip" and ?v = "view s"
    let ?a = "faddr ?v ?x (unat off div BSIZE)"
    note rd = round [OF True al, folded m_def]
    have src: "get_bytes (unat off mod BSIZE) (unat m) (?v ?a) = fbytes ?v ?x (unat off) (unat m)"
      by (rule fbytes_block [symmetric, OF rd(2) tx_length [OF t]])
    have sp: "fbytes ?v ?x (unat off) (unat n - unat tot) =
        fbytes ?v ?x (unat off) (unat m) @ fbytes ?v ?x (unat (off + m)) (unat n - unat (tot + m))"
      using fbytes_split rd(5,6) by metis
    show ?thesis
      unfolding readi_loop.simps [of ip ToObject off n tot s] if_P [OF True]
    proof (rule with_block_ok [OF t r dev], goal_cases)
      case (3 bp s1)
      have rl: "okK (brelse bp s1) (\<lambda>_ s'. tx Map.empty s' \<and> did {} s ?v s')"
        by (rule okK_weaken [OF release_new [where n = ?a]]) (use 3 did_last in auto)
      show ?case
        unfolding Let_def 3(3) m_def [symmetric] copy_to_def move_dest_def dest.case bindK.simps unat_block src
      proof (simp, rule okK_bindI [OF rl], elim conjE)
        fix s3 assume s3: "tx Map.empty s3" "did {} s ?v s3"
        have i3: "inodes s3 = inodes s" "view s3 = ?v" using did_idid [OF s3(2)] did_view [OF s3(2)] by auto
        have "room B s3" using did_room [OF did_mono [OF s3(2), of B] r] by simp
        then have "okK (readi_loop ip ToObject (off + m) n (tot + m) s3) (\<lambda>r s'. fst r = n \<and>
           snd r = fbytes (view s3) (ino s3 ip) (unat (off + m)) (unat n - unat (tot + m)) \<and>
           tx Map.empty s' \<and> did {} s3 (view s3) s')"
          using rd(7-9) s3 i3 dev by (intro less.hyps) auto
        then show "okK (bindK (readi_loop ip ToObject (off + m) n (tot + m) s3)
            (\<lambda>r. Ret (fst r, fbytes ?v ?x (unat off) (unat m) @ snd r)))
          (\<lambda>r s'. fst r = n \<and> snd r = fbytes ?v ?x (unat off) (unat n - unat tot) \<and> tx Map.empty s' \<and> did {} s ?v s')"
          by (auto simp: okK_bindK sp i3 elim!: okK_weaken intro: did_trans [OF s3(2)])
      qed
    qed (use rd in simp_all)
  qed
qed

lemma take_upt_min: "take n [i..<j] = [i..<i + min n (j - i)]"
  by (cases "n \<le> j - i"; cases "i \<le> j") (auto simp: min_def take_upt)

lemma readi_ok:
  assumes "tx Map.empty s" "room B s" "i_dev (ino s ip) = ROOTDEV"
    and len: "len = min (unat n) (unat (i_size (ino s ip)) - unat off)"
    and "unat off + unat n < 2 ^ 32"
    and "unat off \<le> unat (i_size (ino s ip)) \<Longrightarrow> allocated (view s) (ino s ip) (unat off) len"
  shows "okK (readi ip ToObject off n s) (\<lambda>r s'. unat (fst r) = len \<and> fst r \<le> n \<and>
     snd r = fbytes (view s) (ino s ip) (unat off) len \<and> tx Map.empty s' \<and> did {} s (view s) s')"
proof (cases "i_size (ino s ip) < off")
  case True
  then have "len = 0" using len by (simp add: word_less_nat_alt)
  then show ?thesis using True assms(1) by (simp add: readi_def)
next
  case False
  let ?sz = "i_size (ino s ip)"
  let ?n = "if ?sz < off + n then ?sz - off else n"
  have u: "unat (off + n) = unat off + unat n" using assms(5) by (simp add: unat_word_ariths)
  have no: "\<not> off + n < off" using u by (simp add: word_less_nat_alt)
  have un: "unat ?n = len"
    using False u len unat_sub [of off ?sz] by (auto simp: word_less_nat_alt word_le_nat_alt not_less)
  then have le: "?n \<le> n" using len by (simp add: word_le_nat_alt del: if_split)
  have al: "allocated (view s) (ino s ip) (unat off) (unat ?n - unat (0 :: uint))"
    using assms(6) False un by (simp add: word_less_nat_alt not_less del: if_split)
  have "okK (readi_loop ip ToObject off ?n 0 s) (\<lambda>r s'. fst r = ?n \<and>
     snd r = fbytes (view s) (ino s ip) (unat off) (unat ?n - unat (0 :: uint)) \<and> tx Map.empty s' \<and> did {} s (view s) s')"
    using al by (intro readi_loop_ok [OF assms(1-3)]) (auto simp del: if_split)
  then have "okK (readi ip ToObject off n s) (\<lambda>r s'. fst r = ?n \<and>
     snd r = fbytes (view s) (ino s ip) (unat off) (unat ?n - unat (0 :: uint)) \<and> tx Map.empty s' \<and> did {} s (view s) s')"
    using False no unfolding readi_def Let_def by simp
  then show ?thesis by (rule okK_weaken) (use un le in \<open>simp del: if_split\<close>)
qed

text \<open>
  C4: Reading a file returns its contents. For a range of an inode whose blocks are allocated
  \<^verbatim>\<open>readi\<close> returns the number of bytes of the range that lie within the file, and those bytes
  in order, whatever direct and indirect blocks they come from; it changes no inode and no
  block.
\<close>

theorem readi_correct:
  assumes "tx Map.empty s" and "room {} s" and "i_dev (ino s ip) = ROOTDEV" and "unat off + unat n < 2 ^ 32"
    and "allocated (view s) (ino s ip) 0 (unat (i_size (ino s ip)))"
  shows "okK (readi ip ToObject off n s) (\<lambda>r s'.
     unat (fst r) = min (unat n) (unat (i_size (ino s ip)) - unat off) \<and>
     snd r = take (unat n) (drop (unat off) (fbytes (view s) (ino s ip) 0 (unat (i_size (ino s ip))))) \<and>
     view s' = view s \<and> inodes s' = inodes s)"
proof -
  let ?sz = "unat (i_size (ino s ip))" and ?len = "min (unat n) (unat (i_size (ino s ip)) - unat off)"
  have "allocated (view s) (ino s ip) (unat off) ?len" if "unat off \<le> ?sz"
    using assms(5) that by (auto simp: allocated_def)
  then have "okK (readi ip ToObject off n s) (\<lambda>r s'. unat (fst r) = ?len \<and> fst r \<le> n \<and>
     snd r = fbytes (view s) (ino s ip) (unat off) ?len \<and> tx Map.empty s' \<and> did {} s (view s) s')"
    using assms by (intro readi_ok) auto
  moreover have "fbytes (view s) (ino s ip) (unat off) ?len = take (unat n) (drop (unat off) (fbytes (view s) (ino s ip) 0 ?sz))"
    by (simp add: fbytes_def take_map drop_map take_upt_min)
  ultimately show ?thesis by (elim okK_weaken) (auto dest: did_idid did_view)
qed

section \<open>Writing\<close>

text \<open>
  \<open>layout v x N B\<close>: the first \<open>N\<close> blocks of the file are allocated, to different disk blocks, all in
  \<open>B\<close> and none of them the block of addresses.
\<close>

definition layout :: "(uint \<Rightarrow> uchar list) \<Rightarrow> inode \<Rightarrow> nat \<Rightarrow> uint set \<Rightarrow> bool" where
  "layout v x N B \<longleftrightarrow> N \<le> MAXFILE \<and> (\<forall>bn < N. faddr v x bn \<noteq> 0 \<and> faddr v x bn \<in> B \<and> faddr v x bn \<noteq> i_addrs x ! NDIRECT) \<and>
     inj_on (faddr v x) {..<N}"

definition wrote_file :: "inode \<Rightarrow> nat \<Rightarrow> nat \<Rightarrow> uchar list \<Rightarrow> (uint \<Rightarrow> uchar list) \<Rightarrow> (uint \<Rightarrow> uchar list) \<Rightarrow> bool" where
  "wrote_file x N off bs v v' \<longleftrightarrow> (\<forall>bn < N. faddr v' x bn = faddr v x bn) \<and>
     (\<forall>k < N * BSIZE. fbyte v' x k = (if off \<le> k \<and> k < off + length bs then bs ! (k - off) else fbyte v x k)) \<and>
     (\<forall>c. c \<notin> faddr v x ` {..<N} \<longrightarrow> v' c = v c)"

lemma wrote_file_refl: "wrote_file x N off [] v v"
  by (auto simp: wrote_file_def)

lemma wrote_file_trans:
  assumes "wrote_file x N off bs v v'" "wrote_file x N (off + length bs) cs v' v''"
  shows "wrote_file x N off (bs @ cs) v v''"
proof -
  have im: "faddr v' x ` {..<N} = faddr v x ` {..<N}" using assms(1) by (auto simp: wrote_file_def image_iff)
  show ?thesis
    using assms im unfolding wrote_file_def by (auto simp: nth_append)
qed

lemma layout_wrote: "wrote_file x N off bs v v' \<Longrightarrow> layout v x N B \<Longrightarrow> layout v' x N B"
  by (auto simp: layout_def wrote_file_def inj_on_def)

lemma div_block: "k div BSIZE = off div BSIZE \<Longrightarrow> off mod BSIZE + m \<le> BSIZE \<Longrightarrow>
   (off mod BSIZE \<le> k mod BSIZE \<and> k mod BSIZE < off mod BSIZE + m \<longleftrightarrow> off \<le> k \<and> k < off + m) \<and>
   (off \<le> k \<longrightarrow> k mod BSIZE - off mod BSIZE = k - off)"
  using div_mult_mod_eq [of k BSIZE] div_mult_mod_eq [of off BSIZE] by (auto; linarith)

lemma div_block_other: "k div BSIZE \<noteq> off div BSIZE \<Longrightarrow> off mod BSIZE + m \<le> BSIZE \<Longrightarrow> \<not> (off \<le> k \<and> k < off + m)"
proof
  assume a: "k div BSIZE \<noteq> off div BSIZE" "off mod BSIZE + m \<le> BSIZE" "off \<le> k \<and> k < off + m"
  have "off mod BSIZE + (k - off) < BSIZE" using a by linarith
  moreover have "k = off mod BSIZE + (k - off) + BSIZE * (off div BSIZE)" using a(3) div_mult_mod_eq [of off BSIZE] by (simp add: mult.commute)
  ultimately have "k div BSIZE = off div BSIZE" using block_index(1) by metis
  then show False using a(1) by simp
qed

lemma wrote_file_block:
  assumes lo: "layout v x N B" and bn: "off div BSIZE < N" and fit: "off mod BSIZE + length bs \<le> BSIZE"
    and len: "\<And>n. length (v n) = BSIZE"
  defines "a \<equiv> faddr v x (off div BSIZE)"
  shows "wrote_file x N off bs v (v(a := put_bytes (off mod BSIZE) bs (v a)))" (is "wrote_file x N off bs v ?v'")
proof -
  have ai: "a \<noteq> i_addrs x ! NDIRECT" using lo bn by (simp add: layout_def a_def)
  have fa: "faddr ?v' x b = faddr v x b" for b using ai by (simp add: faddr_def)
  have "fbyte ?v' x k = (if off \<le> k \<and> k < off + length bs then bs ! (k - off) else fbyte v x k)" if "k < N * BSIZE" for k
  proof (cases "k div BSIZE = off div BSIZE")
    case True
    have kb: "k mod BSIZE < length (v a)" "off mod BSIZE + length bs \<le> length (v a)" using len fit by (simp_all add: BSIZE_def)
    have ka: "faddr v x (k div BSIZE) = a" using True by (simp add: a_def)
    have "fbyte ?v' x k = put_bytes (off mod BSIZE) bs (v a) ! (k mod BSIZE)" unfolding fbyte_def fa ka by simp
    also have "\<dots> = (if off \<le> k \<and> k < off + length bs then bs ! (k - off) else v a ! (k mod BSIZE))"
      unfolding nth_put_bytes [OF kb(2,1)] using div_block [OF True fit] by auto
    finally show ?thesis by (simp add: fbyte_def ka)
  next
    case False
    have "k div BSIZE < N" using that by (simp add: less_mult_imp_div_less)
    then have "faddr v x (k div BSIZE) \<noteq> a" using lo bn False by (auto simp: layout_def a_def inj_on_def)
    then show ?thesis using div_block_other [OF False fit] by (auto simp: fbyte_def fa)
  qed
  then show ?thesis using fa bn by (auto simp: wrote_file_def a_def)
qed

lemma layout_allocated: "layout v x N B \<Longrightarrow> off + n \<le> N * BSIZE \<Longrightarrow> allocated v x off n"
proof -
  assume a: "layout v x N B" "off + n \<le> N * BSIZE"
  have "N * BSIZE \<le> MAXFILE * BSIZE" using a(1) by (intro mult_right_mono) (simp_all add: layout_def)
  with a(2) have "off + n \<le> MAXFILE * BSIZE" by (rule order_trans)
  moreover have "faddr v x (k div BSIZE) \<noteq> 0" if "k < off + n" for k
  proof -
    have "k div BSIZE < N" using that a(2) by (intro less_mult_imp_div_less) simp
    then show ?thesis using a(1) by (simp add: layout_def)
  qed
  ultimately show ?thesis by (simp add: allocated_def)
qed

lemma writei_loop_ok:
  assumes "tx Map.empty s" "room B s" "i_dev (ino s ip) = ROOTDEV" "tot \<le> n"
    "layout (view s) (ino s ip) N B" "unat off + length bs \<le> N * BSIZE" "length bs = unat n - unat tot"
  shows "okK (writei_loop ip (FromObject bs) off n tot s) (\<lambda>r s'. r = (n, off + (n - tot)) \<and> tx Map.empty s' \<and>
     did B s (view s') s' \<and> wrote_file (ino s ip) N (unat off) bs (view s) (view s'))"
  using assms
proof (induction "unat n - unat tot" arbitrary: off tot s bs rule: less_induct)
  case less
  note t = less.prems(1) and r = less.prems(2) and dev = less.prems(3) and lo = less.prems(5)
  have al: "allocated (view s) (ino s ip) (unat off) (unat n - unat tot)"
    using layout_allocated [OF lo less.prems(6)] less.prems(7) by simp
  show ?case
  proof (cases "tot < n")
    case False
    then have "tot = n" using less.prems(4) by simp
    then show ?thesis using t less.prems(7) by (simp add: writei_loop.simps wrote_file_refl)
  next
    case True
    define m where "m = chunk off n tot"
    let ?x = "ino s ip" and ?v = "view s" and ?cs = "take (unat m) bs" and ?o = "unat off mod BSIZE"
    let ?a = "faddr ?v ?x (unat off div BSIZE)"
    note rd = round [OF True al, folded m_def]
    have lc: "length ?cs = unat m" using rd(6) less.prems(7) by simp
    have bnN: "unat off div BSIZE < N" using less.prems(6,7) rd(1,6) by (intro less_mult_imp_div_less) simp
    have aB: "?a \<in> B" using lo bnN by (simp add: layout_def)
    let ?d = "put_bytes ?o ?cs (?v ?a)"
    have ld: "length ?d = BSIZE" using rd(2) lc tx_length [OF t, of ?a] by simp
    have w1: "wrote_file ?x N (unat off) ?cs ?v (?v(?a := ?d))"
      by (rule wrote_file_block [OF lo bnN]) (use rd(2) lc tx_length [OF t] in auto)
    show ?thesis
      unfolding writei_loop.simps [of ip "FromObject bs" off n tot s] if_P [OF True]
    proof (rule with_block_ok [OF t r dev], goal_cases)
      case (3 bp s1)
      have s1: "tx [bp \<mapsto> ?a] s1" "did {} s ?v s1" "b_data (buf_of s1 bp) = ?v ?a" "view s1 = ?v"
        using 3 did_view [OF 3(2)] by simp_all
      have r1: "room B s1" using did_room [OF did_mono [OF s1(2), of B] r] by simp
      have w: "okK (log_write bp (set_data bp ?d s1)) (\<lambda>_ s'. tx [bp \<mapsto> ?a] s' \<and> did B s (?v(?a := ?d)) s')"
      proof (rule okK_weaken [OF write_tx [OF s1(1) _ ld r1 aB]], goal_cases)
        case (2 _ s2)
        have "did B s1 (?v(?a := ?d)) s2" by (rule did_mono [of "{?a}"]) (use 2 aB s1(4) in auto)
        then show ?case using 2 did_first [OF s1(2)] by blast
      qed simp
      show ?case
        unfolding Let_def s1(3) m_def [symmetric] copy_from_def move_source_def source.case bindK.simps unat_block fst_conv snd_conv
      proof (simp, rule okK_bindI [OF w], elim conjE, rule okK_bindI [OF release_new [where n = ?a and H = Map.empty]], goal_cases)
        case (3 _ s2 _ s3)
        then have s3: "tx Map.empty s3" "did B s (?v(?a := ?d)) s3" using did_last by auto
        have i3: "inodes s3 = inodes s" "view s3 = ?v(?a := ?d)" using did_idid [OF s3(2)] did_view [OF s3(2)] by auto
        have lo3: "layout (view s3) (ino s3 ip) N B" using layout_wrote [OF w1 lo] i3 by simp
        have "okK (writei_loop ip (FromObject (drop (unat m) bs)) (off + m) n (tot + m) s3)
           (\<lambda>r s'. r = (n, off + m + (n - (tot + m))) \<and> tx Map.empty s' \<and> did B s3 (view s') s' \<and>
             wrote_file (ino s3 ip) N (unat (off + m)) (drop (unat m) bs) (view s3) (view s'))"
        proof (rule less.hyps [OF rd(9) s3(1) did_room [OF s3(2) r] _ rd(8) lo3])
          show "i_dev (ino s3 ip) = ROOTDEV" using i3(1) dev by simp
          have l: "unat m \<le> length bs" using lc by simp
          show "unat (off + m) + length (drop (unat m) bs) \<le> N * BSIZE" using rd(5) less.prems(6) l by simp
          show "length (drop (unat m) bs) = unat n - unat (tot + m)" using rd(6) less.prems(7) by simp
        qed
        then show ?case
        proof (rule okK_weaken, elim conjE)
          fix rr s' assume f: "rr = (n, off + m + (n - (tot + m)))" "tx Map.empty s'" "did B s3 (view s') s'"
            "wrote_file (ino s3 ip) N (unat (off + m)) (drop (unat m) bs) (view s3) (view s')"
          have "wrote_file ?x N (unat off) (?cs @ drop (unat m) bs) ?v (view s')"
            by (rule wrote_file_trans [OF w1]) (use f(4) i3 rd(5) lc in simp)
          then show "rr = (n, off + (n - tot)) \<and> tx Map.empty s' \<and> did B s (view s') s' \<and>
              wrote_file ?x N (unat off) bs ?v (view s')"
            using f did_trans [OF s3(2)] by simp
        qed
      qed auto
    qed (use rd in simp_all)
  qed
qed

lemma fbyte_size [simp]: "faddr v (x\<lparr>i_size := n\<rparr>) = faddr v x" "fbyte v (x\<lparr>i_size := n\<rparr>) = fbyte v x"
  by (simp_all add: faddr_def fbyte_def fun_eq_iff)

lemma fbyte_other:
  assumes "layout v x N B" "c \<notin> faddr v x ` {..<N}" "c \<noteq> i_addrs x ! NDIRECT" "k < N * BSIZE"
  shows "fbyte (v(c := d)) x k = fbyte v x k"
proof -
  have "k div BSIZE < N" using assms(4) by (simp add: less_mult_imp_div_less)
  then have "faddr v x (k div BSIZE) \<noteq> c" using assms(2) by auto
  moreover have "faddr (v(c := d)) x = faddr v x" using assms(3) by (auto simp: faddr_def fun_eq_iff)
  ultimately show ?thesis by (simp add: fbyte_def)
qed


section \<open>Examples\<close>

lemma demo_file:
  "layout blank_disk demo_inode 1 {70, 32}" "allocated blank_disk demo_inode 0 700"
  "faddr blank_disk demo_inode ` {..<1} = {70}" "i_addrs demo_inode ! NDIRECT = 0"
proof -
  have f: "faddr blank_disk demo_inode 0 = 70" by (simp add: faddr_def demo_inode_def NDIRECT_def)
  show a: "i_addrs demo_inode ! NDIRECT = 0" by (simp add: demo_inode_def NDIRECT_def)
  show "layout blank_disk demo_inode 1 {70, 32}" using f a by (simp add: layout_def param_defs inj_on_def)
  show "allocated blank_disk demo_inode 0 700" using f by (simp add: allocated_def param_defs)
  show "faddr blank_disk demo_inode ` {..<1} = {70}" using f by (simp add: lessThan_Suc)
qed

theorem readi_correct_witness:
  "okK (readi 0 ToObject 600 300 (demo_fs blank_disk [demo_inode])) (\<lambda>r s'. unat (fst r) = 100 \<and>
     snd r = take 300 (drop 600 (fbytes blank_disk demo_inode 0 700)))"
proof -
  let ?s = "demo_fs blank_disk [demo_inode]"
  note d = demo_fs_ok [where d = blank_disk and ino = "[demo_inode]", OF blank_disk_ok]
  have i: "ino ?s 0 = demo_inode" "unat (i_size demo_inode) = 700" "i_dev demo_inode = ROOTDEV"
    using d(5) by (simp_all add: demo_inode_def)
  have "okK (readi 0 ToObject 600 300 ?s) (\<lambda>r s'.
     unat (fst r) = min (unat (300 :: uint)) (unat (i_size (ino ?s 0)) - unat (600 :: uint)) \<and>
     snd r = take (unat (300 :: uint)) (drop (unat (600 :: uint)) (fbytes (view ?s) (ino ?s 0) 0 (unat (i_size (ino ?s 0))))) \<and>
     view s' = view ?s \<and> inodes s' = inodes ?s)"
    by (rule readi_correct [OF d(1)]) (use d i demo_file(2) in simp_all)
  then show ?thesis by (rule okK_weaken) (use i d in simp)
qed


end
