(* ===== verification/Fs_Dir.thy ===== *)
theory Fs_Dir
  imports Fs_Content
begin

text \<open>
  Directories and path names, \<^verbatim>\<open>src/kernel/fs.c\<close>. A name or a path is the list of the bytes before
  its NUL; a directory is a file of 16-byte entries, a two-byte inode number and 14 bytes of
  name.
\<close>

section \<open>Names\<close>

text \<open>The bytes a pointer to a string reads.\<close>

definition chars :: "uchar list \<Rightarrow> cstr" where
  "chars bs = (\<lambda>k. if k < length bs then bs ! k else 0)"

definition namecmp :: "uchar list \<Rightarrow> uchar list \<Rightarrow> int" where
  "namecmp s t = strncmp (chars s) (chars t) DIRSIZ"

definition slash :: uchar where "slash = 47"

text \<open>
  The next element of a path: its bytes go into the 14-byte buffer \<open>name\<close>, and the result is the
  rest of the path, or nothing when there is no element.
\<close>

definition skipelem :: "uchar list \<Rightarrow> uchar list \<Rightarrow> (uchar list \<times> uchar list) option" where
  "skipelem path name =
     (let path = dropWhile (\<lambda>c. c = slash) path in
      if path = [] then None
      else let s = takeWhile (\<lambda>c. c \<noteq> slash) path;
               path = dropWhile (\<lambda>c. c \<noteq> slash) path;
               name = (if DIRSIZ \<le> length s then put_bytes 0 (take DIRSIZ s) name
                       else put_bytes 0 (s @ [0]) name)
           in Some (dropWhile (\<lambda>c. c = slash) path, name))"

section \<open>Directories\<close>

definition sizeof_dirent :: nat where [param_defs]: "sizeof_dirent = 16"

definition dirent_inum :: "uchar list \<Rightarrow> ushort" where
  "dirent_inum de = get16 de 0"

definition dirent_name :: "uchar list \<Rightarrow> uchar list" where
  "dirent_name de = drop 2 de"

definition make_dirent :: "uint \<Rightarrow> uchar list \<Rightarrow> uchar list" where
  "make_dirent inum name = put16 0 (ucast inum) [0, 0] @ strncpy (chars name) DIRSIZ"

text \<open>The offsets the loops over a directory visit.\<close>

definition dir_offsets :: "nat \<Rightarrow> 'a fs_st_scheme \<Rightarrow> nat list" where
  "dir_offsets dp s = map (\<lambda>k. k * sizeof_dirent) [0..<(unat (i_size (ino s dp)) + sizeof_dirent - 1) div sizeof_dirent]"

text \<open>One round of \<^verbatim>\<open>dirlookup\<close>; a result is the inode and the offset of its entry.\<close>

definition dirlookup_at ::
  "nat \<Rightarrow> uchar list \<Rightarrow> nat \<Rightarrow> 'a fs_st_scheme \<Rightarrow> ((nat \<times> uint) option, 'a fs_st_scheme) outcome" where
  "dirlookup_at dp name off s =
     bindK (readi dp ToObject (of_nat off) (of_nat sizeof_dirent) s) (\<lambda>r s.
     if fst r \<noteq> of_nat sizeof_dirent then Panic ''dirlookup read''
     else let de = snd r in
       if dirent_inum de = 0 then Ret None s
       else if namecmp name (dirent_name de) = 0
       then bindK (iget (i_dev (ino s dp)) (ucast (dirent_inum de)) s) (\<lambda>ip s. Ret (Some (ip, of_nat off)) s)
       else Ret None s)"

definition dirlookup :: "nat \<Rightarrow> uchar list \<Rightarrow> 'a fs_st_scheme \<Rightarrow> ((nat \<times> uint) option, 'a fs_st_scheme) outcome" where
  "dirlookup dp name s =
     (if i_type (ino s dp) \<noteq> T_DIR then Panic ''dirlookup not DIR''
      else findK (dir_offsets dp s) (dirlookup_at dp name) s)"

definition dirlink :: "nat \<Rightarrow> uchar list \<Rightarrow> uint \<Rightarrow> 'a fs_st_scheme \<Rightarrow> (int, 'a fs_st_scheme) outcome" where
  "dirlink dp name inum s =
     bindK (dirlookup dp name s) (\<lambda>r s. case r of
       Some (ip, _) \<Rightarrow> bindK (iput ip s) (\<lambda>_ s. Ret (- 1) s)
     | None \<Rightarrow>
         bindK (findK (dir_offsets dp s) (\<lambda>off s.
           bindK (readi dp ToObject (of_nat off) (of_nat sizeof_dirent) s) (\<lambda>r s.
           if fst r \<noteq> of_nat sizeof_dirent then Panic ''dirlink read''
           else if dirent_inum (snd r) = 0 then Ret (Some off) s
           else Ret None s)) s) (\<lambda>r s.
         let off = (case r of Some off \<Rightarrow> off | None \<Rightarrow> length (dir_offsets dp s) * sizeof_dirent) in
         bindK (writei dp (FromObject (make_dirent inum name)) (of_nat off) (of_nat sizeof_dirent) s) (\<lambda>n s.
         if n \<noteq> of_nat sizeof_dirent then Ret (- 1) s else Ret 0 s)))"

section \<open>Paths\<close>

lemma skipelem_shorter: "skipelem path name = Some (path', name') \<Longrightarrow> length path' < length path"
proof -
  assume a: "skipelem path name = Some (path', name')"
  let ?p = "dropWhile (\<lambda>c. c = slash) path"
  have ne: "?p \<noteq> []" and p': "path' = dropWhile (\<lambda>c. c = slash) (dropWhile (\<lambda>c. c \<noteq> slash) ?p)"
    using a by (auto simp: skipelem_def Let_def split: if_splits)
  have "hd ?p \<noteq> slash" using ne hd_dropWhile [of "\<lambda>c. c = slash" path] by simp
  then have "length (dropWhile (\<lambda>c. c \<noteq> slash) ?p) < length ?p" using ne
    by (cases ?p) (auto simp: le_imp_less_Suc length_dropWhile_le)
  then show ?thesis
    using p' length_dropWhile_le [of "\<lambda>c. c = slash" path] length_dropWhile_le [of "\<lambda>c. c = slash" "dropWhile (\<lambda>c. c \<noteq> slash) ?p"]
    by simp
qed

text \<open>The loop of \<^verbatim>\<open>namex\<close>; the result is the inode and the contents of the name buffer.\<close>

function namex_loop ::
  "uchar list \<Rightarrow> bool \<Rightarrow> uchar list \<Rightarrow> nat \<Rightarrow> 'a fs_st_scheme \<Rightarrow> (nat option \<times> uchar list, 'a fs_st_scheme) outcome" where
  "namex_loop path parent name ip s =
     (case skipelem path name of
        None \<Rightarrow>
          if parent then bindK (iput ip s) (\<lambda>_ s. Ret (None, name) s)
          else Ret (Some ip, name) s
      | Some (path', name') \<Rightarrow>
          bindK (ilock (Some ip) s) (\<lambda>_ s.
          if i_type (ino s ip) \<noteq> T_DIR then bindK (iunlockput ip s) (\<lambda>_ s. Ret (None, name') s)
          else if parent \<and> path' = [] then bindK (iunlock (Some ip) s) (\<lambda>_ s. Ret (Some ip, name') s)
          else bindK (dirlookup ip name' s) (\<lambda>r s. case r of
              None \<Rightarrow> bindK (iunlockput ip s) (\<lambda>_ s. Ret (None, name') s)
            | Some (nxt, _) \<Rightarrow> bindK (iunlockput ip s) (\<lambda>_ s. namex_loop path' parent name' nxt s))))"
  by pat_completeness auto

termination
  by (relation "measure (\<lambda>(path, _). length path)") (auto dest: skipelem_shorter)

declare namex_loop.simps [simp del]

definition namex ::
  "uchar list \<Rightarrow> bool \<Rightarrow> uchar list \<Rightarrow> 'a fs_st_scheme \<Rightarrow> (nat option \<times> uchar list, 'a fs_st_scheme) outcome" where
  "namex path parent name s =
     bindK (if path \<noteq> [] \<and> hd path = slash then iget ROOTDEV ROOTINO s
            else (case cur s of None \<Rightarrow> Panic ''kerneltrap''
              | Some p \<Rightarrow> (case p_cwd (procs s ! p) of None \<Rightarrow> Panic ''kerneltrap''
                  | Some d \<Rightarrow> (case idup d s of (ip, s) \<Rightarrow> Ret ip s))))
       (\<lambda>ip s. namex_loop path parent name ip s)"

definition namei :: "uchar list \<Rightarrow> 'a fs_st_scheme \<Rightarrow> (nat option, 'a fs_st_scheme) outcome" where
  "namei path s = bindK (namex path False (replicate DIRSIZ 0) s) (\<lambda>r s. Ret (fst r) s)"

definition nameiparent ::
  "uchar list \<Rightarrow> uchar list \<Rightarrow> 'a fs_st_scheme \<Rightarrow> (nat option \<times> uchar list, 'a fs_st_scheme) outcome" where
  "nameiparent path name s = namex path True name s"

section \<open>Splitting a path\<close>

text \<open>The elements of a path: what lies between slashes and is not empty.\<close>

fun elements :: "uchar list \<Rightarrow> uchar list \<Rightarrow> uchar list list" where
  "elements acc [] = (if acc = [] then [] else [acc])"
| "elements acc (c # cs) =
     (if c = slash then (if acc = [] then [] else [acc]) @ elements [] cs else elements (acc @ [c]) cs)"

lemma elements_word: "slash \<notin> set xs \<Longrightarrow> elements acc (xs @ ys) = elements (acc @ xs) ys"
  by (induction xs arbitrary: acc) auto

lemma elements_slashes: "elements [] (dropWhile (\<lambda>c. c = slash) p) = elements [] p"
  by (induction p) auto

lemma elements_after: "acc \<noteq> [] \<Longrightarrow> p = [] \<or> hd p = slash \<Longrightarrow> elements acc p = acc # elements [] p"
  by (cases p) auto

lemma takeWhile_nul: "0 \<notin> set e \<Longrightarrow> takeWhile (\<lambda>c. c \<noteq> 0) (e @ 0 # r) = e"
  by (induction e) auto

lemma map_chars: "length bs = n \<Longrightarrow> map (chars bs) [0..<n] = bs"
  by (rule nth_equalityI) (auto simp: chars_def)

text \<open>
  C12: \<^verbatim>\<open>skipelem\<close> splits a path as its specification does. It returns null exactly for a path without
  elements; otherwise the buffer holds the first element, cut to 14 bytes, and the path
  returned has the remaining elements and no leading slash.
\<close>

theorem skipelem_correct:
  assumes "length name = DIRSIZ" and "0 \<notin> set path"
  shows "case skipelem path name of
      None \<Rightarrow> elements [] path = []
    | Some (path', name') \<Rightarrow> length name' = DIRSIZ \<and> (path' = [] \<or> hd path' \<noteq> slash) \<and>
        elements [] path \<noteq> [] \<and> cstring (chars name') DIRSIZ = take DIRSIZ (hd (elements [] path)) \<and>
        elements [] path' = tl (elements [] path)"
proof -
  let ?p = "dropWhile (\<lambda>c. c = slash) path"
  let ?e = "takeWhile (\<lambda>c. c \<noteq> slash) ?p" and ?r = "dropWhile (\<lambda>c. c \<noteq> slash) ?p"
  show ?thesis
  proof (cases "?p = []")
    case True
    have "elements [] path = []" using elements_slashes [of path] unfolding True by simp
    then show ?thesis using True by (simp add: skipelem_def)
  next
    case False
    then have "hd ?p \<noteq> slash" using hd_dropWhile [of "\<lambda>c. c = slash" path] by simp
    then have e: "?e \<noteq> []" using False by (cases ?p) auto
    have "slash \<notin> set ?e" by (auto dest: set_takeWhileD)
    moreover have "?r = [] \<or> hd ?r = slash" using hd_dropWhile [of "\<lambda>c. c \<noteq> slash" ?p] by auto
    ultimately have el: "elements [] path = ?e # elements [] ?r"
      using elements_word [of ?e "[]" ?r] elements_after [OF e, of ?r] elements_slashes [of path] by simp
    have z: "0 \<notin> set ?e" using assms(2) by (auto dest!: set_takeWhileD set_dropWhileD)
    define n' where "n' = (if DIRSIZ \<le> length ?e then put_bytes 0 (take DIRSIZ ?e) name else put_bytes 0 (?e @ [0]) name)"
    have ln: "length n' = DIRSIZ" using assms(1) by (auto simp: n'_def not_le)
    have "takeWhile (\<lambda>c. c \<noteq> 0) n' = take DIRSIZ ?e"
    proof (cases "DIRSIZ \<le> length ?e")
      case True
      have "n' = take DIRSIZ ?e" using True assms(1) by (simp add: n'_def put_bytes_def min_def)
      moreover have "takeWhile (\<lambda>c. c \<noteq> 0) (take DIRSIZ ?e) = take DIRSIZ ?e"
        using z by (auto simp: takeWhile_eq_all_conv dest: in_set_takeD)
      ultimately show ?thesis by simp
    next
      case False
      then have "n' = ?e @ 0 # drop (Suc (length ?e)) name" by (simp add: n'_def put_bytes_def)
      then show ?thesis using takeWhile_nul [OF z] False by simp
    qed
    then have "cstring (chars n') DIRSIZ = take DIRSIZ ?e" by (simp add: cstring_def map_chars [OF ln])
    moreover have "skipelem path name = Some (dropWhile (\<lambda>c. c = slash) ?r, n')"
      using False by (simp add: skipelem_def Let_def n'_def)
    moreover have "dropWhile (\<lambda>c. c = slash) ?r = [] \<or> hd (dropWhile (\<lambda>c. c = slash) ?r) \<noteq> slash"
      using hd_dropWhile [of "\<lambda>c. c = slash" ?r] by auto
    ultimately show ?thesis using el ln elements_slashes [of ?r] by simp
  qed
qed

theorem skipelem_correct_witness:
  "(case skipelem (slash # [97, 98] @ slash # slash # [99]) (replicate DIRSIZ 0) of
     None \<Rightarrow> False
   | Some (path', name') \<Rightarrow> cstring (chars name') DIRSIZ = [97, 98] \<and> elements [] path' = [[99]])"
  using skipelem_correct [of "replicate DIRSIZ 0" "slash # [97, 98] @ slash # slash # [99]"]
  by (auto simp: slash_def DIRSIZ_def split: option.splits)

section \<open>Looking up a name\<close>

text \<open>The entries of a directory, and the first one that is in use and has the name.\<close>

definition dirents :: "(uint \<Rightarrow> uchar list) \<Rightarrow> inode \<Rightarrow> uchar list list" where
  "dirents v x = map (\<lambda>k. fbytes v x (k * sizeof_dirent) sizeof_dirent) [0..<unat (i_size x) div sizeof_dirent]"

definition matches :: "uchar list \<Rightarrow> uchar list \<Rightarrow> bool" where
  "matches name de \<longleftrightarrow> dirent_inum de \<noteq> 0 \<and> cstring (chars name) DIRSIZ = cstring (chars (dirent_name de)) DIRSIZ"

definition dir_ok :: "(uint \<Rightarrow> uchar list) \<Rightarrow> inode \<Rightarrow> bool" where
  "dir_ok v x \<longleftrightarrow> i_type x = T_DIR \<and> i_dev x = ROOTDEV \<and> sizeof_dirent dvd unat (i_size x) \<and>
     allocated v x 0 (unat (i_size x))"

lemma namecmp_0: "namecmp s t = 0 \<longleftrightarrow> cstring (chars s) DIRSIZ = cstring (chars t) DIRSIZ"
  by (simp add: namecmp_def strncmp_eq_0_iff)

lemma dir_ok_size: "dir_ok v x \<Longrightarrow> unat (i_size x) \<le> MAXFILE * BSIZE"
  by (simp add: dir_ok_def allocated_def)

lemma dir_offsets_ok:
  assumes "dir_ok v (ino s dp)"
  shows "dir_offsets dp s = map (\<lambda>k. k * sizeof_dirent) [0..<unat (i_size (ino s dp)) div sizeof_dirent]"
  using assms by (auto simp: dir_offsets_def dir_ok_def sizeof_dirent_def elim!: dvdE)

text \<open>One round of the loops over a directory reads one entry.\<close>

lemma read_dirent:
  assumes t: "tx Map.empty s" and r: "room B s" and d: "dir_ok (view s) (ino s dp)"
    and k: "k < unat (i_size (ino s dp)) div sizeof_dirent"
  shows "okK (readi dp ToObject (of_nat (k * sizeof_dirent)) (of_nat sizeof_dirent) s) (\<lambda>r s'.
     r = (of_nat sizeof_dirent, dirents (view s) (ino s dp) ! k) \<and> tx Map.empty s' \<and> did {} s (view s) s')"
proof -
  let ?sz = "unat (i_size (ino s dp))"
  have le: "k * sizeof_dirent + sizeof_dirent \<le> ?sz"
    using k by (simp add: sizeof_dirent_def)
  have sm: "?sz < 2 ^ 32" by (rule unat_less_32)
  have u: "unat (of_nat (k * sizeof_dirent) :: uint) = k * sizeof_dirent" "unat (of_nat sizeof_dirent :: uint) = sizeof_dirent"
    using le sm by (simp_all add: unat_of_nat take_bit_eq_mod sizeof_dirent_def del: of_nat_mult)
  have "allocated (view s) (ino s dp) (k * sizeof_dirent) sizeof_dirent"
    using d le by (auto simp: dir_ok_def allocated_def)
  then have "okK (readi dp ToObject (of_nat (k * sizeof_dirent)) (of_nat sizeof_dirent) s) (\<lambda>r s'. unat (fst r) = sizeof_dirent \<and>
     fst r \<le> of_nat sizeof_dirent \<and>
     snd r = fbytes (view s) (ino s dp) (unat (of_nat (k * sizeof_dirent) :: uint)) sizeof_dirent \<and>
     tx Map.empty s' \<and> did {} s (view s) s')"
    using t r d le sm by (intro readi_ok) (auto simp: u dir_ok_def min_def simp del: of_nat_mult)
  then show ?thesis
    by (rule okK_weaken) (use k u in \<open>auto simp: dirents_def prod_eq_iff word_unat_eq_iff\<close>)
qed

lemma dirlookup_at_ok:
  assumes t: "tx Map.empty s" and r: "room B s" and d: "dir_ok (view s) (ino s dp)"
    and k: "k < unat (i_size (ino s dp)) div sizeof_dirent"
  shows "\<exists>s1. tx Map.empty s1 \<and> did {} s (view s) s1 \<and>
     dirlookup_at dp name (k * sizeof_dirent) s =
       (if matches name (dirents (view s) (ino s dp) ! k)
        then bindK (iget ROOTDEV (ucast (dirent_inum (dirents (view s) (ino s dp) ! k))) s1)
               (\<lambda>ip s. Ret (Some (ip, of_nat (k * sizeof_dirent))) s)
        else Ret None s1)"
proof -
  let ?e = "dirents (view s) (ino s dp) ! k"
  obtain s1 where rd: "readi dp ToObject (of_nat (k * sizeof_dirent)) (of_nat sizeof_dirent) s = Ret (of_nat sizeof_dirent, ?e) s1"
    and s1: "tx Map.empty s1" "did {} s (view s) s1"
    using read_dirent [OF t r d k] by (auto simp: okK_iff)
  have "i_dev (ino s1 dp) = ROOTDEV" using did_idid [OF s1(2)] d by (simp add: dir_ok_def)
  moreover have "matches name ?e \<longleftrightarrow> dirent_inum ?e \<noteq> 0 \<and> namecmp name (dirent_name ?e) = 0"
    by (simp add: matches_def namecmp_0)
  ultimately show ?thesis
    using s1 by (intro exI [of _ s1]) (auto simp: dirlookup_at_def rd Let_def simp del: of_nat_mult)
qed

lemma dirlookup_loop_ok:
  assumes "tx Map.empty s" "room {} s" "dir_ok (view s) (ino s dp)" "k \<le> unat (i_size (ino s dp)) div sizeof_dirent"
  shows "\<exists>s1. tx Map.empty s1 \<and> did {} s (view s) s1 \<and>
     findK (map (\<lambda>k. k * sizeof_dirent) [k..<unat (i_size (ino s dp)) div sizeof_dirent]) (dirlookup_at dp name) s =
       (case scan_from (matches name) k (drop k (dirents (view s) (ino s dp))) of
          None \<Rightarrow> Ret None s1
        | Some k \<Rightarrow> bindK (iget ROOTDEV (ucast (dirent_inum (dirents (view s) (ino s dp) ! k))) s1)
            (\<lambda>ip s. Ret (Some (ip, of_nat (k * sizeof_dirent))) s))"
  using assms
proof (induction "unat (i_size (ino s dp)) div sizeof_dirent - k" arbitrary: k s)
  case 0
  then show ?case by (auto simp: dirents_def)
next
  case (Suc m)
  let ?n = "unat (i_size (ino s dp)) div sizeof_dirent" and ?es = "dirents (view s) (ino s dp)"
  have k: "k < ?n" using Suc.hyps(2) by simp
  moreover have "length ?es = ?n" by (simp add: dirents_def)
  ultimately have sp: "drop k ?es = ?es ! k # drop (Suc k) ?es" by (simp add: Cons_nth_drop_Suc)
  obtain s1 where s1: "tx Map.empty s1" "did {} s (view s) s1" and at: "dirlookup_at dp name (k * sizeof_dirent) s =
       (if matches name (?es ! k)
        then bindK (iget ROOTDEV (ucast (dirent_inum (?es ! k))) s1) (\<lambda>ip s. Ret (Some (ip, of_nat (k * sizeof_dirent))) s)
        else Ret None s1)"
    using dirlookup_at_ok [OF Suc.prems(1-3) k] by blast
  have i1: "inodes s1 = inodes s" "view s1 = view s" using did_idid [OF s1(2)] did_view [OF s1(2)] by auto
  show ?case
  proof (cases "matches name (?es ! k)")
    case True
    then show ?thesis
      using k sp at s1 by (intro exI [of _ s1])
        (auto simp: upt_conv_Cons bindK_assoc simp del: of_nat_mult intro!: arg_cong2 [where f = bindK])
  next
    case False
    have "m = unat (i_size (ino s1 dp)) div sizeof_dirent - Suc k" "Suc k \<le> unat (i_size (ino s1 dp)) div sizeof_dirent"
      "dir_ok (view s1) (ino s1 dp)"
      using Suc.hyps(2) k i1 Suc.prems(3) by auto
    from Suc.hyps(1) [OF this(1) s1(1) did_room [OF s1(2) Suc.prems(2)] this(3,2), unfolded i1]
    obtain s2 where s2: "tx Map.empty s2" "did {} s1 (view s1) s2" and lp:
      "findK (map (\<lambda>k. k * sizeof_dirent) [Suc k..<?n]) (dirlookup_at dp name) s1 =
       (case scan_from (matches name) (Suc k) (drop (Suc k) ?es) of
          None \<Rightarrow> Ret None s2
        | Some k \<Rightarrow> bindK (iget ROOTDEV (ucast (dirent_inum (?es ! k))) s2) (\<lambda>ip s. Ret (Some (ip, of_nat (k * sizeof_dirent))) s))"
      unfolding i1 by blast
    have "did {} s (view s) s2" using did_last [OF s1(2) s2(2)] .
    then show ?thesis using False k sp at lp s2(1) by (intro exI [of _ s2]) (simp add: upt_conv_Cons del: of_nat_mult)
  qed
qed

text \<open>
  C11: \<^verbatim>\<open>dirlookup\<close> finds the first matching entry. In a directory whose blocks are allocated it
  reads, for a name that no entry in use has, every entry and returns null without any
  change; otherwise it takes the reference of the inode named by the first matching entry
  with \<^verbatim>\<open>iget\<close> and reports that entry's offset.
\<close>

theorem dirlookup_correct:
  assumes "tx Map.empty s" and "room {} s" and "dir_ok (view s) (ino s dp)"
  shows "\<exists>s1. tx Map.empty s1 \<and> view s1 = view s \<and> inodes s1 = inodes s \<and>
     dirlookup dp name s = (case scan (matches name) (dirents (view s) (ino s dp)) of
       None \<Rightarrow> Ret None s1
     | Some k \<Rightarrow> bindK (iget ROOTDEV (ucast (dirent_inum (dirents (view s) (ino s dp) ! k))) s1)
         (\<lambda>ip s. Ret (Some (ip, of_nat (k * sizeof_dirent))) s))"
proof -
  have "dirlookup dp name s = findK (map (\<lambda>k. k * sizeof_dirent) [0..<unat (i_size (ino s dp)) div sizeof_dirent]) (dirlookup_at dp name) s"
    using assms(3) dir_offsets_ok [OF assms(3)] by (simp add: dirlookup_def dir_ok_def)
  then show ?thesis
    using dirlookup_loop_ok [OF assms, of 0 name] by (auto simp: scan_def dest: did_idid did_view)
qed

section \<open>Entries\<close>

lemma make_dirent_length [simp]: "length (make_dirent i n) = 16"
  by (simp add: make_dirent_def DIRSIZ_def)

lemma dirent_inum_make: "dirent_inum (make_dirent i n) = ucast i"
  by (simp add: dirent_inum_def make_dirent_def put16_def get16_def ushort_from_bytes)

lemma cstring_chars: "length bs = n \<Longrightarrow> cstring (chars bs) n = cstring ((!) bs) n"
  unfolding cstring_def by (rule arg_cong [where f = "takeWhile _"]) (auto simp: chars_def)

lemma chars_simps: "chars [] k = 0" "chars (c # cs) 0 = c" "advance (chars (c # cs)) = chars cs"
  by (simp_all add: chars_def fun_eq_iff)

lemma cstring_name:
  assumes "0 \<notin> set n"
  shows "cstring (chars n) k = take k n"
  using assms
proof (induction k arbitrary: n)
  case (Suc k)
  then show ?case
    by (cases n) (auto simp: cstring_Suc chars_simps)
qed simp

lemma matches_make:
  assumes "0 \<notin> set n" "0 \<notin> set n'"
  shows "matches n (make_dirent i n') \<longleftrightarrow> ucast i \<noteq> (0 :: ushort) \<and> take DIRSIZ n = take DIRSIZ n'"
proof -
  have "dirent_name (make_dirent i n') = strncpy (chars n') DIRSIZ" by (simp add: dirent_name_def make_dirent_def)
  then have "cstring (chars (dirent_name (make_dirent i n'))) DIRSIZ = cstring (chars n') DIRSIZ"
    by (simp add: cstring_chars cstring_strncpy)
  then show ?thesis using assms by (simp add: matches_def dirent_inum_make cstring_name)
qed

section \<open>An example directory\<close>

definition demo_dir :: inode where
  "demo_dir = demo_inode\<lparr>i_inum := 1, i_type := T_DIR, i_size := 32\<rparr>"

definition dir_disk :: "uint \<Rightarrow> uchar list" where
  "dir_disk n = (if n = 70 then make_dirent 1 [46] @ make_dirent 7 [97, 98] @ replicate 992 0 else replicate BSIZE 0)"

lemma dir_disk_ok: "length (dir_disk n) = BSIZE" "head_n (dir_disk 2) = 0"
  "dirents dir_disk demo_dir = [make_dirent 1 [46], make_dirent 7 [97, 98]]" "dir_ok dir_disk demo_dir"
proof -
  show len: "length (dir_disk n) = BSIZE" for n by (simp add: dir_disk_def BSIZE_def)
  show "head_n (dir_disk 2) = 0" by (simp add: dir_disk_def head_n_def get32_def BSIZE_def)
  have f: "faddr dir_disk demo_dir 0 = 70" by (simp add: faddr_def demo_dir_def demo_inode_def NDIRECT_def)
  have "fbytes dir_disk demo_dir k 16 = get_bytes k 16 (dir_disk 70)" if "k + 16 \<le> BSIZE" for k
    using fbytes_block [of k 16 dir_disk demo_dir] that len f by simp
  from this [of 0] this [of 16] have "fbytes dir_disk demo_dir 0 16 = make_dirent 1 [46]"
    "fbytes dir_disk demo_dir 16 16 = make_dirent 7 [97, 98]"
    by (simp_all add: get_bytes_def dir_disk_def BSIZE_def)
  then show "dirents dir_disk demo_dir = [make_dirent 1 [46], make_dirent 7 [97, 98]]"
    by (simp add: dirents_def sizeof_dirent_def demo_dir_def upt_rec)
  show "dir_ok dir_disk demo_dir"
    using f by (simp add: dir_ok_def allocated_def sizeof_dirent_def demo_dir_def demo_inode_def param_defs)
qed

theorem dirlookup_correct_witness:
  "\<exists>s1. inodes s1 = [demo_dir] \<and>
     dirlookup 0 [97, 98] (demo_fs dir_disk [demo_dir]) = bindK (iget ROOTDEV 7 s1) (\<lambda>ip s. Ret (Some (ip, 16)) s)"
proof -
  let ?s = "demo_fs dir_disk [demo_dir]"
  note d = demo_fs_ok [where d = dir_disk and ino = "[demo_dir]", OF dir_disk_ok(1,2)]
  have m: "scan (matches [97, 98]) (dirents dir_disk demo_dir) = Some 1" "dirent_inum (make_dirent 7 [97, 98]) = 7"
    unfolding dir_disk_ok(3) by (simp_all add: scan_def matches_make dirent_inum_make DIRSIZ_def)
  have "\<exists>s1. tx Map.empty s1 \<and> view s1 = view ?s \<and> inodes s1 = inodes ?s \<and>
     dirlookup 0 [97, 98] ?s = (case scan (matches [97, 98]) (dirents (view ?s) (ino ?s 0)) of
       None \<Rightarrow> Ret None s1
     | Some k \<Rightarrow> bindK (iget ROOTDEV (ucast (dirent_inum (dirents (view ?s) (ino ?s 0) ! k))) s1)
         (\<lambda>ip s. Ret (Some (ip, of_nat (k * sizeof_dirent))) s))"
    by (rule dirlookup_correct [OF d(1)]) (use d dir_disk_ok(4) in simp_all)
  then show ?thesis using d m dir_disk_ok(3) by (auto simp: sizeof_dirent_def)
qed

end
