(* ===== verification/Ring.thy ===== *)
theory Ring
  imports Prelude
begin

text \<open>
  Circular buffers. The pipe of \<^verbatim>\<open>pipe.c\<close>, the transmit buffer of \<^verbatim>\<open>uart.c\<close> and the input
  buffer of \<^verbatim>\<open>console.c\<close> are the same construction: an array of \<open>N\<close> bytes and two counters
  that only ever grow, wrap at the width of the integer, and index the array modulo \<open>N\<close>.
  The first part proves once, for every width, that the counters and the array hold a queue.
  The locale \<open>bounded_fifo\<close> is the contract the clients of such a buffer rely on, and what
  follows from it for any history of operations; each component interprets it.
\<close>

section \<open>Two wrapping counters over an array\<close>

text \<open>The bytes between the read counter and the write counter, oldest first.\<close>

definition ring_content :: "nat \<Rightarrow> 'b list \<Rightarrow> 'w::len word \<Rightarrow> 'w word \<Rightarrow> 'b list" where
  "ring_content N buf r w =
     map (\<lambda>k. buf ! (unat (r + of_nat k) mod N)) [0..<unat (w - r)]"

definition ring_ok :: "nat \<Rightarrow> 'b list \<Rightarrow> 'w::len word \<Rightarrow> 'w word \<Rightarrow> bool" where
  "ring_ok N buf r w \<longleftrightarrow>
     0 < N \<and> N dvd 2 ^ LENGTH('w) \<and> N < 2 ^ LENGTH('w) \<and> length buf = N \<and> unat (w - r) \<le> N"

lemma length_ring_content [simp]: "length (ring_content N buf r w) = unat (w - r)"
  by (simp add: ring_content_def)

lemma ring_content_same [simp]: "ring_content N buf r r = []"
  by (simp add: ring_content_def)

lemma ring_empty: "ring_content N buf r w = [] \<longleftrightarrow> r = w"
proof -
  have "ring_content N buf r w = [] \<longleftrightarrow> unat (w - r) = 0"
    by (metis length_0_conv length_ring_content)
  also have "\<dots> \<longleftrightarrow> r = w" by (auto simp: unat_eq_0)
  finally show ?thesis .
qed

text \<open>Wrapping at the width of the counter does not disturb the position modulo \<open>N\<close>.\<close>

lemma unat_add_mod:
  assumes "N dvd 2 ^ LENGTH('w::len)"
  shows "unat ((r :: 'w word) + of_nat k) mod N = (unat r + k) mod N"
proof -
  have "unat (r + of_nat k) = (unat r + k) mod 2 ^ LENGTH('w)"
    by (simp add: unat_word_ariths unat_of_nat take_bit_eq_mod mod_add_right_eq)
  then show ?thesis using assms by (simp add: mod_mod_cancel)
qed

lemma ring_position_apart:
  assumes "N dvd 2 ^ LENGTH('w::len)" and "k < n" and "n < N"
  shows "unat ((r :: 'w word) + of_nat k) mod N \<noteq> unat (r + of_nat n) mod N"
proof
  assume "unat (r + of_nat k) mod N = unat (r + of_nat n) mod N"
  then have e: "(unat r + k) mod N = (unat r + n) mod N" using assms(1) by (simp add: unat_add_mod)
  then have "N dvd (unat r + n) - (unat r + k)"
    using assms(2) by (metis add_le_cancel_left less_imp_le_nat mod_eq_dvd_iff_nat)
  then have "N dvd n - k" by simp
  then show False using assms(2,3) by (auto dest: dvd_imp_le)
qed

lemma ring_distance_Suc:
  fixes r w :: "'w::len word"
  assumes "ring_ok N buf r w" and "unat (w - r) < N"
  shows "unat (w + 1 - r) = Suc (unat (w - r))"
proof -
  have "unat ((w - r) + 1) = (unat (w - r) + unat (1 :: 'w word)) mod 2 ^ LENGTH('w)"
    by (rule unat_word_ariths(1))
  moreover have "Suc (unat (w - r)) < 2 ^ LENGTH('w)" using assms by (simp add: ring_ok_def)
  moreover have "w + 1 - r = (w - r) + 1" by simp
  ultimately show ?thesis by (simp only:) simp
qed

lemma ring_put:
  fixes r w :: "'w::len word"
  assumes ok: "ring_ok N buf r w" and space: "unat (w - r) < N"
  shows "ring_ok N (buf[unat w mod N := x]) r (w + 1)"
    and "ring_content N (buf[unat w mod N := x]) r (w + 1) = ring_content N buf r w @ [x]"
proof -
  note d = ring_distance_Suc [OF ok space]
  show "ring_ok N (buf[unat w mod N := x]) r (w + 1)"
    using ok space by (simp add: ring_ok_def d)
  have w: "r + of_nat (unat (w - r)) = w" by simp
  have N: "N dvd 2 ^ LENGTH('w)" "unat w mod N < length buf" using ok by (auto simp: ring_ok_def)
  have old: "buf[unat w mod N := x] ! (unat (r + of_nat k) mod N) = buf ! (unat (r + of_nat k) mod N)"
    if "k < unat (w - r)" for k
    using ring_position_apart [OF N(1) that space, of r] by (simp add: w)
  show "ring_content N (buf[unat w mod N := x]) r (w + 1) = ring_content N buf r w @ [x]"
    using old N(2) by (simp add: ring_content_def d)
qed

lemma ring_distance_pred:
  fixes r w :: "'w::len word"
  assumes "r \<noteq> w"
  shows "unat (w - r) = Suc (unat (w - (r + 1)))"
proof -
  have "w - r \<noteq> 0" using assms by simp
  then show ?thesis by (metis Suc_pred' diff_diff_eq unat_gt_0 unat_minus_one)
qed

lemma ring_get:
  fixes r w :: "'w::len word"
  assumes ok: "ring_ok N buf r w" and some: "r \<noteq> w"
  shows "ring_ok N buf (r + 1) w"
    and "ring_content N buf r w = buf ! (unat r mod N) # ring_content N buf (r + 1) w"
proof -
  note d = ring_distance_pred [OF some]
  show "ring_ok N buf (r + 1) w" using ok by (simp add: ring_ok_def d)
  have "[0..<unat (w - r)] = 0 # map Suc [0..<unat (w - (r + 1))]"
    by (simp add: d map_Suc_upt upt_conv_Cons)
  then show "ring_content N buf r w = buf ! (unat r mod N) # ring_content N buf (r + 1) w"
    by (simp add: ring_content_def add.assoc)
qed

lemma ring_full:
  fixes r w :: "'w::len word"
  assumes "ring_ok N buf r w"
  shows "w = r + of_nat N \<longleftrightarrow> unat (w - r) = N"
proof -
  have N: "unat (of_nat N :: 'w word) = N"
    using assms by (simp add: ring_ok_def unat_of_nat take_bit_eq_mod)
  have "w = r + of_nat N \<longleftrightarrow> w - r = of_nat N" by (auto simp: algebra_simps)
  also have "\<dots> \<longleftrightarrow> unat (w - r) = N" by (metis N unsigned_word_eqI)
  finally show ?thesis .
qed

text \<open>A third counter between the two splits the content; stepping back drops the newest.\<close>

lemma ring_distance_split:
  fixes r w e :: "'w::len word"
  assumes "unat (w - r) \<le> unat (e - r)"
  shows "unat (e - r) = unat (w - r) + unat (e - w)"
proof -
  have "e - w = (e - r) - (w - r)" by simp
  then have "unat (e - w) = unat (e - r) - unat (w - r)"
    using assms unat_sub [of "w - r" "e - r"] by (simp add: word_le_nat_alt)
  then show ?thesis using assms by simp
qed

lemma ring_split:
  fixes r w e :: "'w::len word"
  assumes "unat (w - r) \<le> unat (e - r)"
  shows "ring_content N buf r e = ring_content N buf r w @ ring_content N buf w e"
proof -
  have "[0..<unat (e - r)] = [0..<unat (w - r)] @ map (\<lambda>k. unat (w - r) + k) [0..<unat (e - w)]"
    using upt_add_eq_append [of 0 "unat (w - r)" "unat (e - w)"] map_add_upt [of "unat (w - r)" "unat (e - w)"]
    unfolding ring_distance_split [OF assms] by (simp add: add.commute)
  moreover have "r + of_nat (unat (w - r) + k) = w + of_nat k" for k by (simp add: algebra_simps)
  ultimately show ?thesis by (simp add: ring_content_def o_def)
qed

lemma ring_unput:
  fixes w e :: "'w::len word"
  assumes "e \<noteq> w"
  shows "ring_content N buf w e =
    ring_content N buf w (e - 1) @ [buf ! (unat (e - 1) mod N)]"
proof -
  have d: "unat (e - w) = Suc (unat (e - 1 - w))"
    using ring_distance_pred [of w e] assms by (simp add: diff_diff_eq add.commute)
  have "w + of_nat (unat (e - 1 - w)) = e - 1" by simp
  then show ?thesis by (simp add: ring_content_def d)
qed

section \<open>The contract of a bounded queue\<close>

text \<open>
  \<open>items\<close> is the abstract queue in a state, \<open>cap\<close> its capacity. \<open>put\<close> and \<open>get\<close> are only
  called when the tests \<open>full\<close> and \<open>empty\<close> have failed; otherwise the code sleeps.
\<close>

datatype 'b queue_op = Put 'b | Get

locale bounded_fifo =
  fixes good :: "'s \<Rightarrow> bool" and items :: "'s \<Rightarrow> 'b list" and cap :: nat
    and full :: "'s \<Rightarrow> bool" and empty :: "'s \<Rightarrow> bool"
    and put :: "'b \<Rightarrow> 's \<Rightarrow> 's" and get :: "'s \<Rightarrow> 'b \<times> 's"
  assumes bounded: "good s \<Longrightarrow> length (items s) \<le> cap"
    and full_iff: "good s \<Longrightarrow> full s \<longleftrightarrow> length (items s) = cap"
    and empty_iff: "good s \<Longrightarrow> empty s \<longleftrightarrow> items s = []"
    and put_good: "good s \<Longrightarrow> \<not> full s \<Longrightarrow> good (put b s)"
    and put_items: "good s \<Longrightarrow> \<not> full s \<Longrightarrow> items (put b s) = items s @ [b]"
    and get_good: "good s \<Longrightarrow> \<not> empty s \<Longrightarrow> good (snd (get s))"
    and get_items: "good s \<Longrightarrow> \<not> empty s \<Longrightarrow> items s = fst (get s) # items (snd (get s))"
begin

text \<open>
  A history of operations from any number of producers and consumers; an operation whose
  test fails has no effect (its caller sleeps and tries again). The run yields the items
  accepted, the items delivered, and the last state.
\<close>

fun run :: "'b queue_op list \<Rightarrow> 's \<Rightarrow> 'b list \<times> 'b list \<times> 's" where
  "run [] s = ([], [], s)"
| "run (Put b # ops) s =
     (if full s then run ops s
      else let (ins, outs, s') = run ops (put b s) in (b # ins, outs, s'))"
| "run (Get # ops) s =
     (if empty s then run ops s
      else let (b, s1) = get s; (ins, outs, s') = run ops s1 in (ins, b # outs, s'))"

text \<open>First in, first out: nothing is lost, duplicated or reordered.\<close>

lemma fifo:
  assumes "good s" and "run ops s = (ins, outs, s')"
  shows "good s' \<and> items s @ ins = outs @ items s'"
  using assms
proof (induction ops arbitrary: s ins outs s')
  case Nil
  then show ?case by simp
next
  case (Cons op ops)
  show ?case
  proof (cases op)
    case (Put b)
    show ?thesis
    proof (cases "full s")
      case True
      with Cons Put show ?thesis by simp
    next
      case False
      obtain ins1 outs1 s2 where r: "run ops (put b s) = (ins1, outs1, s2)"
        by (cases "run ops (put b s)")
      have "good s2 \<and> items (put b s) @ ins1 = outs1 @ items s2"
        using Cons.IH [OF put_good [OF Cons.prems(1) False] r] .
      then show ?thesis
        using Cons.prems(2) put_items [OF Cons.prems(1) False, of b] Put False r by simp
    qed
  next
    case Get
    show ?thesis
    proof (cases "empty s")
      case True
      with Cons Get show ?thesis by simp
    next
      case False
      obtain b s1 where g: "get s = (b, s1)" by (cases "get s")
      obtain ins1 outs1 s2 where r: "run ops s1 = (ins1, outs1, s2)" by (cases "run ops s1")
      have "good s1" "items s = b # items s1"
        using get_good [OF Cons.prems(1) False] get_items [OF Cons.prems(1) False] g by auto
      with Cons.IH [OF _ r] Cons.prems(2) Get False g r show ?thesis by auto
    qed
  qed
qed

lemma delivered_prefix:
  assumes "good s" and "items s = []" and "run ops s = (ins, outs, s')"
  shows "\<exists>rest. ins = outs @ rest \<and> length rest \<le> cap"
  using fifo [OF assms(1,3)] assms(2) bounded [of s'] by (intro exI [of _ "items s'"]) simp

lemma not_stuck: "good s \<Longrightarrow> 0 < cap \<Longrightarrow> \<not> full s \<or> \<not> empty s"
  by (auto simp: full_iff empty_iff)

end

end
