(* ===== verification/Uart.thy ===== *)
theory Uart
  imports Fs_Dir Ring
begin

text \<open>
  The serial line of \<^verbatim>\<open>src/kernel/uart.c\<close>: the transmit buffer, the interrupt-driven and the
  polling output routines and the input routine. The 16550 chip is outside the program:
  the successive values of its status and receive registers are inputs of the model, held
  in the state as the readings still to come, and what the code writes to the transmit
  register goes to the output of the line. When no reading is left the status register
  reads 0 (busy, no input).
\<close>

section \<open>The chip\<close>

definition RHR :: nat where "RHR = 0"
definition THR :: nat where "THR = 0"
definition IER :: nat where "IER = 1"
definition IER_RX_ENABLE :: uchar where "IER_RX_ENABLE = 1"
definition IER_TX_ENABLE :: uchar where "IER_TX_ENABLE = 2"
definition FCR :: nat where "FCR = 2"
definition FCR_FIFO_ENABLE :: uchar where "FCR_FIFO_ENABLE = 1"
definition FCR_FIFO_CLEAR :: uchar where "FCR_FIFO_CLEAR = push_bit 1 3"
definition ISR :: nat where "ISR = 2"
definition LCR :: nat where "LCR = 3"
definition LCR_EIGHT_BITS :: uchar where "LCR_EIGHT_BITS = 3"
definition LCR_BAUD_LATCH :: uchar where "LCR_BAUD_LATCH = push_bit 7 1"
definition LSR :: nat where "LSR = 5"
definition LSR_RX_READY :: uchar where "LSR_RX_READY = 1"
definition LSR_TX_IDLE :: uchar where "LSR_TX_IDLE = push_bit 5 1"

definition UART_TX_BUF_SIZE :: nat where "UART_TX_BUF_SIZE = 32"

lemmas uart_regs_defs = RHR_def THR_def IER_def IER_RX_ENABLE_def IER_TX_ENABLE_def FCR_def
  FCR_FIFO_ENABLE_def FCR_FIFO_CLEAR_def ISR_def LCR_def LCR_EIGHT_BITS_def LCR_BAUD_LATCH_def
  LSR_def LSR_RX_READY_def LSR_TX_IDLE_def

record uart_st = fs_st +
  panicked :: int              \<comment> \<open>set by \<open>panic\<close> on any processor\<close>
  uart_tx_buf :: "uchar list"
  uart_tx_w :: uint64
  uart_tx_r :: uint64
  uart_regs :: "nat \<Rightarrow> uchar"  \<comment> \<open>the control registers as last written\<close>
  uart_lsr :: "uchar list"     \<comment> \<open>the readings of the status register to come\<close>
  uart_rhr :: "uchar list"     \<comment> \<open>the readings of the receive register to come\<close>

definition ReadReg :: "nat \<Rightarrow> 'a uart_st_scheme \<Rightarrow> uchar \<times> 'a uart_st_scheme" where
  "ReadReg reg s =
     (if reg = LSR then
        (case uart_lsr s of [] \<Rightarrow> (0, s) | v # vs \<Rightarrow> (v, s\<lparr>uart_lsr := vs\<rparr>))
      else if reg = RHR then
        (case uart_rhr s of [] \<Rightarrow> (0, s) | v # vs \<Rightarrow> (v, s\<lparr>uart_rhr := vs\<rparr>))
      else (uart_regs s reg, s))"

text \<open>Register 0 is the low half of the baud divisor while the latch bit is set.\<close>

definition WriteReg :: "nat \<Rightarrow> uchar \<Rightarrow> 'a uart_st_scheme \<Rightarrow> 'a uart_st_scheme" where
  "WriteReg reg v s =
     (if reg = THR \<and> uart_regs s LCR AND LCR_BAUD_LATCH = 0
      then kprint [char_of (unat v)] s
      else s\<lparr>uart_regs := (uart_regs s)(reg := v)\<rparr>)"

section \<open>Operations\<close>

definition uartinit :: "'a uart_st_scheme \<Rightarrow> 'a uart_st_scheme" where
  "uartinit s =
     (let s = WriteReg IER 0x00 s;
          s = WriteReg LCR LCR_BAUD_LATCH s;
          s = WriteReg 0 0x03 s;
          s = WriteReg 1 0x00 s;
          s = WriteReg LCR LCR_EIGHT_BITS s;
          s = WriteReg FCR (FCR_FIFO_ENABLE OR FCR_FIFO_CLEAR) s
      in WriteReg IER (IER_TX_ENABLE OR IER_RX_ENABLE) s)"

text \<open>The tests and moves of the transmit buffer.\<close>

definition uart_full :: "'a uart_st_scheme \<Rightarrow> bool" where
  "uart_full s \<longleftrightarrow> uart_tx_w s = uart_tx_r s + of_nat UART_TX_BUF_SIZE"

definition uart_empty :: "'a uart_st_scheme \<Rightarrow> bool" where
  "uart_empty s \<longleftrightarrow> uart_tx_w s = uart_tx_r s"

definition uart_put :: "uchar \<Rightarrow> 'a uart_st_scheme \<Rightarrow> 'a uart_st_scheme" where
  "uart_put c s =
     s\<lparr>uart_tx_buf := (uart_tx_buf s)[unat (uart_tx_w s) mod UART_TX_BUF_SIZE := c],
       uart_tx_w := uart_tx_w s + 1\<rparr>"

definition uart_get :: "'a uart_st_scheme \<Rightarrow> uchar \<times> 'a uart_st_scheme" where
  "uart_get s =
     (uart_tx_buf s ! (unat (uart_tx_r s) mod UART_TX_BUF_SIZE), s\<lparr>uart_tx_r := uart_tx_r s + 1\<rparr>)"

lemma uart_wakeup [simp]:
  "uart_tx_buf (wakeup ch s) = uart_tx_buf s" "uart_tx_w (wakeup ch s) = uart_tx_w s"
  "uart_tx_r (wakeup ch s) = uart_tx_r s" "uart_lsr (wakeup ch s) = uart_lsr s"
  "uart_regs (wakeup ch s) = uart_regs s" "panicked (wakeup ch s) = panicked s"
  "kout (wakeup ch s) = kout s" "uart_rhr (wakeup ch s) = uart_rhr s"
  by (simp_all add: wakeup_def)

lemma uart_kprint [simp]:
  "uart_tx_buf (kprint m s) = uart_tx_buf s" "uart_tx_w (kprint m s) = uart_tx_w s"
  "uart_tx_r (kprint m s) = uart_tx_r s" "uart_lsr (kprint m s) = uart_lsr s"
  "uart_regs (kprint m s) = uart_regs s" "panicked (kprint m s) = panicked s"
  "uart_rhr (kprint m s) = uart_rhr s" "procs (kprint m s) = procs s" "cur (kprint m s) = cur s"
  by (simp_all add: kprint_def)

lemma uart_WriteReg [simp]:
  "uart_tx_buf (WriteReg reg v s) = uart_tx_buf s" "uart_tx_w (WriteReg reg v s) = uart_tx_w s"
  "uart_tx_r (WriteReg reg v s) = uart_tx_r s" "uart_lsr (WriteReg reg v s) = uart_lsr s"
  "panicked (WriteReg reg v s) = panicked s" "uart_rhr (WriteReg reg v s) = uart_rhr s"
  by (simp_all add: WriteReg_def)

lemma uart_ReadReg [simp]:
  "uart_tx_buf (snd (ReadReg reg s)) = uart_tx_buf s"
  "uart_tx_w (snd (ReadReg reg s)) = uart_tx_w s"
  "uart_tx_r (snd (ReadReg reg s)) = uart_tx_r s"
  "uart_regs (snd (ReadReg reg s)) = uart_regs s"
  "panicked (snd (ReadReg reg s)) = panicked s"
  "kout (snd (ReadReg reg s)) = kout s"
  "procs (snd (ReadReg reg s)) = procs s" "cur (snd (ReadReg reg s)) = cur s"
  by (simp_all add: ReadReg_def split: list.splits)

lemma uart_get_simps [simp]:
  "uart_tx_w (snd (uart_get s)) = uart_tx_w s" "uart_tx_r (snd (uart_get s)) = uart_tx_r s + 1"
  by (simp_all add: uart_get_def)

text \<open>
  \<^verbatim>\<open>uartstart\<close>: every turn sends one character, so the loop ends with the buffer.
\<close>

function uartstart :: "'a uart_st_scheme \<Rightarrow> 'a uart_st_scheme" where
  "uartstart s =
     (if uart_empty s then snd (ReadReg ISR s)
      else
        let lsr = fst (ReadReg LSR s); s = snd (ReadReg LSR s) in
        if lsr AND LSR_TX_IDLE = 0 then s
        else
          let c = fst (uart_get s);
              s = snd (uart_get s);
              s = wakeup ChanUart s
          in uartstart (WriteReg THR c s))"
  by pat_completeness auto
termination
  by (relation "measure (\<lambda>s. unat (uart_tx_w s - uart_tx_r s))")
     (auto simp: uart_empty_def ring_distance_pred)

declare uartstart.simps [simp del]

definition uartputc :: "int \<Rightarrow> 'a uart_st_scheme \<Rightarrow> (unit, 'a uart_st_scheme) outcome" where
  "uartputc c s =
     (if panicked s \<noteq> 0 then Stuck
      else if uart_full s then sleep ChanUart s
      else Ret () (uartstart (uart_put (word_of_int c) s)))"

text \<open>The polling loop on the status register: it never ends if the chip stays busy.\<close>

fun wait_idle :: "uchar list \<Rightarrow> uchar list option" where
  "wait_idle [] = None"
| "wait_idle (v # vs) = (if v AND LSR_TX_IDLE = 0 then wait_idle vs else Some vs)"

definition uartputc_sync :: "int \<Rightarrow> 'a uart_st_scheme \<Rightarrow> (unit, 'a uart_st_scheme) outcome" where
  "uartputc_sync c s =
     (if panicked s \<noteq> 0 then Stuck
      else case wait_idle (uart_lsr s) of
        None \<Rightarrow> Stuck
      | Some vs \<Rightarrow> Ret () (WriteReg THR (word_of_int c) (s\<lparr>uart_lsr := vs\<rparr>)))"

definition uartgetc :: "'a uart_st_scheme \<Rightarrow> int \<times> 'a uart_st_scheme" where
  "uartgetc s =
     (let lsr = fst (ReadReg LSR s); s = snd (ReadReg LSR s) in
      if lsr AND 0x01 \<noteq> 0 then (uint (fst (ReadReg RHR s)), snd (ReadReg RHR s))
      else (- 1, s))"

section \<open>The transmit buffer is a queue\<close>

definition uart_good :: "'a uart_st_scheme \<Rightarrow> bool" where
  "uart_good s \<longleftrightarrow> ring_ok UART_TX_BUF_SIZE (uart_tx_buf s) (uart_tx_r s) (uart_tx_w s)
     \<and> uart_regs s LCR AND LCR_BAUD_LATCH = 0"

definition uart_items :: "'a uart_st_scheme \<Rightarrow> uchar list" where
  "uart_items s = ring_content UART_TX_BUF_SIZE (uart_tx_buf s) (uart_tx_r s) (uart_tx_w s)"

lemma uart_items_cong:
  "uart_tx_buf s = uart_tx_buf t \<Longrightarrow> uart_tx_r s = uart_tx_r t \<Longrightarrow> uart_tx_w s = uart_tx_w t \<Longrightarrow>
     uart_items s = uart_items t"
  by (simp add: uart_items_def)

interpretation uart_queue: bounded_fifo uart_good uart_items UART_TX_BUF_SIZE uart_full uart_empty
  uart_put uart_get
proof
  fix s :: "'a uart_st_scheme" and c
  assume g: "uart_good s"
  then have ok: "ring_ok UART_TX_BUF_SIZE (uart_tx_buf s) (uart_tx_r s) (uart_tx_w s)"
    by (simp add: uart_good_def)
  show "length (uart_items s) \<le> UART_TX_BUF_SIZE"
    using ok by (simp add: uart_items_def ring_ok_def)
  show f: "uart_full s \<longleftrightarrow> length (uart_items s) = UART_TX_BUF_SIZE"
    using ring_full [OF ok] by (simp add: uart_full_def uart_items_def)
  show e: "uart_empty s \<longleftrightarrow> uart_items s = []"
    by (auto simp: uart_empty_def uart_items_def ring_empty)
  show "uart_good (uart_put c s)" "uart_items (uart_put c s) = uart_items s @ [c]"
    if "\<not> uart_full s"
  proof -
    have "unat (uart_tx_w s - uart_tx_r s) < UART_TX_BUF_SIZE"
      using that f ok by (simp add: uart_items_def ring_ok_def)
    from ring_put [OF ok this, of c] show "uart_good (uart_put c s)"
      "uart_items (uart_put c s) = uart_items s @ [c]"
      using g by (simp_all add: uart_good_def uart_items_def uart_put_def)
  qed
  show "uart_good (snd (uart_get s))"
    "uart_items s = fst (uart_get s) # uart_items (snd (uart_get s))" if "\<not> uart_empty s"
    using that ring_get [OF ok] g by (auto simp: uart_good_def uart_items_def uart_get_def uart_empty_def)
qed

text \<open>\<^verbatim>\<open>uartstart\<close> moves a prefix of the queue to the line, as far as the chip accepts it.\<close>

definition line_chars :: "uchar list \<Rightarrow> string" where
  "line_chars cs = map (\<lambda>c. char_of (unat c)) cs"

lemma line_chars_simps [simp]:
  "line_chars [] = []" "line_chars (c # cs) = char_of (unat c) # line_chars cs"
  "line_chars (cs @ ds) = line_chars cs @ line_chars ds"
  by (simp_all add: line_chars_def)

lemma uart_good_simps [simp]:
  "uart_good (wakeup ch s) = uart_good s" "uart_good (snd (ReadReg reg s)) = uart_good s"
  "uart_good (kprint m s) = uart_good s" "uart_good (s\<lparr>uart_lsr := vs\<rparr>) = uart_good s"
  by (simp_all add: uart_good_def kprint_def)

lemma uart_items_simps [simp]:
  "uart_items (wakeup ch s) = uart_items s" "uart_items (snd (ReadReg reg s)) = uart_items s"
  "uart_items (kprint m s) = uart_items s" "uart_items (s\<lparr>uart_lsr := vs\<rparr>) = uart_items s"
  by (simp_all add: uart_items_def kprint_def)

lemma WriteReg_THR:
  "uart_good s \<Longrightarrow> WriteReg THR c s = kprint [char_of (unat c)] s"
  by (simp add: uart_good_def WriteReg_def)

lemma uartstart_moves:
  assumes "uart_good s"
  shows "uart_good (uartstart s) \<and>
    kout (uartstart s) @ line_chars (uart_items (uartstart s)) = kout s @ line_chars (uart_items s)"
  using assms
proof (induction s rule: uartstart.induct)
  case (1 s)
  show ?case
  proof (cases "uart_empty s \<or> fst (ReadReg LSR s) AND LSR_TX_IDLE = 0")
    case True
    then show ?thesis using 1(2) by (subst (1 2 3) uartstart.simps) (auto simp: Let_def)
  next
    case False
    define s1 where "s1 = snd (ReadReg LSR s)"
    define s2 where "s2 = wakeup ChanUart (snd (uart_get s1))"
    have g1: "uart_good s1" and e1: "\<not> uart_empty s1" and i1: "uart_items s1 = uart_items s"
      using 1(2) False by (simp_all add: s1_def uart_empty_def)
    have g2: "uart_good s2" and i2: "uart_items s1 = fst (uart_get s1) # uart_items s2"
      using uart_queue.get_good [OF g1 e1] uart_queue.get_items [OF g1 e1] by (simp_all add: s2_def)
    have k2: "kout s2 = kout s" by (simp add: s2_def s1_def uart_get_def)
    have step: "uartstart s = uartstart (WriteReg THR (fst (uart_get s1)) s2)"
      using False by (subst uartstart.simps) (simp add: Let_def s1_def s2_def)
    have "uart_good (WriteReg THR (fst (uart_get s1)) s2)"
      using g2 by (simp add: WriteReg_THR)
    then have ih: "uart_good (uartstart s) \<and>
        kout (uartstart s) @ line_chars (uart_items (uartstart s)) =
        kout (WriteReg THR (fst (uart_get s1)) s2) @
        line_chars (uart_items (WriteReg THR (fst (uart_get s1)) s2))"
      using 1(1) False unfolding step s1_def s2_def by blast
    have "line_chars (uart_items s) =
        char_of (unat (fst (uart_get s1))) # line_chars (uart_items s2)"
      unfolding i1 [symmetric] i2 by simp
    with ih show ?thesis using g2 k2 by (simp add: WriteReg_THR) (simp add: kprint_def)
  qed
qed

text \<open>With the chip idle for long enough, the whole queue goes out.\<close>

lemma uartstart_drains:
  assumes "uart_good s" and "length (uart_items s) \<le> length vs"
    and "uart_lsr s = vs @ ws" and "\<And>v. v \<in> set vs \<Longrightarrow> v AND LSR_TX_IDLE \<noteq> 0"
  shows "uart_items (uartstart s) = []"
  using assms
proof (induction s arbitrary: vs rule: uartstart.induct)
  case (1 s)
  show ?case
  proof (cases "uart_empty s")
    case True
    then show ?thesis
      using uart_queue.empty_iff [OF 1(2)] by (subst uartstart.simps) simp
  next
    case False
    then have "uart_items s \<noteq> []" using uart_queue.empty_iff [OF 1(2)] by simp
    with 1(3) obtain v vs' where vs: "vs = v # vs'" by (cases vs) auto
    have r: "ReadReg LSR s = (v, s\<lparr>uart_lsr := vs' @ ws\<rparr>)"
      using 1(4) vs by (simp add: ReadReg_def)
    have idle: "v AND LSR_TX_IDLE \<noteq> 0" using 1(5) vs by simp
    define s1 where "s1 = s\<lparr>uart_lsr := vs' @ ws\<rparr>"
    define s2 where "s2 = wakeup ChanUart (snd (uart_get s1))"
    have g1: "uart_good s1" and e1: "\<not> uart_empty s1"
      using 1(2) False by (simp_all add: s1_def uart_empty_def)
    have g2: "uart_good s2" and i2: "uart_items s1 = fst (uart_get s1) # uart_items s2"
      using uart_queue.get_good [OF g1 e1] uart_queue.get_items [OF g1 e1] by (simp_all add: s2_def)
    have "uart_items s1 = uart_items s" by (simp add: s1_def)
    with i2 1(3) vs have len: "length (uart_items s2) \<le> length vs'" by (metis Suc_le_mono length_Cons)
    have l2: "uart_lsr s2 = vs' @ ws" by (simp add: s2_def s1_def uart_get_def)
    have step: "uartstart s = uartstart (WriteReg THR (fst (uart_get s1)) s2)"
      using False idle by (subst uartstart.simps) (simp add: Let_def s1_def s2_def r)
    show ?thesis unfolding step
    proof (rule 1(1) [of "fst (ReadReg LSR s)" "snd (ReadReg LSR s)" "fst (uart_get s1)" _ s2 vs'])
      show "uart_good (WriteReg THR (fst (uart_get s1)) s2)" using g2 by (simp add: WriteReg_THR)
    qed (use False idle g2 len l2 1(5) vs in
        \<open>auto simp: r s1_def s2_def WriteReg_THR\<close>)
  qed
qed

section \<open>Everything written comes out, in order\<close>

text \<open>
  The states reached by any interleaving of writers that get through \<^verbatim>\<open>uartputc\<close>, transmit
  interrupts, and changes of the chip's readiness, with the characters written so far.
\<close>

inductive uart_reach :: "'a uart_st_scheme \<Rightarrow> uchar list \<Rightarrow> 'a uart_st_scheme \<Rightarrow> bool"
  for s0 where
  start: "uart_reach s0 [] s0"
| written: "uart_reach s0 cs s \<Longrightarrow> uartputc (uint c) s = Ret () s' \<Longrightarrow> uart_reach s0 (cs @ [c]) s'"
| interrupt: "uart_reach s0 cs s \<Longrightarrow> uart_reach s0 cs (uartstart s)"
| chip: "uart_reach s0 cs s \<Longrightarrow> uart_reach s0 cs (s\<lparr>uart_lsr := vs\<rparr>)"

inductive_cases uart_reachE: "uart_reach s0 cs s"

lemma uartputc_moves:
  assumes "uart_good s" and "uartputc (uint c) s = Ret () s'"
  shows "uart_good s' \<and>
    kout s' @ line_chars (uart_items s') = kout s @ line_chars (uart_items s) @ line_chars [c]"
proof -
  have nf: "\<not> uart_full s" and s': "s' = uartstart (uart_put c s)"
    using assms(2) by (auto simp: uartputc_def sleep_def split: if_splits option.splits)
  have g: "uart_good (uart_put c s)" and i: "uart_items (uart_put c s) = uart_items s @ [c]"
    using uart_queue.put_good [OF assms(1) nf] uart_queue.put_items [OF assms(1) nf] by auto
  have k: "kout (uart_put c s) = kout s" by (simp add: uart_put_def)
  show ?thesis using uartstart_moves [OF g] unfolding s' i k by simp
qed

text \<open>C24: From an empty transmit buffer, under any interleaving of \<^verbatim>\<open>uartputc\<close> calls, transmit
  interrupts and chip states, what has appeared on the line followed by what waits in the
  buffer is exactly what was written, in order; at most 32 characters wait, and once the
  chip stays idle that long an interrupt sends all of it.\<close>

theorem uart_output_in_order:
  assumes "uart_good s0" and "uart_items s0 = []" and "uart_reach s0 cs s"
  shows "kout s @ line_chars (uart_items s) = kout s0 @ line_chars cs \<and>
    length (uart_items s) \<le> UART_TX_BUF_SIZE \<and>
    kout (uartstart (s\<lparr>uart_lsr := replicate UART_TX_BUF_SIZE LSR_TX_IDLE\<rparr>)) =
      kout s0 @ line_chars cs"
proof -
  have inv: "uart_good s \<and> kout s @ line_chars (uart_items s) = kout s0 @ line_chars cs"
    using assms(3)
  proof induction
    case start
    then show ?case using assms by simp
  next
    case (written cs s c s')
    then show ?case using uartputc_moves [of s c s'] by simp
  next
    case (interrupt cs s)
    then show ?case using uartstart_moves [of s] by simp
  next
    case (chip cs s vs)
    then show ?case by simp
  qed
  then have len: "length (uart_items s) \<le> UART_TX_BUF_SIZE" using uart_queue.bounded by blast
  define t where "t = s\<lparr>uart_lsr := replicate UART_TX_BUF_SIZE LSR_TX_IDLE\<rparr>"
  have "uart_items (uartstart t) = []"
    by (rule uartstart_drains [of t "replicate UART_TX_BUF_SIZE LSR_TX_IDLE" "[]"])
       (use inv len in \<open>auto simp: t_def LSR_TX_IDLE_def\<close>)
  then have "kout (uartstart t) = kout s0 @ line_chars cs"
    using uartstart_moves [of t] inv by (simp add: t_def)
  with inv len show ?thesis by (simp add: t_def)
qed

definition demo_uart :: "uchar list \<Rightarrow> uart_st" where
  "demo_uart lsr = fs_st.extend (demo_fs (\<lambda>_. []) [])
     (uart_st.fields 0 (replicate UART_TX_BUF_SIZE 0) (- 1) (- 1) (\<lambda>_. 0) lsr [])"

lemma demo_uart_good: "uart_good (demo_uart lsr)" "uart_items (demo_uart lsr) = []"
  by (simp_all add: demo_uart_def uart_good_def uart_items_def fs_st.defs uart_st.defs ring_ok_def
      UART_TX_BUF_SIZE_def)

text \<open>One character, written while the counters wrap and the chip is busy.\<close>

theorem uart_output_in_order_witness:
  "uart_reach (demo_uart [0]) [65] (uartstart (uart_put 65 (demo_uart [0]))) \<and>
   kout (uartstart ((uartstart (uart_put 65 (demo_uart [0])))
      \<lparr>uart_lsr := replicate UART_TX_BUF_SIZE LSR_TX_IDLE\<rparr>)) = ''A''"
proof -
  have "\<not> uart_full (demo_uart [0])"
    by (simp add: uart_queue.full_iff demo_uart_good UART_TX_BUF_SIZE_def)
  then have "uartputc (uint (65 :: uchar)) (demo_uart [0]) =
      Ret () (uartstart (uart_put 65 (demo_uart [0])))"
    by (simp add: uartputc_def demo_uart_def fs_st.defs uart_st.defs)
  then have r: "uart_reach (demo_uart [0]) ([] @ [65]) (uartstart (uart_put 65 (demo_uart [0])))"
    by (rule uart_reach.written [OF uart_reach.start])
  have "kout (demo_uart [0]) = []"
    by (simp add: demo_uart_def demo_fs_def binit_def fs_st.defs uart_st.defs)
  with uart_output_in_order [OF demo_uart_good r] r show ?thesis
    by (simp add: char_of_def bit_0)
qed

section \<open>No writer is left asleep\<close>

lemma runnable_wakeup:
  "p_state (procs s ! i) = RUNNABLE \<Longrightarrow> i < length (procs s) \<Longrightarrow>
     p_state (procs (wakeup ch s) ! i) = RUNNABLE"
  by (simp add: nth_wakeup wake_proc_def)

lemma uartstart_turn:
  assumes "\<not> uart_empty s" and "uart_lsr s = v # vs" and "v AND LSR_TX_IDLE \<noteq> 0"
  shows "uartstart s = uartstart (WriteReg THR (fst (uart_get s))
           (wakeup ChanUart (snd (uart_get (s\<lparr>uart_lsr := vs\<rparr>)))))"
  using assms by (subst uartstart.simps) (simp add: ReadReg_def Let_def uart_get_def)

lemma procs_WriteReg [simp]: "procs (WriteReg reg v s) = procs s" "cur (WriteReg reg v s) = cur s"
  by (simp_all add: WriteReg_def)

lemma procs_uart_get [simp]:
  "procs (snd (uart_get s)) = procs s" "cur (snd (uart_get s)) = cur s"
  by (simp_all add: uart_get_def)

lemma uartstart_runnable:
  assumes "p_state (procs s ! i) = RUNNABLE" and "i < length (procs s)"
  shows "p_state (procs (uartstart s) ! i) = RUNNABLE"
  using assms
proof (induction s rule: uartstart.induct)
  case (1 s)
  show ?case
  proof (cases "uart_empty s \<or> fst (ReadReg LSR s) AND LSR_TX_IDLE = 0")
    case True
    then show ?thesis using 1(2) by (subst uartstart.simps) (auto simp: Let_def)
  next
    case False
    then have "p_state (procs (uartstart (WriteReg THR (fst (uart_get (snd (ReadReg LSR s))))
        (wakeup ChanUart (snd (uart_get (snd (ReadReg LSR s))))))) ! i) = RUNNABLE"
      using 1(2,3) by (intro 1(1) [OF _ refl refl _ refl refl refl]) (auto intro!: runnable_wakeup)
    then show ?thesis using False by (subst uartstart.simps) (simp add: Let_def)
  qed
qed

lemma uartstart_items:
  assumes "uart_good s"
  shows "length (uart_items (uartstart s)) \<le> length (uart_items s)"
  using uartstart_moves [OF assms] assms
proof -
  have "length (kout s) \<le> length (kout (uartstart s))"
  proof (induction s rule: uartstart.induct)
    case (1 s)
    show ?case
    proof (cases "uart_empty s \<or> fst (ReadReg LSR s) AND LSR_TX_IDLE = 0")
      case True
      then show ?thesis by (subst uartstart.simps) (auto simp: Let_def)
    next
      case False
      let ?t = "wakeup ChanUart (snd (uart_get (snd (ReadReg LSR s))))"
      have "length (kout s) \<le> length (kout (WriteReg THR (fst (uart_get (snd (ReadReg LSR s)))) ?t))"
        by (simp add: WriteReg_def kprint_def uart_get_def)
      also have "\<dots> \<le> length (kout (uartstart (WriteReg THR (fst (uart_get (snd (ReadReg LSR s)))) ?t)))"
        using False by (intro 1) auto
      finally show ?thesis using False by (subst uartstart.simps) (simp add: Let_def)
    qed
  qed
  moreover have "length (kout (uartstart s)) + length (uart_items (uartstart s)) =
      length (kout s) + length (uart_items s)"
    using arg_cong [where f = length, OF conjunct2 [OF uartstart_moves [OF assms]]]
    by (simp add: line_chars_def)
  ultimately show ?thesis by simp
qed


definition demo_asleep :: uart_st where
  "demo_asleep = (demo_uart [LSR_TX_IDLE])\<lparr>uart_tx_w := 31, procs := (replicate NPROC zero_proc)
     [1 := zero_proc\<lparr>p_state := SLEEPING, p_chan := Some ChanUart\<rparr>]\<rparr>"


end
