(* ===== verification/Printf.thy ===== *)
theory Printf
  imports Uart
begin

text \<open>
  Formatted output of the kernel, \<^verbatim>\<open>src/kernel/printf.c\<close>, character by character through
  \<^verbatim>\<open>consputc\<close>: the number conversions with their 16-byte buffer, the format interpreter with
  its variable arguments, \<^verbatim>\<open>panic\<close> and \<^verbatim>\<open>procdump\<close>. Writing past the end of the buffer, a
  missing argument and an argument of the wrong kind are outside what C defines (\<open>Stuck\<close>).
\<close>

section \<open>Digits\<close>

text \<open>The code of a character, as the code writes it in a character constant.\<close>

definition chr :: "char \<Rightarrow> uchar" where
  "chr c = of_nat (of_char c)"

definition text_of :: "string \<Rightarrow> uchar list" where
  "text_of cs = map chr cs"

text \<open>
  The loop \<^verbatim>\<open>do buf[i++] = digits[x % base]; while((x /= base) != 0)\<close>, shared by the kernel's
  and the user library's \<^verbatim>\<open>printint\<close> at their widths; \<open>None\<close> when \<open>i\<close> runs past the buffer.
\<close>

function digit_loop ::
  "uchar list \<Rightarrow> 'w::len word \<Rightarrow> 'w word \<Rightarrow> nat \<Rightarrow> uchar list \<Rightarrow> (nat \<times> uchar list) option" where
  "digit_loop ds x base i buf =
     (if base = 0 \<or> length buf \<le> i then None
      else
        let buf' = buf[i := ds ! unat (x mod base)]; x' = x div base in
        if x' \<noteq> 0 then digit_loop ds x' base (i + 1) buf' else Some (i + 1, buf'))"
  by pat_completeness auto
termination
  by (relation "measure (\<lambda>(ds, x, base, i, buf). length buf - i)") auto

declare digit_loop.simps [simp del]

definition kdigits :: "uchar list" where
  "kdigits = text_of ''0123456789abcdef''"

section \<open>Operations\<close>

definition BACKSPACE :: int where "BACKSPACE = 0x100"

definition consputc :: "int \<Rightarrow> 'a uart_st_scheme \<Rightarrow> (unit, 'a uart_st_scheme) outcome" where
  "consputc c s =
     (if c = BACKSPACE then
        bindK (uartputc_sync 8 s) (\<lambda>_ s.
        bindK (uartputc_sync 32 s) (\<lambda>_ s.
        uartputc_sync 8 s))
      else uartputc_sync c s)"

text \<open>A run of \<^verbatim>\<open>consputc\<close> calls on successive characters.\<close>

definition consputs :: "uchar list \<Rightarrow> 'a uart_st_scheme \<Rightarrow> (unit, 'a uart_st_scheme) outcome" where
  "consputs cs s = forK cs (\<lambda>c. consputc (uint c)) s"

definition printint ::
  "uint64 \<Rightarrow> uint64 \<Rightarrow> bool \<Rightarrow> 'a uart_st_scheme \<Rightarrow> (unit, 'a uart_st_scheme) outcome" where
  "printint xx base sign s =
     (let neg = (sign \<and> sint xx < 0);
          x = (if neg then - xx else xx) in
      case digit_loop kdigits x base 0 (replicate 16 0) of
        None \<Rightarrow> Stuck
      | Some (i, buf) \<Rightarrow>
          if neg then
            (if 16 \<le> i then Stuck
             else consputs (rev (take (i + 1) (buf[i := chr (CHR ''-'')]))) s)
          else consputs (rev (take i buf)) s)"

definition printptr :: "uint64 \<Rightarrow> 'a uart_st_scheme \<Rightarrow> (unit, 'a uart_st_scheme) outcome" where
  "printptr x s =
     bindK (consputc (uint (chr (CHR ''0''))) s) (\<lambda>_ s.
     bindK (consputc (uint (chr (CHR ''x''))) s) (\<lambda>_ s.
     forK [0..<16] (\<lambda>i. consputc (uint (kdigits ! unat (drop_bit 60 (push_bit (4 * i) x))))) s))"

text \<open>Variable arguments: an \<open>int\<close>, a \<open>uint64\<close>, or a string pointer (\<open>None\<close> if null).\<close>

datatype va = VaInt uint | VaLong uint64 | VaStr "uchar list option"

fun va_int :: "va list \<Rightarrow> (uint64 \<times> va list) option" where
  "va_int (VaInt x # ap) = Some (scast x, ap)"
| "va_int ap = None"

fun va_long :: "va list \<Rightarrow> (uint64 \<times> va list) option" where
  "va_long (VaLong x # ap) = Some (x, ap)"
| "va_long ap = None"

fun va_str :: "va list \<Rightarrow> (uchar list \<times> va list) option" where
  "va_str (VaStr None # ap) = Some (text_of ''(null)'', ap)"
| "va_str (VaStr (Some cs) # ap) = Some (cs, ap)"
| "va_str ap = None"

text \<open>What a conversion letter or two or three after the \<open>%\<close> asks for.\<close>

datatype conv = ConvInt uint64 bool | ConvLong uint64 bool | ConvPtr | ConvStr | ConvPercent | ConvOther char

fun parse_conv :: "string \<Rightarrow> (conv \<times> string) option" where
  "parse_conv [] = None"
| "parse_conv (c0 # r) = Some
     (if c0 = CHR ''d'' then (ConvInt 10 True, r)
      else if c0 = CHR ''l'' \<and> take 1 r = ''d'' then (ConvLong 10 True, drop 1 r)
      else if c0 = CHR ''l'' \<and> take 2 r = ''ld'' then (ConvLong 10 True, drop 2 r)
      else if c0 = CHR ''u'' then (ConvInt 10 False, r)
      else if c0 = CHR ''l'' \<and> take 1 r = ''u'' then (ConvLong 10 False, drop 1 r)
      else if c0 = CHR ''l'' \<and> take 2 r = ''lu'' then (ConvLong 10 False, drop 2 r)
      else if c0 = CHR ''x'' then (ConvInt 16 False, r)
      else if c0 = CHR ''l'' \<and> take 1 r = ''x'' then (ConvLong 16 False, drop 1 r)
      else if c0 = CHR ''l'' \<and> take 2 r = ''lx'' then (ConvLong 16 False, drop 2 r)
      else if c0 = CHR ''p'' then (ConvPtr, r)
      else if c0 = CHR ''s'' then (ConvStr, r)
      else if c0 = CHR ''%'' then (ConvPercent, r)
      else (ConvOther c0, r))"

text \<open>One conversion: its output and the arguments left.\<close>

definition print_conv ::
  "conv \<Rightarrow> va list \<Rightarrow> 'a uart_st_scheme \<Rightarrow> (va list, 'a uart_st_scheme) outcome" where
  "print_conv cv ap s = (case cv of
      ConvInt base sign \<Rightarrow> (case va_int ap of None \<Rightarrow> Stuck
        | Some (x, ap) \<Rightarrow> bindK (printint x base sign s) (\<lambda>_ s. Ret ap s))
    | ConvLong base sign \<Rightarrow> (case va_long ap of None \<Rightarrow> Stuck
        | Some (x, ap) \<Rightarrow> bindK (printint x base sign s) (\<lambda>_ s. Ret ap s))
    | ConvPtr \<Rightarrow> (case va_long ap of None \<Rightarrow> Stuck
        | Some (x, ap) \<Rightarrow> bindK (printptr x s) (\<lambda>_ s. Ret ap s))
    | ConvStr \<Rightarrow> (case va_str ap of None \<Rightarrow> Stuck
        | Some (cs, ap) \<Rightarrow> bindK (consputs (takeWhile (\<lambda>c. c \<noteq> 0) cs) s) (\<lambda>_ s. Ret ap s))
    | ConvPercent \<Rightarrow> bindK (consputc (uint (chr (CHR ''%''))) s) (\<lambda>_ s. Ret ap s)
    | ConvOther c0 \<Rightarrow>
        bindK (consputc (uint (chr (CHR ''%''))) s) (\<lambda>_ s.
        bindK (consputc (uint (chr c0)) s) (\<lambda>_ s. Ret ap s)))"

lemma parse_conv_shorter [simp]: "parse_conv cs = Some (cv, r) \<Longrightarrow> length r < Suc (length cs)"
  by (cases cs) (auto split: if_splits)

function printf_loop ::
  "string \<Rightarrow> va list \<Rightarrow> 'a uart_st_scheme \<Rightarrow> (unit, 'a uart_st_scheme) outcome" where
  "printf_loop [] ap s = Ret () s"
| "printf_loop (cx # fmt) ap s =
     (if cx \<noteq> CHR ''%'' then bindK (consputc (uint (chr cx)) s) (\<lambda>_ s. printf_loop fmt ap s)
      else case parse_conv fmt of
        None \<Rightarrow> Ret () s
      | Some (cv, rest) \<Rightarrow> bindK (print_conv cv ap s) (\<lambda>ap s. printf_loop rest ap s))"
  by pat_completeness auto
termination
  by (relation "measure (\<lambda>(fmt, ap, s). length fmt)") auto

definition printf :: "string \<Rightarrow> va list \<Rightarrow> 'a uart_st_scheme \<Rightarrow> (int, 'a uart_st_scheme) outcome" where
  "printf fmt ap s = bindK (printf_loop fmt ap s) (\<lambda>_ s. Ret 0 s)"

text \<open>
  What \<^verbatim>\<open>panic\<close> does before its endless loop; the operations of the kernel that call it end
  with the outcome \<open>Panic\<close>.
\<close>

definition panic :: "string \<Rightarrow> 'a uart_st_scheme \<Rightarrow> (unit, 'a uart_st_scheme) outcome" where
  "panic msg s =
     bindK (printf ''panic: '' [] s) (\<lambda>_ s.
     bindK (printf (''%s'' @ [CHR 0x0A]) [VaStr (Some (text_of msg))] s) (\<lambda>_ s.
     Ret () (s\<lparr>panicked := 1\<rparr>)))"

primrec state_name :: "procstate \<Rightarrow> string" where
  "state_name UNUSED = ''unused''"
| "state_name USED = ''used''"
| "state_name SLEEPING = ''sleep ''"
| "state_name RUNNABLE = ''runble''"
| "state_name RUNNING = ''run   ''"
| "state_name ZOMBIE = ''zombie''"

definition procdump :: "'a uart_st_scheme \<Rightarrow> (unit, 'a uart_st_scheme) outcome" where
  "procdump s =
     bindK (printf [CHR 0x0A] [] s) (\<lambda>_ s.
     forK [0..<NPROC] (\<lambda>i s. let p = procs s ! i in
       if p_state p = UNUSED then Ret () s
       else
         bindK (printf ''%d %s %s'' [VaInt (word_of_int (p_pid p)), VaStr (Some (text_of (state_name (p_state p)))),
           VaStr (Some (p_name p))] s) (\<lambda>_ s.
         bindK (printf [CHR 0x0A] [] s) (\<lambda>_ s. Ret () s))) s)"

section \<open>The digits of a number\<close>

text \<open>The digits of \<open>n\<close> in a base, least significant first.\<close>

function digs :: "nat \<Rightarrow> nat \<Rightarrow> nat list" where
  "digs b n = n mod b # (if n < b \<or> b < 2 then [] else digs b (n div b))"
  by pat_completeness auto
termination
  by (relation "measure snd") auto

declare digs.simps [simp del]

lemma digs_value: "2 \<le> b \<Longrightarrow> foldr (\<lambda>d a. d + b * a) (digs b n) 0 = n"
  by (induction b n rule: digs.induct) (subst digs.simps, auto)

lemma digs_less: "2 \<le> b \<Longrightarrow> d \<in> set (digs b n) \<Longrightarrow> d < b"
  by (induction b n rule: digs.induct) (subst (asm) (2) digs.simps, auto split: if_splits)

lemma length_digs: "2 \<le> b \<Longrightarrow> length (digs b n) \<le> Suc k \<longleftrightarrow> n < b ^ Suc k"
proof (induction k arbitrary: n)
  case 0
  then show ?case by (subst digs.simps) (simp add: digs.simps [of b "n div b"])
next
  case (Suc k)
  have "n < b \<Longrightarrow> n < b * (b * b ^ k)"
    using Suc.prems by (metis le_add1 less_le_trans mult.right_neutral mult_le_mono2 nat_mult_le_cancel_disj
        one_le_power plus_nat.simps power_Suc le_trans one_le_numeral)
  then show ?case using Suc by (subst digs.simps) (auto simp: less_mult_imp_div_less div_less_iff_less_mult mult.commute)
qed

lemma digit_loop_digs:
  fixes x base :: "'w::len word"
  assumes "2 \<le> unat base"
  shows "digit_loop ds x base i buf =
    (let d = digs (unat base) (unat x) in
     if i + length d \<le> length buf
     then Some (i + length d, put_bytes i (map (\<lambda>k. ds ! k) d) buf) else None)"
  using assms
proof (induction ds x base i buf rule: digit_loop.induct)
  case (1 ds x base i buf)
  have nz: "base \<noteq> 0" using 1(2) by auto
  have less: "unat x < unat base \<longleftrightarrow> x div base = 0"
    using 1(2) by (metis div_eq_0_iff unat_div_distrib unat_eq_0 not_numeral_le_zero)
  show ?case
  proof (cases "length buf \<le> i")
    case True
    then show ?thesis by (subst digit_loop.simps) (simp add: digs.simps [of "unat base" "unat x"])
  next
    case False
    show ?thesis
    proof (cases "x div base = 0")
      case True
      then have d: "digs (unat base) (unat x) = [unat x mod unat base]"
        using less by (subst digs.simps) simp
      show ?thesis using False nz True
        by (subst digit_loop.simps)
          (simp add: d put_bytes_def Let_def unat_mod_distrib upd_conv_take_nth_drop)
    next
      case more: False
      then have d: "digs (unat base) (unat x) =
          unat x mod unat base # digs (unat base) (unat (x div base))"
        using less 1(2) by (subst digs.simps) (simp add: unat_div_distrib)
      let ?buf = "buf[i := ds ! unat (x mod base)]"
      have "digit_loop ds x base i buf = digit_loop ds (x div base) base (i + 1) ?buf"
        using False nz more by (subst digit_loop.simps) (simp add: Let_def)
      also have "\<dots> = (let d = digs (unat base) (unat (x div base)) in
          if i + 1 + length d \<le> length buf
          then Some (i + 1 + length d, put_bytes (i + 1) (map (\<lambda>k. ds ! k) d) ?buf) else None)"
        using 1(1) [OF _ refl refl more 1(2)] nz False by simp
      finally show ?thesis using False
        by (simp add: d Let_def put_bytes_def unat_mod_distrib upd_conv_take_nth_drop
            take_Suc_conv_app_nth add.commute [of i])
    qed
  qed
qed

section \<open>Printing on a line that is ready\<close>

definition idle_count :: "uchar list \<Rightarrow> nat" where
  "idle_count vs = length (filter (\<lambda>v. v AND LSR_TX_IDLE \<noteq> 0) vs)"

text \<open>The chip will accept \<open>n\<close> more characters, and no processor has panicked.\<close>

definition line_ready :: "nat \<Rightarrow> 'a uart_st_scheme \<Rightarrow> bool" where
  "line_ready n s \<longleftrightarrow> panicked s = 0 \<and> uart_regs s LCR AND LCR_BAUD_LATCH = 0 \<and>
     n \<le> idle_count (uart_lsr s)"

text \<open>\<open>cs\<close> went out on the line, and nothing else changed but the chip's readings.\<close>

definition sent :: "uchar list \<Rightarrow> 'a uart_st_scheme \<Rightarrow> 'a uart_st_scheme \<Rightarrow> bool" where
  "sent cs s s' \<longleftrightarrow> (\<exists>vs. s' = kprint (line_chars cs) (s\<lparr>uart_lsr := vs\<rparr>))"

lemma sent_Nil: "sent [] s s"
  by (rule sent_def [THEN iffD2], rule exI [of _ "uart_lsr s"]) (simp add: kprint_def)

lemma sent_append: "sent cs s s1 \<Longrightarrow> sent ds s1 s2 \<Longrightarrow> sent (cs @ ds) s s2"
  unfolding sent_def by (auto simp: kprint_def)

lemma sent_kout: "sent cs s s' \<Longrightarrow> kout s' = kout s @ line_chars cs"
  by (auto simp: sent_def kprint_def)

lemma wait_idle_ready:
  "0 < idle_count vs \<Longrightarrow> \<exists>ws. wait_idle vs = Some ws \<and> Suc (idle_count ws) = idle_count vs"
  by (induction vs) (auto simp: idle_count_def)

lemma uartputc_sync_ok:
  assumes "line_ready (Suc n) s"
  shows "okK (uartputc_sync (uint c) s) (\<lambda>_ s'. sent [c] s s' \<and> line_ready n s')"
proof -
  obtain ws where w: "wait_idle (uart_lsr s) = Some ws" "Suc (idle_count ws) = idle_count (uart_lsr s)"
    using wait_idle_ready [of "uart_lsr s"] assms by (auto simp: line_ready_def)
  show ?thesis using assms w
    by (auto simp: uartputc_sync_def line_ready_def WriteReg_def sent_def)
qed

lemma consputc_ok:
  assumes "line_ready (Suc n) s"
  shows "okK (consputc (uint c) s) (\<lambda>_ s'. sent [c] s s' \<and> line_ready n s')"
proof -
  have "uint c < 256" using uint_lt2p [of c] by simp
  then show ?thesis using uartputc_sync_ok [OF assms, of c] by (simp add: consputc_def BACKSPACE_def)
qed

lemma consputs_ok:
  "line_ready (length cs + n) s \<Longrightarrow> okK (consputs cs s) (\<lambda>_ s'. sent cs s s' \<and> line_ready n s')"
proof (induction cs arbitrary: s)
  case Nil
  then show ?case by (simp add: consputs_def sent_Nil)
next
  case (Cons c cs)
  have "okK (consputc (uint c) s) (\<lambda>_ s'. sent [c] s s' \<and> line_ready (length cs + n) s')"
    using Cons.prems by (intro consputc_ok) simp
  then show ?case unfolding consputs_def forK.simps
  proof (rule okK_bindI, elim conjE)
    fix u s1 assume s1: "sent [c] s s1" "line_ready (length cs + n) s1"
    show "okK (forK cs (\<lambda>c. consputc (uint c)) s1) (\<lambda>_ s'. sent (c # cs) s s' \<and> line_ready n s')"
      using Cons.IH [OF s1(2)] sent_append [OF s1(1), of cs]
      by (auto simp: consputs_def elim: okK_weaken)
  qed
qed

section \<open>Numbers come out in decimal\<close>

definition decimal :: "int \<Rightarrow> uchar list" where
  "decimal n = (if n < 0 then [chr (CHR ''-'')] else []) @
     rev (map (\<lambda>d. kdigits ! d) (digs 10 (nat \<bar>n\<bar>)))"

lemma unat_neg_sint:
  fixes x :: "'w::len word"
  assumes "sint x < 0"
  shows "unat (- x) = nat (- sint x)"
proof -
  have "- x = word_of_int (- sint x)" by simp
  then have "uint (- x) = take_bit LENGTH('w) (- sint x)" by (metis uint_word_of_int_eq)
  also have "\<dots> = - sint x"
  proof (rule take_bit_int_eq_self)
    show "0 \<le> - sint x" using assms by simp
    have "- sint x \<le> 2 ^ (LENGTH('w) - 1)" using sint_ge [of x] by simp
    also have "\<dots> < (2 :: int) ^ LENGTH('w)" by simp
    finally show "- sint x < 2 ^ LENGTH('w)" .
  qed
  finally show ?thesis by (metis nat_uint_eq)
qed

lemma unat_pos_sint:
  fixes x :: "'w::len word"
  assumes "0 \<le> sint x"
  shows "unat x = nat (sint x)"
proof -
  have "uint x = take_bit LENGTH('w) (sint x)" by (metis uint_sint)
  also have "\<dots> = sint x"
  proof (rule take_bit_int_eq_self [OF assms])
    have "sint x < 2 ^ (LENGTH('w) - 1)" by (rule sint_lt)
    also have "\<dots> < (2 :: int) ^ LENGTH('w)" by simp
    finally show "sint x < 2 ^ LENGTH('w)" .
  qed
  finally show ?thesis by (metis nat_uint_eq)
qed

lemma take_first: "k \<le> 15 \<Longrightarrow> take (Suc 0) ((replicate (16 - k) x)[0 := v]) = [v]"
  by (cases "16 - k") auto

lemma printint_digs:
  assumes "2 \<le> unat base"
  shows "printint xx base sign s =
    (let neg = (sign \<and> sint xx < 0);
         out = map (\<lambda>k. kdigits ! k) (digs (unat base) (unat (if neg then - xx else xx))) @
           (if neg then [chr (CHR ''-'')] else []) in
     if length out \<le> 16 then consputs (rev out) s else Stuck)"
  using assms
  by (auto simp: printint_def Let_def digit_loop_digs put_bytes_def list_update_append
      take_first)

lemma line_ready_mono: "line_ready n s \<Longrightarrow> m \<le> n \<Longrightarrow> line_ready m s"
  by (simp add: line_ready_def)

text \<open>C26: \<^verbatim>\<open>printint\<close> in base 10 with a sign prints the decimal form of its argument whenever
  that form, with its sign, has at most 16 characters. For every other \<open>long long\<close> (from
  10 to the 16th on, or from minus 10 to the 15th down) it writes past its 16-byte buffer.\<close>

theorem printint_decimal:
  assumes "line_ready 16 s"
  shows "if - (10 ^ 15) < sint xx \<and> sint xx < 10 ^ 16
    then okK (printint xx 10 True s) (\<lambda>_ s'. sent (decimal (sint xx)) s s')
    else printint xx 10 True s = Stuck"
proof -
  define neg where "neg \<longleftrightarrow> sint xx < 0"
  define n where "n = nat \<bar>sint xx\<bar>"
  define out where "out = map (\<lambda>k. kdigits ! k) (digs 10 n) @ (if neg then [chr (CHR ''-'')] else [])"
  have n: "unat (if neg then - xx else xx) = n"
    by (auto simp: n_def neg_def unat_neg_sint unat_pos_sint)
  have p: "printint xx 10 True s = (if length out \<le> 16 then consputs (rev out) s else Stuck)"
    using n by (subst printint_digs) (simp_all add: Let_def out_def neg_def)
  have d: "rev out = decimal (sint xx)"
    by (simp add: out_def decimal_def neg_def n_def)
  have "length out \<le> 16 \<longleftrightarrow> n < 10 ^ (if neg then 15 else 16)"
    using length_digs [of 10 n 15] length_digs [of 10 n 14] by (auto simp: out_def)
  also have "\<dots> \<longleftrightarrow> - (10 ^ 15) < sint xx \<and> sint xx < 10 ^ 16"
    by (auto simp: n_def neg_def nat_less_iff)
  finally have len: "length out \<le> 16 \<longleftrightarrow> - (10 ^ 15) < sint xx \<and> sint xx < 10 ^ 16" .
  have "length out \<le> 16 \<Longrightarrow> okK (consputs (rev out) s) (\<lambda>_ s'. sent (rev out) s s')"
    using consputs_ok [of "rev out" "16 - length out" s] assms by (auto elim: okK_weaken)
  then show ?thesis unfolding p len [symmetric] d [symmetric] by simp
qed

theorem printint_decimal_witness:
  "okK (printint (- 42) 10 True (demo_uart (replicate 16 LSR_TX_IDLE)))
     (\<lambda>_ s'. sent (text_of ''-42'') (demo_uart (replicate 16 LSR_TX_IDLE)) s') \<and>
   printint (2 ^ 62) 10 True (demo_uart (replicate 16 LSR_TX_IDLE)) = Stuck"
proof -
  have r: "line_ready 16 (demo_uart (replicate 16 LSR_TX_IDLE))"
    by (simp add: line_ready_def demo_uart_def fs_st.defs uart_st.defs idle_count_def LSR_TX_IDLE_def)
  have "decimal (- 42) = text_of ''-42''"
    by (simp add: decimal_def digs.simps kdigits_def text_of_def)
  moreover have "sint (- 42 :: uint64) = - 42" "sint (2 ^ 62 :: uint64) = 2 ^ 62"
    by code_simp+
  ultimately show ?thesis
    using printint_decimal [OF r, of "- 42"] printint_decimal [OF r, of "2 ^ 62"] by simp
qed

end
