(* ===== verification/Console.thy ===== *)
theory Console
  imports Printf User_Copy
begin

text \<open>
  The console of \<^verbatim>\<open>src/kernel/console.c\<close>: the input buffer with its read, write and edit
  counters, the interrupt handler that edits the current line, the read and write routines
  behind the console device, and the receive loop of \<^verbatim>\<open>uart.c\<close> that feeds the handler.
\<close>

section \<open>State and operations\<close>

definition INPUT_BUF_SIZE :: nat where "INPUT_BUF_SIZE = 128"
definition SIGINT :: nat where "SIGINT = 2"

record cons_st = uart_st +
  cons_buf :: "uchar list"
  cons_r :: uint
  cons_w :: uint
  cons_e :: uint

text \<open>The macro \<^verbatim>\<open>C(x)\<close>: the code of control-x.\<close>

definition Ctl :: "char \<Rightarrow> int" where
  "Ctl x = uint (chr x) - uint (chr (CHR ''@''))"

definition newline :: uchar where "newline = 10"

text \<open>The marker of what printing may change: the line, the chip's registers and readings.\<close>

definition printed :: "'a uart_st_scheme \<Rightarrow> 'a uart_st_scheme \<Rightarrow> bool" where
  "printed s s' \<longleftrightarrow> (\<exists>k g vs. s' = s\<lparr>kout := k, uart_regs := g, uart_lsr := vs\<rparr> \<and>
     length vs \<le> length (uart_lsr s))"

lemma printed_refl [simp]: "printed s s"
  by (rule printed_def [THEN iffD2], intro exI [of _ "kout s"] exI [of _ "uart_regs s"]
      exI [of _ "uart_lsr s"]) simp

lemma printed_trans: "printed s s1 \<Longrightarrow> printed s1 s2 \<Longrightarrow> printed s s2"
  unfolding printed_def by force

lemma printedI: "length vs \<le> length (uart_lsr s) \<Longrightarrow> printed s (s\<lparr>kout := k, uart_regs := g, uart_lsr := vs\<rparr>)"
  by (auto simp: printed_def)

lemma printed_WriteReg:
  assumes "printed s s1" shows "printed s (WriteReg reg v s1)"
proof (rule printed_trans [OF assms])
  have "printed s1 (s1\<lparr>kout := k, uart_regs := g, uart_lsr := uart_lsr s1\<rparr>)" for k g
    by (rule printedI) simp
  from this [where k = "kout s1 @ [char_of (unat v)]" and g = "uart_regs s1"]
    this [where k = "kout s1" and g = "(uart_regs s1)(reg := v)"]
  show "printed s1 (WriteReg reg v s1)" by (simp add: WriteReg_def kprint_def)
qed

lemma wait_idle_length: "wait_idle vs = Some ws \<Longrightarrow> length ws \<le> length vs"
  by (induction vs) (auto split: if_splits)

lemma printed_sync:
  assumes "printed s s1" shows "keepsK (printed s) (uartputc_sync c s1)"
proof -
  have "printed s1 (s1\<lparr>uart_lsr := vs\<rparr>)" if "wait_idle (uart_lsr s1) = Some vs" for vs
    using wait_idle_length [OF that]
    by (auto simp: printed_def intro!: exI [of _ "kout s1"] exI [of _ "uart_regs s1"])
  then show ?thesis using assms
    by (auto simp: uartputc_sync_def split: option.splits intro!: printed_WriteReg intro: printed_trans)
qed

lemma printed_consputc: "printed s s1 \<Longrightarrow> keepsK (printed s) (consputc c s1)"
  by (auto simp: consputc_def intro!: keepsK_bindI printed_sync)

lemma printed_consputs: "printed s s1 \<Longrightarrow> keepsK (printed s) (consputs cs s1)"
  unfolding consputs_def by (rule keepsK_forK) (auto intro: printed_consputc)

lemma printed_printint: "printed s s1 \<Longrightarrow> keepsK (printed s) (printint xx base sign s1)"
  by (auto simp: printint_def Let_def printed_consputs split: option.splits)

lemma printed_printptr: "printed s s1 \<Longrightarrow> keepsK (printed s) (printptr x s1)"
  unfolding printptr_def by (intro keepsK_bindI keepsK_forK printed_consputc) auto

lemma printed_print_conv: "printed s s1 \<Longrightarrow> keepsK (printed s) (print_conv cv ap s1)"
  by (auto simp: print_conv_def split: conv.splits option.splits
      intro!: keepsK_bindI printed_printint printed_printptr printed_consputs printed_consputc)

lemma printed_printf_loop: "printed s s1 \<Longrightarrow> keepsK (printed s) (printf_loop fmt ap s1)"
proof (induction fmt ap s1 rule: printf_loop.induct)
  case (2 cx fmt ap s1)
  show ?case
  proof (cases "cx = CHR ''%''")
    case False
    then show ?thesis using 2(1) [OF False] 2(3) by (auto intro!: keepsK_bindI printed_consputc)
  next
    case True
    then show ?thesis using 2(2) 2(3)
      by (auto split: option.splits intro!: keepsK_bindI printed_print_conv)
  qed
qed simp

lemma printed_printf: "printed s s1 \<Longrightarrow> keepsK (printed s) (printf fmt ap s1)"
  unfolding printf_def by (auto intro!: keepsK_bindI printed_printf_loop)

lemma printed_procdump: "printed s s1 \<Longrightarrow> keepsK (printed s) (procdump s1)"
  unfolding procdump_def
  by (intro keepsK_bindI keepsK_forK printed_printf)
     (auto simp: Let_def intro!: keepsK_bindI printed_printf)

lemma printed_cons [simp]:
  assumes "printed s s'"
  shows "cons_buf s' = cons_buf s" "cons_r s' = cons_r s" "cons_w s' = cons_w s"
    "cons_e s' = cons_e s" "procs s' = procs s" "cur s' = cur s"
  using assms by (auto simp: printed_def)

lemma printed_lsr: "printed s s' \<Longrightarrow> length (uart_lsr s') \<le> length (uart_lsr s)"
  by (auto simp: printed_def)

text \<open>\<^verbatim>\<open>write()\<close> on the console: one character at a time through the transmit buffer.\<close>

definition consolewrite_at ::
  "bool \<Rightarrow> uint64 \<Rightarrow> nat \<Rightarrow> 'a cons_st_scheme \<Rightarrow> (int option, 'a cons_st_scheme) outcome" where
  "consolewrite_at user_src src i s =
     bindK (either_copyin user_src (src + of_nat i) 1 s) (\<lambda>r s.
       if fst r = - 1 then Ret (Some (int i)) s
       else bindK (uartputc (uint (hd (snd r))) s) (\<lambda>_ s. Ret None s))"

definition consolewrite ::
  "bool \<Rightarrow> uint64 \<Rightarrow> int \<Rightarrow> 'a cons_st_scheme \<Rightarrow> (int, 'a cons_st_scheme) outcome" where
  "consolewrite user_src src n s =
     bindK (findK [0..<nat n] (consolewrite_at user_src src) s) (\<lambda>r s.
       Ret (case r of Some i \<Rightarrow> i | None \<Rightarrow> int (nat n)) s)"

definition cons_empty :: "'a cons_st_scheme \<Rightarrow> bool" where
  "cons_empty s \<longleftrightarrow> cons_r s = cons_w s"

definition cons_get :: "'a cons_st_scheme \<Rightarrow> uchar \<times> 'a cons_st_scheme" where
  "cons_get s = (cons_buf s ! (unat (cons_r s) mod INPUT_BUF_SIZE), s\<lparr>cons_r := cons_r s + 1\<rparr>)"

text \<open>
  The loop of \<^verbatim>\<open>consoleread\<close>, \<open>n\<close> characters still wanted out of \<open>target\<close>. A sleep in it
  resumes at the same point of the loop.
\<close>

fun consoleread_loop ::
  "bool \<Rightarrow> nat \<Rightarrow> uint64 \<Rightarrow> nat \<Rightarrow> 'a cons_st_scheme \<Rightarrow> (int, 'a cons_st_scheme) outcome" where
  "consoleread_loop user_dst target dst 0 s = Ret (int target) s"
| "consoleread_loop user_dst target dst (Suc m) s =
     (if cons_empty s then
        (case cur s of None \<Rightarrow> Panic ''kerneltrap''
         | Some p \<Rightarrow> if killed p s \<noteq> 0 then Ret (- 1) s else sleep ChanCons s)
      else
        let c = fst (cons_get s); s = snd (cons_get s) in
        if uint c = Ctl (CHR ''D'') then
          Ret (int target - int (Suc m))
            (if Suc m < target then s\<lparr>cons_r := cons_r s - 1\<rparr> else s)
        else
          bindK (either_copyout user_dst dst [c] s) (\<lambda>r s.
            if r = - 1 then Ret (int target - int (Suc m)) s
            else if c = newline then Ret (int target - int m) s
            else consoleread_loop user_dst target (dst + 1) m s))"

definition consoleread ::
  "bool \<Rightarrow> uint64 \<Rightarrow> int \<Rightarrow> 'a cons_st_scheme \<Rightarrow> (int, 'a cons_st_scheme) outcome" where
  "consoleread user_dst dst n s = consoleread_loop user_dst (nat n) dst (nat n) s"

section \<open>The interrupt handler\<close>

text \<open>Control-U: erase back to the start of the line or a newline.\<close>

function kill_line :: "'a cons_st_scheme \<Rightarrow> (unit, 'a cons_st_scheme) outcome" where
  "kill_line s =
     (if cons_e s \<noteq> cons_w s \<and>
         cons_buf s ! (unat (cons_e s - 1) mod INPUT_BUF_SIZE) \<noteq> newline
      then bindK (consputc BACKSPACE (s\<lparr>cons_e := cons_e s - 1\<rparr>)) (\<lambda>_ s. kill_line s)
      else Ret () s)"
  by pat_completeness auto
termination
proof (relation "measure (\<lambda>s. unat (cons_e s - cons_w s))")
  fix s :: "'a cons_st_scheme" and u s'
  assume a: "cons_e s \<noteq> cons_w s \<and> cons_buf s ! (unat (cons_e s - 1) mod INPUT_BUF_SIZE) \<noteq> newline"
    and c: "consputc BACKSPACE (s\<lparr>cons_e := cons_e s - 1\<rparr>) = Ret u s'"
  have "printed (s\<lparr>cons_e := cons_e s - 1\<rparr>) s'"
    using keepsK_Ret [OF printed_consputc [OF printed_refl] c] .
  then have "cons_e s' = cons_e s - 1" "cons_w s' = cons_w s" by simp_all
  moreover have "unat (cons_e s - 1 - cons_w s) < unat (cons_e s - cons_w s)"
    using ring_distance_pred [of "cons_w s" "cons_e s"] a by (auto simp: diff_diff_eq add.commute)
  ultimately show "(s', s) \<in> measure (\<lambda>s. unat (cons_e s - cons_w s))" by simp
qed simp

declare kill_line.simps [simp del]

text \<open>Backspace and delete.\<close>

definition erase_char :: "'a cons_st_scheme \<Rightarrow> (unit, 'a cons_st_scheme) outcome" where
  "erase_char s =
     (if cons_e s \<noteq> cons_w s then consputc BACKSPACE (s\<lparr>cons_e := cons_e s - 1\<rparr>) else Ret () s)"

text \<open>The default action for \<^verbatim>\<open>SIGINT\<close>, of \<^verbatim>\<open>proc.c\<close>.\<close>

definition sigint_default_handler :: "'a uart_st_scheme \<Rightarrow> (unit, 'a uart_st_scheme) outcome" where
  "sigint_default_handler s = (case cur s of
      None \<Rightarrow> Panic ''kerneltrap''
    | Some p \<Rightarrow> bindK (printf (''Entered sigint default handler'' @ [CHR 0x0A]) []
        (upd_proc p (\<lambda>q. q\<lparr>p_killed := 1\<rparr>) s)) (\<lambda>_ s. Ret () s))"

text \<open>
  Control-C acts on the process that happens to run when the key arrives. With a handler
  installed the kernel calls the user program's address in supervisor mode: what happens
  then is not defined by the source.
\<close>

definition interrupt_char :: "'a uart_st_scheme \<Rightarrow> (unit, 'a uart_st_scheme) outcome" where
  "interrupt_char s = (case cur s of
      None \<Rightarrow> Ret () s
    | Some p \<Rightarrow>
        bindK (printf (CHR 0x0A # ''Detected Ctrl+C'' @ [CHR 0x0A]) [] s) (\<lambda>_ s.
        bindK (if p_sig_handlers (procs s ! p) ! 2 \<noteq> 0
               then bindK (printf (''Calling custom SIGINT handler'' @ [CHR 0x0A]) [] s) (\<lambda>_ s. Stuck)
               else sigint_default_handler s) (\<lambda>_ s.
        Ret () (upd_proc p (\<lambda>q. q\<lparr>p_killed := 1\<rparr>) s))))"

text \<open>Every other character: echo it, store it, and hand a finished line to the readers.\<close>

definition store_char :: "int \<Rightarrow> 'a cons_st_scheme \<Rightarrow> (unit, 'a cons_st_scheme) outcome" where
  "store_char c s =
     (if c \<noteq> 0 \<and> cons_e s - cons_r s < of_nat INPUT_BUF_SIZE then
        let c = (if c = 13 then 10 else c) in
        bindK (consputc c s) (\<lambda>_ s.
          let s = s\<lparr>cons_buf := (cons_buf s)[unat (cons_e s) mod INPUT_BUF_SIZE := word_of_int c],
                    cons_e := cons_e s + 1\<rparr> in
          if c = 10 \<or> c = Ctl (CHR ''D'') \<or> cons_e s - cons_r s = of_nat INPUT_BUF_SIZE
          then Ret () (wakeup ChanCons (s\<lparr>cons_w := cons_e s\<rparr>))
          else Ret () s)
      else Ret () s)"

definition consoleintr :: "int \<Rightarrow> 'a cons_st_scheme \<Rightarrow> (unit, 'a cons_st_scheme) outcome" where
  "consoleintr c s =
     (if c = Ctl (CHR ''P'') then procdump s
      else if c = Ctl (CHR ''U'') then kill_line s
      else if c = Ctl (CHR ''H'') then erase_char s
      else if c = Ctl (CHR ''C'') then interrupt_char s
      else if c = 0x7f then erase_char s
      else store_char c s)"

section \<open>The receive loop\<close>

lemma uartgetc_lsr:
  "fst (uartgetc s) \<noteq> - 1 \<Longrightarrow> length (uart_lsr (snd (uartgetc s))) < length (uart_lsr s)"
  by (auto simp: uartgetc_def ReadReg_def LSR_def RHR_def Let_def split: list.splits)

lemma printed_erase: "printed (s\<lparr>cons_e := cons_e s - 1\<rparr>) s' \<Longrightarrow> length (uart_lsr s') \<le> length (uart_lsr s)"
  using printed_lsr by fastforce

lemma kill_line_lsr: "keepsK (\<lambda>s'. length (uart_lsr s') \<le> length (uart_lsr s)) (kill_line s)"
proof (induction s rule: kill_line.induct)
  case (1 s)
  show ?case
  proof (subst kill_line.simps, auto intro!: keepsK_bindI)
    show "keepsK (\<lambda>s'. length (uart_lsr s') \<le> length (uart_lsr s))
        (consputc BACKSPACE (s\<lparr>cons_e := cons_e s - 1\<rparr>))"
      by (rule keepsK_weaken [OF printed_consputc [OF printed_refl]]) (rule printed_erase)
    fix s' :: "'a cons_st_scheme" and a
    assume "cons_e s \<noteq> cons_w s" "cons_buf s ! (unat (cons_e s - 1) mod INPUT_BUF_SIZE) \<noteq> newline"
      "consputc BACKSPACE (s\<lparr>cons_e := cons_e s - 1\<rparr>) = Ret () s'"
      and l: "length (uart_lsr s') \<le> length (uart_lsr s)"
    then have "keepsK (\<lambda>s''. length (uart_lsr s'') \<le> length (uart_lsr s')) (kill_line s')"
      by (intro 1) auto
    then show "keepsK (\<lambda>s'. length (uart_lsr s') \<le> length (uart_lsr s)) (kill_line s')"
      by (rule keepsK_weaken) (use l in simp)
  qed
qed

definition lsr_le :: "'a cons_st_scheme \<Rightarrow> 'a cons_st_scheme \<Rightarrow> bool" where
  "lsr_le s s' \<longleftrightarrow> length (uart_lsr s') \<le> length (uart_lsr s)"

lemma printed_lsr_le: "keepsK (printed s1) m \<Longrightarrow> lsr_le s s1 \<Longrightarrow> keepsK (lsr_le s) m"
  by (erule keepsK_weaken) (auto simp: lsr_le_def dest: printed_lsr)

lemma consoleintr_lsr: "keepsK (lsr_le s) (consoleintr c s)"
proof -
  have "keepsK (lsr_le s) (procdump s)"
    by (rule printed_lsr_le [OF printed_procdump [OF printed_refl]]) (simp add: lsr_le_def)
  moreover have "keepsK (lsr_le s) (kill_line s)"
    using kill_line_lsr by (rule keepsK_weaken) (simp add: lsr_le_def)
  moreover have "keepsK (lsr_le s) (erase_char s)"
    unfolding erase_char_def
    by (auto intro!: printed_lsr_le [OF printed_consputc [OF printed_refl]] simp: lsr_le_def)
  moreover have "keepsK (lsr_le s) (interrupt_char s)"
    unfolding interrupt_char_def sigint_default_handler_def
    by (auto split: option.splits intro!: keepsK_bindI printed_lsr_le [OF printed_printf [OF printed_refl]]
        simp: lsr_le_def upd_proc_def)
  moreover have "keepsK (lsr_le s) (store_char c s)"
    unfolding store_char_def
    by (auto intro!: keepsK_bindI printed_lsr_le [OF printed_consputc [OF printed_refl]]
        simp: lsr_le_def Let_def)
  ultimately show ?thesis by (simp add: consoleintr_def)
qed

function uartintr_loop :: "'a cons_st_scheme \<Rightarrow> (unit, 'a cons_st_scheme) outcome" where
  "uartintr_loop s =
     (let c = fst (uartgetc s); s1 = snd (uartgetc s) in
      if c = - 1 then Ret () s1
      else bindK (consoleintr c s1) (\<lambda>_ s. uartintr_loop s))"
  by pat_completeness auto
termination
proof (relation "measure (\<lambda>s. length (uart_lsr s))", simp)
  fix s :: "'a cons_st_scheme" and c s1 u s2
  assume c: "c = fst (uartgetc s)" "s1 = snd (uartgetc s)" "c \<noteq> - 1" "consoleintr c s1 = Ret u s2"
  have "lsr_le s1 s2" using keepsK_Ret [OF consoleintr_lsr c(4)] .
  then show "(s2, s) \<in> measure (\<lambda>s. length (uart_lsr s))"
    using uartgetc_lsr [of s] c by (simp add: lsr_le_def)
qed

definition uartintr :: "'a cons_st_scheme \<Rightarrow> (unit, 'a cons_st_scheme) outcome" where
  "uartintr s = bindK (uartintr_loop s) (\<lambda>_ s. Ret () (uartstart s))"

section \<open>The line discipline\<close>

text \<open>
  The abstract console: the input the readers may take, and the line being edited. What a
  key does to the pair.
\<close>

definition edit :: "int \<Rightarrow> uchar list \<times> uchar list \<Rightarrow> uchar list \<times> uchar list" where
  "edit c = (\<lambda>(input, line).
     if c = Ctl (CHR ''U'') then (input, [])
     else if c = Ctl (CHR ''H'') \<or> c = 0x7f then (input, butlast line)
     else if c \<noteq> 0 \<and> length input + length line < INPUT_BUF_SIZE then
       let b = (if c = 13 then 10 else c); line = line @ [word_of_int b] in
       if b = 10 \<or> b = Ctl (CHR ''D'') \<or> length input + length line = INPUT_BUF_SIZE
       then (input @ line, []) else (input, line)
     else (input, line))"

definition cons_input :: "'a cons_st_scheme \<Rightarrow> uchar list" where
  "cons_input s = ring_content INPUT_BUF_SIZE (cons_buf s) (cons_r s) (cons_w s)"

definition cons_line :: "'a cons_st_scheme \<Rightarrow> uchar list" where
  "cons_line s = ring_content INPUT_BUF_SIZE (cons_buf s) (cons_w s) (cons_e s)"

definition cons_ok :: "'a cons_st_scheme \<Rightarrow> bool" where
  "cons_ok s \<longleftrightarrow> ring_ok INPUT_BUF_SIZE (cons_buf s) (cons_r s) (cons_e s) \<and>
     unat (cons_w s - cons_r s) \<le> unat (cons_e s - cons_r s) \<and> newline \<notin> set (cons_line s)"

lemma cons_cong:
  assumes "cons_buf s = cons_buf t" "cons_r s = cons_r t" "cons_w s = cons_w t" "cons_e s = cons_e t"
  shows "cons_ok s = cons_ok t" "cons_input s = cons_input t" "cons_line s = cons_line t"
  using assms by (simp_all add: cons_ok_def cons_input_def cons_line_def)

lemma cons_lengths:
  assumes "cons_ok s"
  shows "unat (cons_e s - cons_r s) = length (cons_input s) + length (cons_line s)"
    and "length (cons_input s) + length (cons_line s) \<le> INPUT_BUF_SIZE"
  using assms ring_distance_split [of "cons_w s" "cons_r s" "cons_e s"]
  by (simp_all add: cons_ok_def cons_input_def cons_line_def ring_ok_def)

lemma cons_erase:
  assumes "cons_ok s" and "cons_e s \<noteq> cons_w s"
  shows "cons_ok (s\<lparr>cons_e := cons_e s - 1\<rparr>)"
    and "cons_input (s\<lparr>cons_e := cons_e s - 1\<rparr>) = cons_input s"
    and "cons_line s = cons_line (s\<lparr>cons_e := cons_e s - 1\<rparr>) @
      [cons_buf s ! (unat (cons_e s - 1) mod INPUT_BUF_SIZE)]"
proof -
  let ?s = "s\<lparr>cons_e := cons_e s - 1\<rparr>"
  show l: "cons_line s = cons_line ?s @ [cons_buf s ! (unat (cons_e s - 1) mod INPUT_BUF_SIZE)]"
    using ring_unput [OF assms(2)] by (simp add: cons_line_def)
  show "cons_input ?s = cons_input s" by (simp add: cons_input_def)
  have "cons_r s \<noteq> cons_e s"
    using cons_lengths(1) [OF assms(1)] l by (auto dest: arg_cong [where f = length])
  then have "unat (cons_e s - cons_r s) = Suc (unat (cons_e s - 1 - cons_r s))"
    using ring_distance_pred [of "cons_r s" "cons_e s"] by (simp add: diff_diff_eq add.commute)
  then show "cons_ok ?s"
    using assms(1) l cons_lengths(1) [OF assms(1)]
    by (auto simp: cons_ok_def ring_ok_def cons_input_def)
qed

lemma cons_store:
  fixes b :: uchar
  assumes "cons_ok s" and "unat (cons_e s - cons_r s) < INPUT_BUF_SIZE"
  defines "s' \<equiv> s\<lparr>cons_buf := (cons_buf s)[unat (cons_e s) mod INPUT_BUF_SIZE := b], cons_e := cons_e s + 1\<rparr>"
  shows "ring_ok INPUT_BUF_SIZE (cons_buf s') (cons_r s') (cons_e s')"
    and "unat (cons_w s' - cons_r s') \<le> unat (cons_e s' - cons_r s')"
    and "unat (cons_e s' - cons_r s') = Suc (unat (cons_e s - cons_r s))"
    and "cons_input s' = cons_input s" and "cons_line s' = cons_line s @ [b]"
proof -
  have ok: "ring_ok INPUT_BUF_SIZE (cons_buf s) (cons_r s) (cons_e s)"
    and le: "unat (cons_w s - cons_r s) \<le> unat (cons_e s - cons_r s)"
    using assms(1) by (simp_all add: cons_ok_def)
  show ok': "ring_ok INPUT_BUF_SIZE (cons_buf s') (cons_r s') (cons_e s')"
    using ring_put(1) [OF ok assms(2)] by (simp add: s'_def)
  show d: "unat (cons_e s' - cons_r s') = Suc (unat (cons_e s - cons_r s))"
    using ring_distance_Suc [OF ok assms(2)] by (simp add: s'_def)
  show le': "unat (cons_w s' - cons_r s') \<le> unat (cons_e s' - cons_r s')"
    unfolding d using le by (simp add: s'_def)
  have "ring_content INPUT_BUF_SIZE (cons_buf s') (cons_r s') (cons_e s') = cons_input s' @ cons_line s'"
    "ring_content INPUT_BUF_SIZE (cons_buf s) (cons_r s) (cons_e s) = cons_input s @ cons_line s"
    unfolding cons_input_def cons_line_def by (rule ring_split [OF le'], rule ring_split [OF le])
  then have "cons_input s' @ cons_line s' = cons_input s @ cons_line s @ [b]"
    using ring_put(2) [OF ok assms(2), of b] by (simp add: s'_def)
  moreover have "length (cons_input s') = length (cons_input s)"
    by (simp add: cons_input_def s'_def)
  ultimately show "cons_input s' = cons_input s" "cons_line s' = cons_line s @ [b]" by simp_all
qed

lemma cons_commit:
  assumes "ring_ok INPUT_BUF_SIZE (cons_buf s) (cons_r s) (cons_e s)"
    and "unat (cons_w s - cons_r s) \<le> unat (cons_e s - cons_r s)"
  shows "cons_ok (s\<lparr>cons_w := cons_e s\<rparr>)" "cons_line (s\<lparr>cons_w := cons_e s\<rparr>) = []"
    and "cons_input (s\<lparr>cons_w := cons_e s\<rparr>) = cons_input s @ cons_line s"
  using assms ring_split [OF assms(2)] by (simp_all add: cons_ok_def cons_line_def cons_input_def)

lemma sent_printed: "sent cs s s' \<Longrightarrow> cons_buf s' = cons_buf s \<and> cons_r s' = cons_r s \<and>
    cons_w s' = cons_w s \<and> cons_e s' = cons_e s"
  by (auto simp: sent_def kprint_def)

lemma sent_cons:
  assumes "sent cs s s'"
  shows "cons_ok s' = cons_ok s" "cons_input s' = cons_input s" "cons_line s' = cons_line s"
  using cons_cong [of s' s] sent_printed [OF assms] by simp_all

lemma consputc_BACKSPACE:
  assumes "line_ready (n + 3) s"
  shows "okK (consputc BACKSPACE s) (\<lambda>_ s'. sent [8, 32, 8] s s' \<and> line_ready n s')"
proof -
  have put: "okK (uartputc_sync 8 s) (\<lambda>_ s'. sent [8] s s' \<and> line_ready m s')"
    "okK (uartputc_sync 32 s) (\<lambda>_ s'. sent [32] s s' \<and> line_ready m s')"
    if "line_ready (Suc m) s" for s :: "'a uart_st_scheme" and m
    using uartputc_sync_ok [OF that, of 8] uartputc_sync_ok [OF that, of 32] by simp_all
  have "sent [8, 32, 8] s s3" if "sent [8] s s1" "sent [32] s1 s2" "sent [8] s2 s3"
    for s s1 s2 s3 :: "'a uart_st_scheme"
    using sent_append [OF that(1) sent_append [OF that(2,3)]] by simp
  then show ?thesis unfolding consputc_def
    using assms
    by (auto intro!: okK_bindI [OF put(1) [of "n + 2"]] okK_bindI [OF put(2) [of "n + 1"]]
        okK_weaken [OF put(1) [of n]] elim: line_ready_mono)
qed

lemma line_ready_cons [simp]:
  "line_ready n (s\<lparr>cons_e := e\<rparr>) = line_ready n s" "line_ready n (s\<lparr>cons_w := e\<rparr>) = line_ready n s"
  "line_ready n (s\<lparr>cons_buf := b\<rparr>) = line_ready n s" "line_ready n (wakeup ch s) = line_ready n s"
  by (simp_all add: line_ready_def)

lemma kill_line_ok:
  assumes "cons_ok s" and "line_ready (3 * length (cons_line s) + n) s"
  shows "okK (kill_line s) (\<lambda>_ s'. cons_ok s' \<and> cons_input s' = cons_input s \<and> cons_line s' = [])"
  using assms
proof (induction s rule: kill_line.induct)
  case (1 s)
  let ?s = "s\<lparr>cons_e := cons_e s - 1\<rparr>"
  show ?case
  proof (cases "cons_e s = cons_w s")
    case True
    then show ?thesis using 1(2) by (subst kill_line.simps) (simp add: cons_line_def)
  next
    case False
    note e = cons_erase [OF 1(2) False]
    have "cons_buf s ! (unat (cons_e s - 1) mod INPUT_BUF_SIZE) \<in> set (cons_line s)"
      by (subst e(3)) simp
    then have nl: "cons_buf s ! (unat (cons_e s - 1) mod INPUT_BUF_SIZE) \<noteq> newline"
      using 1(2) by (auto simp: cons_ok_def)
    have "length (cons_line s) = Suc (length (cons_line ?s))" by (subst e(3)) simp
    then have "line_ready (3 * length (cons_line ?s) + n + 3) ?s"
      using 1(3) line_ready_mono [of _ s] by simp
    from consputc_BACKSPACE [OF this] obtain u s1 where s1: "consputc BACKSPACE ?s = Ret u s1"
      "sent [8, 32, 8] ?s s1" "line_ready (3 * length (cons_line ?s) + n) s1"
      by (auto simp: okK_iff)
    have "okK (kill_line s1) (\<lambda>_ s'. cons_ok s' \<and> cons_input s' = cons_input s1 \<and> cons_line s' = [])"
    proof (rule 1(1) [OF _ s1(1)])
      show "cons_ok s1" using e(1) sent_cons(1) [OF s1(2)] by simp
      show "line_ready (3 * length (cons_line s1) + n) s1"
        using s1(3) unfolding sent_cons(3) [OF s1(2)] .
    qed (use False nl in simp)
    moreover have "cons_input s1 = cons_input s" using e(2) sent_cons(2) [OF s1(2)] by simp
    moreover have "kill_line s = kill_line s1"
      using False nl s1(1) by (subst kill_line.simps) simp
    ultimately show ?thesis by simp
  qed
qed

lemma erase_char_ok:
  assumes "cons_ok s" and "line_ready 3 s"
  shows "okK (erase_char s) (\<lambda>_ s'. cons_ok s' \<and> cons_input s' = cons_input s \<and>
    cons_line s' = butlast (cons_line s))"
proof (cases "cons_e s = cons_w s")
  case True
  then show ?thesis using assms by (simp add: erase_char_def cons_line_def)
next
  case False
  note e = cons_erase [OF assms(1) False]
  have "okK (consputc BACKSPACE (s\<lparr>cons_e := cons_e s - 1\<rparr>)) (\<lambda>_ s'.
      sent [8, 32, 8] (s\<lparr>cons_e := cons_e s - 1\<rparr>) s' \<and> line_ready 0 s')"
    using assms(2) by (intro consputc_BACKSPACE) simp
  moreover have "butlast (cons_line s) = cons_line (s\<lparr>cons_e := cons_e s - 1\<rparr>)"
    by (subst e(3)) simp
  ultimately show ?thesis using False e by (auto simp: erase_char_def sent_cons elim!: okK_weaken)
qed

lemma wakeup_cons [simp]:
  "cons_ok (wakeup ch s) = cons_ok s" "cons_input (wakeup ch s) = cons_input s"
  "cons_line (wakeup ch s) = cons_line s"
  by (rule cons_cong; simp add: wakeup_def)+

lemma cons_space: "cons_ok s \<Longrightarrow> cons_e s - cons_r s < of_nat INPUT_BUF_SIZE \<longleftrightarrow>
    length (cons_input s) + length (cons_line s) < INPUT_BUF_SIZE"
  using cons_lengths(1) [of s] by (simp add: word_less_nat_alt INPUT_BUF_SIZE_def)

lemma store_char_ok:
  assumes "cons_ok s" and "line_ready 1 s" and "0 \<le> c" and "c < 256"
    and "c \<noteq> Ctl (CHR ''U'')" and "c \<noteq> Ctl (CHR ''H'')" and "c \<noteq> 0x7f"
  shows "okK (store_char c s) (\<lambda>_ s'. cons_ok s' \<and>
    (cons_input s', cons_line s') = edit c (cons_input s, cons_line s))"
proof (cases "c \<noteq> 0 \<and> length (cons_input s) + length (cons_line s) < INPUT_BUF_SIZE")
  case False
  then have "\<not> (c \<noteq> 0 \<and> cons_e s - cons_r s < of_nat INPUT_BUF_SIZE)"
    using cons_space [OF assms(1)] by blast
  then have "store_char c s = Ret () s" unfolding store_char_def by (simp only: if_False)
  moreover have "edit c (cons_input s, cons_line s) = (cons_input s, cons_line s)"
    unfolding edit_def by (simp only: prod.case assms(5-7) False if_False simp_thms)
  ultimately show ?thesis using assms(1) by simp
next
  case True
  define d where "d = (if c = 13 then 10 else c)"
  define b :: uchar where "b = word_of_int d"
  have d: "d = uint b" using assms(3,4) by (simp add: b_def d_def take_bit_eq_mod uint_word_of_int)
  obtain u s1 where s1: "consputc d s = Ret u s1" "sent [b] s s1"
    using consputc_ok [of 0 s b] assms(2) unfolding d by (auto simp: okK_iff)
  have f1: "cons_e s1 = cons_e s" "cons_r s1 = cons_r s" using sent_printed [OF s1(2)] by simp_all
  have ok1: "cons_ok s1" and same: "cons_input s1 = cons_input s" "cons_line s1 = cons_line s"
    using sent_cons [OF s1(2)] assms(1) by simp_all
  define s2 where "s2 = s1\<lparr>cons_buf := (cons_buf s1)[unat (cons_e s1) mod INPUT_BUF_SIZE := b],
    cons_e := cons_e s1 + 1\<rparr>"
  have sp: "unat (cons_e s1 - cons_r s1) < INPUT_BUF_SIZE"
    using True cons_lengths(1) [OF assms(1)] f1 by simp
  note st = cons_store [OF ok1 sp, of b, folded s2_def]
  define fin where "fin \<longleftrightarrow> d = 10 \<or> d = Ctl (CHR ''D'') \<or>
    length (cons_input s) + length (cons_line s @ [b]) = INPUT_BUF_SIZE"
  have "cons_e s2 - cons_r s2 = of_nat INPUT_BUF_SIZE \<longleftrightarrow>
      unat (cons_e s2 - cons_r s2) = INPUT_BUF_SIZE"
    using ring_full [OF st(1)] by (auto simp: algebra_simps)
  also have "\<dots> \<longleftrightarrow> length (cons_input s) + length (cons_line s @ [b]) = INPUT_BUF_SIZE"
    using st(3) cons_lengths(1) [OF ok1] same by simp
  finally have run: "store_char c s =
      Ret () (if fin then wakeup ChanCons (s2\<lparr>cons_w := cons_e s2\<rparr>) else s2)"
    using True cons_space [OF assms(1)] s1(1)
    by (simp add: store_char_def Let_def d_def [symmetric] fin_def s2_def b_def)
  have ed: "edit c (cons_input s, cons_line s) =
      (if fin then (cons_input s @ cons_line s @ [b], []) else (cons_input s, cons_line s @ [b]))"
    using True assms(5-7) by (simp add: edit_def Let_def d_def [symmetric] b_def [symmetric] fin_def)
  have "b \<noteq> newline" if "\<not> fin" using that d by (auto simp: fin_def newline_def)
  then have "cons_ok s2" if "\<not> fin"
    using that st(1,2,5) ok1 by (simp add: cons_ok_def)
  then show ?thesis
    using run ed cons_commit [OF st(1,2)] st(4,5) same by simp
qed

text \<open>C22: The interrupt handler implements the line discipline: on every key but control-P
  and control-C it returns, keeps the counters in order (read up to write up to edit, at
  most 128 apart, across wrap-around), and moves the pair of available input and line being
  edited as the abstract editor does: erase, kill line, store with carriage return turned
  into newline, and hand over the line at newline, end of file or a full buffer.\<close>

theorem consoleintr_refines:
  assumes "cons_ok s" and "line_ready (3 * INPUT_BUF_SIZE) s" and "0 \<le> c" and "c < 256"
    and "c \<noteq> Ctl (CHR ''P'')" and "c \<noteq> Ctl (CHR ''C'')"
  shows "okK (consoleintr c s) (\<lambda>_ s'. cons_ok s' \<and>
    (cons_input s', cons_line s') = edit c (cons_input s, cons_line s))"
proof -
  have l: "line_ready 3 s" "line_ready 1 s" "line_ready (3 * length (cons_line s) + 0) s"
    using assms(2) cons_lengths(2) [OF assms(1)]
    by (auto elim!: line_ready_mono simp: INPUT_BUF_SIZE_def)
  have codes: "Ctl (CHR ''U'') = 21" "Ctl (CHR ''H'') = 8" "Ctl (CHR ''P'') = 16" "Ctl (CHR ''C'') = 3"
    by (simp_all add: Ctl_def chr_def)
  consider "c = 21" | "c = 8 \<or> c = 127" | "c \<noteq> 21" "c \<noteq> 8" "c \<noteq> 127" by blast
  then show ?thesis
  proof cases
    case 1
    then show ?thesis using kill_line_ok [OF assms(1) l(3)]
      by (auto simp: consoleintr_def codes edit_def elim!: okK_weaken)
  next
    case 2
    then show ?thesis using erase_char_ok [OF assms(1) l(1)]
      by (auto simp: consoleintr_def codes edit_def elim!: okK_weaken)
  next
    case 3
    then show ?thesis using store_char_ok [OF assms(1) l(2) assms(3,4)] assms(5,6)
      by (auto simp: consoleintr_def codes)
  qed
qed

definition demo_cons :: "uchar list \<Rightarrow> cons_st" where
  "demo_cons lsr = uart_st.extend (demo_uart lsr)
     (cons_st.fields (replicate INPUT_BUF_SIZE 0) (- 1) (- 1) (- 1))"

lemma demo_cons_ok:
  "cons_ok (demo_cons lsr)" "cons_input (demo_cons lsr) = []" "cons_line (demo_cons lsr) = []"
  by (simp_all add: demo_cons_def cons_ok_def cons_input_def cons_line_def ring_ok_def
      uart_st.defs cons_st.defs INPUT_BUF_SIZE_def)

lemma idle_count_replicate: "idle_count (replicate n LSR_TX_IDLE) = n"
  by (simp add: idle_count_def LSR_TX_IDLE_def)

lemma demo_cons_ready: "line_ready n (demo_cons (replicate n LSR_TX_IDLE))"
  by (simp add: line_ready_def demo_cons_def demo_uart_def uart_st.defs cons_st.defs fs_st.defs
      idle_count_replicate)

theorem consoleintr_refines_witness:
  "okK (consoleintr 65 (demo_cons (replicate (3 * INPUT_BUF_SIZE) LSR_TX_IDLE))) (\<lambda>_ s'.
     cons_ok s' \<and> cons_input s' = [] \<and> cons_line s' = [65])"
proof -
  have "edit 65 ([], []) = ([], [65])"
    by (simp add: edit_def Ctl_def chr_def INPUT_BUF_SIZE_def)
  then show ?thesis
    using consoleintr_refines [OF demo_cons_ok(1) demo_cons_ready, of 65]
    by (simp add: demo_cons_ok Ctl_def chr_def)
qed

section \<open>Reading a line\<close>

lemma cons_get_ok:
  assumes "cons_ok s" and "cons_input s = c # cs"
  shows "fst (cons_get s) = c" "cons_ok (snd (cons_get s))" "cons_input (snd (cons_get s)) = cs"
    "cons_line (snd (cons_get s)) = cons_line s" "\<not> cons_empty s"
proof -
  have ne: "cons_r s \<noteq> cons_w s" using assms(2) by (auto simp: cons_input_def)
  have ok: "ring_ok INPUT_BUF_SIZE (cons_buf s) (cons_r s) (cons_e s)" using assms(1) by (simp add: cons_ok_def)
  then have okw: "ring_ok INPUT_BUF_SIZE (cons_buf s) (cons_r s) (cons_w s)"
    using assms(1) by (auto simp: cons_ok_def ring_ok_def)
  from ring_get [OF okw ne] assms(2) show g: "fst (cons_get s) = c" "cons_input (snd (cons_get s)) = cs"
    by (simp_all add: cons_get_def cons_input_def)
  have "cons_r s \<noteq> cons_e s"
    using assms(1) ne ring_distance_pred [OF ne] by (auto simp: cons_ok_def)
  then show "cons_ok (snd (cons_get s))"
    using assms(1) ring_get(1) [OF ok] ring_distance_pred [OF ne] ring_distance_pred [of "cons_r s" "cons_e s"]
    by (simp add: cons_get_def cons_ok_def cons_line_def)
  show "cons_line (snd (cons_get s)) = cons_line s" by (simp add: cons_get_def cons_line_def)
  show "\<not> cons_empty s" using ne by (simp add: cons_empty_def)
qed

lemma cons_mem [simp]:
  "cons_ok (s\<lparr>mem := m\<rparr>) = cons_ok s" "cons_input (s\<lparr>mem := m\<rparr>) = cons_input s"
  "cons_line (s\<lparr>mem := m\<rparr>) = cons_line s"
  by (rule cons_cong; simp)+

lemma cons_get_simps [simp]:
  "cur (snd (cons_get s)) = cur s" "procs (snd (cons_get s)) = procs s" "mem (snd (cons_get s)) = mem s"
  by (simp_all add: cons_get_def)

lemma Ctl_D: "Ctl (CHR ''D'') = 4"
  by (simp add: Ctl_def chr_def)

lemma consoleread_loop_line:
  assumes "cons_ok s" and "cons_input s = line @ newline # rest" and "newline \<notin> set line"
    and "4 \<notin> set line" and "length line < n" and "n \<le> target" and "length line < 2 ^ 63"
    and "cur s = Some p" and "p_pagetable (procs s ! p) = pt"
    and "space_ok (mem s) pt" and "uwritable (mem s) pt dst (length line + 1)"
  shows "okK (consoleread_loop True target dst n s) (\<lambda>r s'.
    r = int target - int n + int (length line) + 1 \<and> cons_ok s' \<and> cons_input s' = rest \<and>
    cons_line s' = cons_line s \<and> uwrote pt dst (line @ [newline]) (mem s) (mem s'))"
  using assms
proof (induction line arbitrary: dst n s)
  case Nil
  obtain m where m: "n = Suc m" using Nil(5) by (cases n) auto
  note g = cons_get_ok [OF Nil(1), of newline rest]
  have "space_ok (mem (snd (cons_get s))) pt" "writable (mem (snd (cons_get s))) pt (PGROUNDDOWN dst)"
    using Nil(10,11) by (simp_all add: uwritable_def)
  then obtain m' where c: "copyout pt dst [newline] (snd (cons_get s)) = Ret 0 ((snd (cons_get s))\<lparr>mem := m'\<rparr>)"
      "uwrote pt dst [newline] (mem (snd (cons_get s))) m'"
    by (rule copyout_byte)
  show ?case using g Nil(2,6,8,9) c
    by (simp add: m either_copyout_def Let_def Ctl_D) (simp add: newline_def)
next
  case (Cons c line)
  obtain k where k: "n = Suc k" using Cons.prems(5) by (cases n) auto
  define s1 where "s1 = snd (cons_get s)"
  note g = cons_get_ok [OF Cons(2), of c "line @ newline # rest", folded s1_def]
  have f1: "cur s1 = cur s" "procs s1 = procs s" "mem s1 = mem s" by (simp_all add: s1_def)
  have "space_ok (mem s1) pt" "writable (mem s1) pt (PGROUNDDOWN dst)"
    using Cons.prems(10,11) uwritable_first [of "mem s" pt dst] by (simp_all add: f1)
  then obtain m' where c: "copyout pt dst [c] s1 = Ret 0 (s1\<lparr>mem := m'\<rparr>)" "uwrote pt dst [c] (mem s1) m'"
    by (rule copyout_byte)
  have "c = 4" if "uint c = 4"
    using arg_cong [where f = "word_of_int :: int \<Rightarrow> uchar", OF that] by simp
  then have c4: "uint c \<noteq> 4" "c \<noteq> newline" using Cons.prems(3,4) by auto
  have w: "uwritable m' pt (dst + 1) (length line + 1)"
    using uwritable_rest [of "mem s" pt dst "length line + 1"] Cons.prems(11)
      uwritable_cong [OF uwrote_writable [OF c(2)]] by (simp add: f1)
  have "okK (consoleread_loop True target (dst + 1) k (s1\<lparr>mem := m'\<rparr>)) (\<lambda>r s'.
      r = int target - int k + int (length line) + 1 \<and> cons_ok s' \<and> cons_input s' = rest \<and>
      cons_line s' = cons_line (s1\<lparr>mem := m'\<rparr>) \<and>
      uwrote pt (dst + 1) (line @ [newline]) (mem (s1\<lparr>mem := m'\<rparr>)) (mem s'))"
  proof (rule Cons.IH)
    show "cons_ok (s1\<lparr>mem := m'\<rparr>)" "cons_input (s1\<lparr>mem := m'\<rparr>) = line @ newline # rest"
      using g Cons.prems(2) by simp_all
    show "space_ok (mem (s1\<lparr>mem := m'\<rparr>)) pt" "uwritable (mem (s1\<lparr>mem := m'\<rparr>)) pt (dst + 1) (length line + 1)"
      using w uwrote_ok [OF c(2)] by simp_all
  qed (use Cons.prems(3-9) k f1 in simp_all)
  moreover have "consoleread_loop True target dst n s =
      consoleread_loop True target (dst + 1) k (s1\<lparr>mem := m'\<rparr>)"
    using g Cons.prems(2,8,9) c c4 f1
    by (simp add: k either_copyout_def Let_def Ctl_D s1_def [symmetric])
  moreover have "uwrote pt dst ([c] @ (line @ [newline])) (mem s) m2"
    if "uwrote pt (dst + 1) (line @ [newline]) m' m2" for m2
    using c(2) that Cons.prems(7) by (intro uwrote_append [of pt dst "[c]" _ m']) (simp_all add: f1)
  ultimately show ?case using g Cons.prems(2) k by (auto elim!: okK_weaken)
qed


text \<open>C23: With a whole line waiting, \<^verbatim>\<open>consoleread\<close> into a writable user buffer that is long
  enough returns the length of that line with its newline; the user program sees exactly
  the line at the buffer and nothing else changed, the rest of the input stays for the
  next reader, and the line being edited is untouched.\<close>

theorem consoleread_line:
  assumes "cons_ok s" and "cons_input s = line @ newline # rest" and "newline \<notin> set line"
    and "4 \<notin> set line" and "int (length line) < n"
    and "cur s = Some p" and "p_pagetable (procs s ! p) = pt"
    and "space_ok (mem s) pt" and "uwritable (mem s) pt dst (length line + 1)"
  shows "okK (consoleread True dst n s) (\<lambda>r s'.
    r = int (length line) + 1 \<and> cons_ok s' \<and> cons_input s' = rest \<and>
    cons_line s' = cons_line s \<and> uwrote pt dst (line @ [newline]) (mem s) (mem s'))"
proof -
  have "length line < 2 ^ 63"
    using cons_lengths(2) [OF assms(1)] by (simp add: assms(2) INPUT_BUF_SIZE_def)
  then show ?thesis
    unfolding consoleread_def
    using consoleread_loop_line [OF assms(1-4), of "nat n" "nat n" p pt dst] assms(5-9) by simp
qed

text \<open>A console with the line ``A'' waiting, and one writable user page at address 0.\<close>

definition demo_read :: cons_st where
  "demo_read = (demo_cons [])\<lparr>cons_buf := (replicate INPUT_BUF_SIZE 0)[127 := 65, 0 := newline],
     cons_w := 1, cons_e := 1, mem := demo_space,
     procs := replicate NPROC (zero_proc\<lparr>p_pagetable := 0x1000\<rparr>)\<rparr>"

theorem consoleread_line_witness:
  "okK (consoleread True 0 10 demo_read) (\<lambda>r s'. r = 2 \<and> cons_input s' = [] \<and>
     umem (mem s') 0x1000 0 = Some 65)"
proof -
  have upt: "[0..<2] = [0, 1]" by (simp add: upt_rec)
  have m1: "unat (- 1 :: uint) = 4294967295"
    by (simp add: unsigned_minus_1_eq_mask mask_eq_exp_minus_1)
  have i: "cons_input demo_read = [65] @ newline # []" "cons_line demo_read = []" "cons_ok demo_read"
    by (simp_all add: demo_read_def demo_cons_def cons_input_def cons_line_def cons_ok_def ring_ok_def
        ring_content_def INPUT_BUF_SIZE_def uart_st.defs cons_st.defs upt m1)
  have c: "cur demo_read = Some 0" "p_pagetable (procs demo_read ! 0) = 0x1000" "mem demo_read = demo_space"
    by (simp_all add: demo_read_def demo_cons_def demo_uart_def demo_fs_def binit_def uart_st.defs
        cons_st.defs fs_st.defs NPROC_def)
  have w: "uwritable demo_space 0x1000 0 (Suc (Suc 0))" by (rule demo_space_writable) simp
  show ?thesis
    using consoleread_line [OF i(3,1), of 10 0 "0x1000" 0] c w demo_space_ok
    by (simp add: newline_def) (auto elim!: okK_weaken simp: uwrote_def)
qed

end
