(* ===== verification/Pipe.thy ===== *)
theory Pipe
  imports Console
begin

text \<open>
  Pipes, \<^verbatim>\<open>src/kernel/pipe.c\<close>: closing, writing and reading. A pipe lives in the page that
  \<^verbatim>\<open>kalloc\<close> returned for it; the state maps the address of that page to the fields of the
  structure, and using an address without a pipe is an access outside any object (\<open>Stuck\<close>).
  The system call loops go byte by byte and may sleep in the middle; the loop functions
  take the position reached, so a sleeper resumes by calling them where it stopped.
\<close>

section \<open>State and operations\<close>

definition PIPESIZE :: nat where "PIPESIZE = 512"

record pipe =
  pi_data :: "uchar list"
  pi_nread :: uint
  pi_nwrite :: uint
  pi_readopen :: int
  pi_writeopen :: int

record pipe_st = cons_st +
  pipes :: "uint64 \<Rightarrow> pipe option"

definition upd_pipe :: "uint64 \<Rightarrow> (pipe \<Rightarrow> pipe) \<Rightarrow> 'a pipe_st_scheme \<Rightarrow> 'a pipe_st_scheme" where
  "upd_pipe a f s = s\<lparr>pipes := (pipes s)(a := map_option f (pipes s a))\<rparr>"

definition pipe_full :: "pipe \<Rightarrow> bool" where
  "pipe_full pi \<longleftrightarrow> pi_nwrite pi = pi_nread pi + of_nat PIPESIZE"

definition pipe_empty :: "pipe \<Rightarrow> bool" where
  "pipe_empty pi \<longleftrightarrow> pi_nread pi = pi_nwrite pi"

definition pipe_put :: "uchar \<Rightarrow> pipe \<Rightarrow> pipe" where
  "pipe_put c pi = pi\<lparr>pi_data := (pi_data pi)[unat (pi_nwrite pi) mod PIPESIZE := c],
     pi_nwrite := pi_nwrite pi + 1\<rparr>"

definition pipe_get :: "pipe \<Rightarrow> uchar \<times> pipe" where
  "pipe_get pi = (pi_data pi ! (unat (pi_nread pi) mod PIPESIZE), pi\<lparr>pi_nread := pi_nread pi + 1\<rparr>)"

definition pipeclose :: "uint64 \<Rightarrow> bool \<Rightarrow> 'a pipe_st_scheme \<Rightarrow> (unit, 'a pipe_st_scheme) outcome" where
  "pipeclose a wr s = (case pipes s a of
      None \<Rightarrow> Stuck
    | Some pi \<Rightarrow>
        let s = (if wr
                 then wakeup (ChanPipeRead a) (upd_pipe a (\<lambda>pi. pi\<lparr>pi_writeopen := 0\<rparr>) s)
                 else wakeup (ChanPipeWrite a) (upd_pipe a (\<lambda>pi. pi\<lparr>pi_readopen := 0\<rparr>) s));
            pi = the (pipes s a) in
        if pi_readopen pi = 0 \<and> pi_writeopen pi = 0
        then kfree a (s\<lparr>pipes := (pipes s)(a := None)\<rparr>)
        else Ret () s)"

text \<open>\<open>i\<close> bytes are written and \<open>k\<close> are left.\<close>

fun pipewrite_loop ::
  "uint64 \<Rightarrow> uint64 \<Rightarrow> nat \<Rightarrow> nat \<Rightarrow> 'a pipe_st_scheme \<Rightarrow> (int, 'a pipe_st_scheme) outcome" where
  "pipewrite_loop a addr i 0 s = Ret (int i) (wakeup (ChanPipeRead a) s)"
| "pipewrite_loop a addr i (Suc k) s = (case (pipes s a, cur s) of
      (Some pi, Some p) \<Rightarrow>
        if pi_readopen pi = 0 \<or> killed p s \<noteq> 0 then Ret (- 1) s
        else if pipe_full pi then sleep (ChanPipeWrite a) (wakeup (ChanPipeRead a) s)
        else bindK (copyin (p_pagetable (procs s ! p)) (addr + of_nat i) 1 s) (\<lambda>r s.
          if fst r = - 1 then Ret (int i) (wakeup (ChanPipeRead a) s)
          else pipewrite_loop a addr (i + 1) k (upd_pipe a (pipe_put (hd (snd r))) s))
    | (Some pi, None) \<Rightarrow> Panic ''kerneltrap''
    | (None, _) \<Rightarrow> Stuck)"

definition pipewrite ::
  "uint64 \<Rightarrow> uint64 \<Rightarrow> int \<Rightarrow> 'a pipe_st_scheme \<Rightarrow> (int, 'a pipe_st_scheme) outcome" where
  "pipewrite a addr n s = pipewrite_loop a addr 0 (nat n) s"

fun piperead_loop ::
  "uint64 \<Rightarrow> uint64 \<Rightarrow> nat \<Rightarrow> nat \<Rightarrow> 'a pipe_st_scheme \<Rightarrow> (int, 'a pipe_st_scheme) outcome" where
  "piperead_loop a addr i 0 s = Ret (int i) (wakeup (ChanPipeWrite a) s)"
| "piperead_loop a addr i (Suc k) s = (case (pipes s a, cur s) of
      (Some pi, Some p) \<Rightarrow>
        if pipe_empty pi then Ret (int i) (wakeup (ChanPipeWrite a) s)
        else
          let c = fst (pipe_get pi); s = upd_pipe a (\<lambda>pi. snd (pipe_get pi)) s in
          bindK (copyout (p_pagetable (procs s ! p)) (addr + of_nat i) [c] s) (\<lambda>r s.
            if r = - 1 then Ret (int i) (wakeup (ChanPipeWrite a) s)
            else piperead_loop a addr (i + 1) k s)
    | (Some pi, None) \<Rightarrow> Panic ''kerneltrap''
    | (None, _) \<Rightarrow> Stuck)"

definition piperead ::
  "uint64 \<Rightarrow> uint64 \<Rightarrow> int \<Rightarrow> 'a pipe_st_scheme \<Rightarrow> (int, 'a pipe_st_scheme) outcome" where
  "piperead a addr n s = (case (pipes s a, cur s) of
      (Some pi, Some p) \<Rightarrow>
        if pipe_empty pi \<and> pi_writeopen pi \<noteq> 0 then
          (if killed p s \<noteq> 0 then Ret (- 1) s else sleep (ChanPipeRead a) s)
        else piperead_loop a addr 0 (nat n) s
    | (Some pi, None) \<Rightarrow> Panic ''kerneltrap''
    | (None, _) \<Rightarrow> Stuck)"

section \<open>A pipe is a bounded queue\<close>

definition pipe_good :: "pipe \<Rightarrow> bool" where
  "pipe_good pi \<longleftrightarrow> ring_ok PIPESIZE (pi_data pi) (pi_nread pi) (pi_nwrite pi)"

definition pipe_items :: "pipe \<Rightarrow> uchar list" where
  "pipe_items pi = ring_content PIPESIZE (pi_data pi) (pi_nread pi) (pi_nwrite pi)"

interpretation pipe_queue: bounded_fifo pipe_good pipe_items PIPESIZE pipe_full pipe_empty
  pipe_put pipe_get
proof
  fix pi c
  assume ok: "pipe_good pi"
  note ok' = ok [unfolded pipe_good_def]
  show "length (pipe_items pi) \<le> PIPESIZE"
    using ok' by (simp add: pipe_items_def ring_ok_def)
  show f: "pipe_full pi \<longleftrightarrow> length (pipe_items pi) = PIPESIZE"
    using ring_full [OF ok'] by (simp add: pipe_full_def pipe_items_def)
  show "pipe_empty pi \<longleftrightarrow> pipe_items pi = []"
    by (simp add: pipe_empty_def pipe_items_def ring_empty)
  show "pipe_good (pipe_put c pi)" "pipe_items (pipe_put c pi) = pipe_items pi @ [c]"
    if "\<not> pipe_full pi"
  proof -
    have "unat (pi_nwrite pi - pi_nread pi) < PIPESIZE"
      using that f ok' by (simp add: pipe_items_def ring_ok_def)
    from ring_put [OF ok' this, of c] show "pipe_good (pipe_put c pi)"
      "pipe_items (pipe_put c pi) = pipe_items pi @ [c]"
      by (simp_all add: pipe_good_def pipe_items_def pipe_put_def)
  qed
  show "pipe_good (snd (pipe_get pi))"
    "pipe_items pi = fst (pipe_get pi) # pipe_items (snd (pipe_get pi))" if "\<not> pipe_empty pi"
    using that ring_get [OF ok'] by (auto simp: pipe_good_def pipe_items_def pipe_get_def pipe_empty_def)
qed

section \<open>Writing\<close>

definition appended :: "uchar list \<Rightarrow> pipe \<Rightarrow> pipe \<Rightarrow> bool" where
  "appended bs pi pi' \<longleftrightarrow> pipe_good pi' \<and> pipe_items pi' = pipe_items pi @ bs \<and>
     pi_readopen pi' = pi_readopen pi \<and> pi_writeopen pi' = pi_writeopen pi"

lemma ubytes_Suc:
  assumes "ubytes m pt va (Suc k) = Some bs"
  obtains b bs' where "bs = b # bs'" "umem m pt va = Some b" "ubytes m pt (va + 1) k = Some bs'"
proof -
  have "[0..<Suc k] = 0 # map Suc [0..<k]" by (simp add: map_Suc_upt upt_conv_Cons del: upt_Suc)
  then have "ubytes m pt va (Suc k) = those (umem m pt va # map (\<lambda>i. umem m pt (va + 1 + of_nat i)) [0..<k])"
    by (simp add: ubytes_def o_def add.assoc del: upt_Suc)
  then show thesis using assms that by (auto simp: ubytes_def split: option.splits)
qed

definition set_pipe :: "uint64 \<Rightarrow> pipe \<Rightarrow> 'a pipe_st_scheme \<Rightarrow> 'a pipe_st_scheme" where
  "set_pipe a pi s = s\<lparr>pipes := (pipes s)(a \<mapsto> pi)\<rparr>"

lemma set_pipe_simps [simp]:
  "pipes (set_pipe a pi s) b = (if b = a then Some pi else pipes s b)"
  "set_pipe a pi (set_pipe a pi' s) = set_pipe a pi s"
  "cur (set_pipe a pi s) = cur s" "procs (set_pipe a pi s) = procs s" "mem (set_pipe a pi s) = mem s"
  by (simp_all add: set_pipe_def)

lemma set_pipe_same: "pipes s a = Some pi \<Longrightarrow> set_pipe a pi s = s"
  by (simp add: set_pipe_def fun_upd_idem)

lemma killed_set_pipe [simp]: "killed p (set_pipe a pi s) = killed p s"
  by (simp add: killed_def)

lemma upd_pipe_Some: "pipes s a = Some pi \<Longrightarrow> upd_pipe a f s = set_pipe a (f pi) s"
  by (simp add: upd_pipe_def set_pipe_def)

lemma pipe_open_simps [simp]:
  "pi_readopen (pipe_put c pi) = pi_readopen pi" "pi_writeopen (pipe_put c pi) = pi_writeopen pi"
  "pi_readopen (snd (pipe_get pi)) = pi_readopen pi" "pi_writeopen (snd (pipe_get pi)) = pi_writeopen pi"
  by (simp_all add: pipe_put_def pipe_get_def)

lemma pipewrite_loop_ok:
  assumes "pipes s a = Some pi" and "pipe_good pi" and "pi_readopen pi \<noteq> 0"
    and "cur s = Some p" and "killed p s = 0"
    and "ubytes (mem s) (p_pagetable (procs s ! p)) (addr + of_nat i) k = Some bs"
  shows "\<exists>pi'. appended (take (PIPESIZE - length (pipe_items pi)) bs) pi pi' \<and>
    pipewrite_loop a addr i k s =
      (if k \<le> PIPESIZE - length (pipe_items pi)
       then Ret (int (i + k)) (wakeup (ChanPipeRead a) (set_pipe a pi' s))
       else sleep (ChanPipeWrite a) (wakeup (ChanPipeRead a) (set_pipe a pi' s)))"
  using assms
proof (induction k arbitrary: s pi i bs)
  case 0
  then show ?case
    by (intro exI [of _ pi]) (simp add: appended_def set_pipe_same ubytes_def)
next
  case (Suc k)
  obtain b bs' where b: "bs = b # bs'" "umem (mem s) (p_pagetable (procs s ! p)) (addr + of_nat i) = Some b"
    "ubytes (mem s) (p_pagetable (procs s ! p)) (addr + of_nat i + 1) k = Some bs'"
    using ubytes_Suc [OF Suc.prems(6)] by blast
  show ?case
  proof (cases "pipe_full pi")
    case True
    show ?thesis using Suc.prems(1-5) True pipe_queue.full_iff [OF Suc.prems(2)]
      by (intro exI [of _ pi]) (simp add: appended_def set_pipe_same)
  next
    case False
    note put = pipe_queue.put_good [OF Suc.prems(2) False] pipe_queue.put_items [OF Suc.prems(2) False]
    have len: "length (pipe_items pi) < PIPESIZE"
      using pipe_queue.bounded [OF Suc.prems(2)] pipe_queue.full_iff [OF Suc.prems(2)] False by simp
    let ?q = "pipe_put b pi" and ?s = "set_pipe a (pipe_put b pi) s"
    have "ubytes (mem s) (p_pagetable (procs s ! p)) (addr + of_nat (i + 1)) k = Some bs'"
      using b(3) by (simp add: algebra_simps)
    then have "\<exists>pi'. appended (take (PIPESIZE - length (pipe_items ?q)) bs') ?q pi' \<and>
      pipewrite_loop a addr (i + 1) k ?s =
        (if k \<le> PIPESIZE - length (pipe_items ?q)
         then Ret (int (i + 1 + k)) (wakeup (ChanPipeRead a) (set_pipe a pi' ?s))
         else sleep (ChanPipeWrite a) (wakeup (ChanPipeRead a) (set_pipe a pi' ?s)))"
      using put(1) Suc.prems(3-5) by (intro Suc.IH) (simp_all del: of_nat_add)
    then obtain pi' where pi': "appended (take (PIPESIZE - length (pipe_items ?q)) bs') ?q pi'"
      "pipewrite_loop a addr (i + 1) k ?s =
        (if k \<le> PIPESIZE - length (pipe_items ?q)
         then Ret (int (i + 1 + k)) (wakeup (ChanPipeRead a) (set_pipe a pi' s))
         else sleep (ChanPipeWrite a) (wakeup (ChanPipeRead a) (set_pipe a pi' s)))"
      by (elim exE conjE) simp
    have "take (PIPESIZE - length (pipe_items pi)) bs =
        b # take (PIPESIZE - length (pipe_items ?q)) bs'"
      using len put(2) by (simp add: b(1) take_Cons')
    then have "appended (take (PIPESIZE - length (pipe_items pi)) bs) pi pi'"
      using pi'(1) put(2) by (simp add: appended_def)
    moreover have "pipewrite_loop a addr i (Suc k) s = pipewrite_loop a addr (i + 1) k ?s"
      using Suc.prems(1,3-5) False copyin_byte_Some [OF b(2)] by (simp add: upd_pipe_Some)
    ultimately show ?thesis using pi'(2) put(2) len by (intro exI [of _ pi']) auto
  qed
qed

text \<open>C20: \<^verbatim>\<open>pipewrite\<close> to a pipe with a reader appends the caller's bytes in order. If they fit,
  it returns their number; if not, it fills the pipe, wakes the readers and sleeps on the
  write channel. Nothing else of the kernel state changes.\<close>

theorem pipewrite_correct:
  assumes "pipes s a = Some pi" and "pipe_good pi" and "pi_readopen pi \<noteq> 0"
    and "cur s = Some p" and "killed p s = 0" and "0 \<le> n"
    and "ubytes (mem s) (p_pagetable (procs s ! p)) addr (nat n) = Some bs"
  shows "\<exists>pi'. appended (take (PIPESIZE - length (pipe_items pi)) bs) pi pi' \<and>
    pipewrite a addr n s =
      (if length (pipe_items pi) + nat n \<le> PIPESIZE
       then Ret n (wakeup (ChanPipeRead a) (set_pipe a pi' s))
       else sleep (ChanPipeWrite a) (wakeup (ChanPipeRead a) (set_pipe a pi' s)))"
proof -
  have "length (pipe_items pi) \<le> PIPESIZE" by (rule pipe_queue.bounded [OF assms(2)])
  then have "nat n \<le> PIPESIZE - length (pipe_items pi) \<longleftrightarrow> length (pipe_items pi) + nat n \<le> PIPESIZE"
    by arith
  moreover have "ubytes (mem s) (p_pagetable (procs s ! p)) (addr + of_nat 0) (nat n) = Some bs"
    using assms(7) by simp
  ultimately show ?thesis
    using pipewrite_loop_ok [OF assms(1-5), of addr 0 "nat n" bs] assms(6)
    by (simp add: pipewrite_def int_nat_eq split del: if_split cong: if_cong)
qed

section \<open>Reading\<close>

lemma set_pipe_mem [simp]:
  "pipes (s\<lparr>mem := m\<rparr>) = pipes s" "(set_pipe a pi s)\<lparr>mem := m\<rparr> = set_pipe a pi (s\<lparr>mem := m\<rparr>)"
  by (simp_all add: set_pipe_def)

lemma piperead_loop_ok:
  assumes "pipes s a = Some pi" and "pipe_good pi" and "cur s = Some p"
    and "pt = p_pagetable (procs s ! p)" and "space_ok (mem s) pt"
    and "uwritable (mem s) pt (addr + of_nat i) (min k (length (pipe_items pi)))"
    and "i + k < 2 ^ 64"
  shows "\<exists>pi' m'. pipe_good pi' \<and> pipe_items pi' = drop k (pipe_items pi) \<and>
    pi_readopen pi' = pi_readopen pi \<and> pi_writeopen pi' = pi_writeopen pi \<and>
    uwrote pt (addr + of_nat i) (take k (pipe_items pi)) (mem s) m' \<and>
    piperead_loop a addr i k s = Ret (int (i + min k (length (pipe_items pi))))
      (wakeup (ChanPipeWrite a) (set_pipe a pi' (s\<lparr>mem := m'\<rparr>)))"
  using assms
proof (induction k arbitrary: s pi i)
  case 0
  have "set_pipe a pi (s\<lparr>mem := mem s\<rparr>) = s" using 0(1) by (simp add: set_pipe_same)
  then show ?case using 0(2,5) uwrote_refl
    by (intro exI [of _ pi] exI [of _ "mem s"]) simp
next
  case (Suc k)
  show ?case
  proof (cases "pipe_items pi")
    case Nil
    then have e: "pipe_empty pi" using pipe_queue.empty_iff [OF Suc.prems(2)] by simp
    have "set_pipe a pi (s\<lparr>mem := mem s\<rparr>) = s" using Suc.prems(1) by (simp add: set_pipe_same)
    then show ?thesis using Suc.prems(1,2,3,5) Nil e uwrote_refl
      by (intro exI [of _ pi] exI [of _ "mem s"]) simp
  next
    case (Cons c cs)
    then have ne: "\<not> pipe_empty pi" using pipe_queue.empty_iff [OF Suc.prems(2)] by simp
    let ?q = "snd (pipe_get pi)"
    have g: "pipe_good ?q" "fst (pipe_get pi) = c" "pipe_items ?q = cs"
      using pipe_queue.get_good [OF Suc.prems(2) ne] pipe_queue.get_items [OF Suc.prems(2) ne] Cons by auto
    have w: "writable (mem s) pt (PGROUNDDOWN (addr + of_nat i))"
      "uwritable (mem s) pt (addr + of_nat i + 1) (min k (length cs))"
      using uwritable_first uwritable_rest Suc.prems(6) Cons by auto
    let ?s = "set_pipe a ?q s"
    obtain m1 where m1: "copyout pt (addr + of_nat i) [c] ?s = Ret 0 (?s\<lparr>mem := m1\<rparr>)"
        "uwrote pt (addr + of_nat i) [c] (mem s) m1"
      using copyout_byte [of ?s pt "addr + of_nat i" c] Suc.prems(5) w(1) by auto
    have "\<exists>pi' m'. pipe_good pi' \<and> pipe_items pi' = drop k (pipe_items ?q) \<and>
        pi_readopen pi' = pi_readopen ?q \<and> pi_writeopen pi' = pi_writeopen ?q \<and>
        uwrote pt (addr + of_nat (i + 1)) (take k (pipe_items ?q)) (mem (?s\<lparr>mem := m1\<rparr>)) m' \<and>
        piperead_loop a addr (i + 1) k (?s\<lparr>mem := m1\<rparr>) = Ret (int (i + 1 + min k (length (pipe_items ?q))))
          (wakeup (ChanPipeWrite a) (set_pipe a pi' (?s\<lparr>mem := m1\<rparr>\<lparr>mem := m'\<rparr>)))"
    proof (rule Suc.IH)
      show "uwritable (mem (?s\<lparr>mem := m1\<rparr>)) pt (addr + of_nat (i + 1)) (min k (length (pipe_items ?q)))"
        using w(2) g(3) uwritable_cong [OF uwrote_writable [OF m1(2)]] by (simp add: algebra_simps)
    qed (use Suc.prems g uwrote_ok [OF m1(2)] in simp_all)
    then obtain pi' m' where h: "pipe_good pi'" "pipe_items pi' = drop k cs"
      "pi_readopen pi' = pi_readopen pi" "pi_writeopen pi' = pi_writeopen pi"
      "uwrote pt (addr + of_nat (i + 1)) (take k cs) m1 m'"
      "piperead_loop a addr (i + 1) k (?s\<lparr>mem := m1\<rparr>) = Ret (int (i + 1 + min k (length cs)))
        (wakeup (ChanPipeWrite a) (set_pipe a pi' (s\<lparr>mem := m'\<rparr>)))"
      by (elim exE conjE) (simp add: g(3))
    have "uwrote pt (addr + of_nat i) ([c] @ take k cs) (mem s) m'"
      using h(5) Suc.prems(7) by (intro uwrote_append [OF m1(2)]) (simp_all add: algebra_simps)
    moreover have "piperead_loop a addr i (Suc k) s = piperead_loop a addr (i + 1) k (?s\<lparr>mem := m1\<rparr>)"
      using Suc.prems(1,3,4) ne m1(1) g(2) by (simp add: upd_pipe_Some)
    ultimately show ?thesis
      using h Cons by (intro exI [of _ pi'] exI [of _ m']) simp
  qed
qed

text \<open>C21: \<^verbatim>\<open>piperead\<close> into a writable user buffer takes the oldest bytes of the pipe, as many as
  there are and are wanted, shows them to the caller in order, leaves the rest, and wakes
  the writers. On an empty pipe it returns 0 once the writers are gone; while one is left it
  sleeps, or returns -1 if the caller was killed.\<close>

theorem piperead_correct:
  assumes "pipes s a = Some pi" and "pipe_good pi" and "cur s = Some p" and "0 \<le> n" and "n < 2 ^ 31"
    and "pt = p_pagetable (procs s ! p)" and "space_ok (mem s) pt"
    and "uwritable (mem s) pt addr (min (nat n) (length (pipe_items pi)))"
  shows "if pipe_items pi = [] \<and> pi_writeopen pi \<noteq> 0
    then piperead a addr n s = (if killed p s \<noteq> 0 then Ret (- 1) s else sleep (ChanPipeRead a) s)
    else \<exists>pi' m'. pipe_good pi' \<and> pipe_items pi' = drop (nat n) (pipe_items pi) \<and>
      pi_readopen pi' = pi_readopen pi \<and> pi_writeopen pi' = pi_writeopen pi \<and>
      uwrote pt addr (take (nat n) (pipe_items pi)) (mem s) m' \<and>
      piperead a addr n s = Ret (min n (int (length (pipe_items pi))))
        (wakeup (ChanPipeWrite a) (set_pipe a pi' (s\<lparr>mem := m'\<rparr>)))"
proof (cases "pipe_items pi = [] \<and> pi_writeopen pi \<noteq> 0")
  case True
  then show ?thesis
    using assms(1,3) pipe_queue.empty_iff [OF assms(2)] by (simp add: piperead_def)
next
  case False
  then have "piperead a addr n s = piperead_loop a addr 0 (nat n) s"
    using assms(1,3) pipe_queue.empty_iff [OF assms(2)] by (auto simp: piperead_def)
  moreover have "int (0 + min (nat n) (length (pipe_items pi))) = min n (int (length (pipe_items pi)))"
    using assms(4) by simp
  moreover have "0 + nat n < 2 ^ 64" using assms(5) by simp
  ultimately show ?thesis unfolding if_not_P [OF False]
    using piperead_loop_ok [OF assms(1-3,6,7), of addr 0 "nat n"] assms(8) by simp
qed

section \<open>What goes in comes out\<close>

lemma sleep_free_wakeup [simp]:
  "pipes (wakeup ch s) = pipes s" "mem (wakeup ch s) = mem s"
  by (simp_all add: wakeup_def)

lemma pagetable_wakeup: "q < length (procs s) \<Longrightarrow> p_pagetable (procs (wakeup ch s) ! q) = p_pagetable (procs s ! q)"
  by (simp add: nth_wakeup wake_proc_def)

text \<open>C19: Bytes that one process writes to an empty pipe are the bytes that another process
  reads from it: the call returns all of them, in order, at the reader's buffer, and the
  pipe is empty again.\<close>

theorem pipe_roundtrip:
  assumes "pipes s a = Some pi" and "pipe_good pi" and "pipe_items pi = []" and "pi_readopen pi \<noteq> 0"
    and "cur s = Some p" and "killed p s = 0" and "q < length (procs s)"
    and "ubytes (mem s) (p_pagetable (procs s ! p)) src (length bs) = Some bs"
    and "bs \<noteq> []" and "length bs \<le> PIPESIZE"
    and "pt = p_pagetable (procs s ! q)" and "space_ok (mem s) pt"
    and "uwritable (mem s) pt dst (length bs)"
  shows "okK (bindK (pipewrite a src (int (length bs)) s)
      (\<lambda>r s. bindK (piperead a dst r (s\<lparr>cur := Some q\<rparr>)) (\<lambda>r' s. Ret (r, r') s)))
    (\<lambda>(r, r') s'. r = int (length bs) \<and> r' = int (length bs) \<and>
      uwrote pt dst bs (mem s) (mem s') \<and>
      (\<exists>pi'. pipes s' a = Some pi' \<and> pipe_good pi' \<and> pipe_items pi' = []))"
proof -
  have len: "length (take (PIPESIZE - length (pipe_items pi)) bs) = length bs"
    "take (PIPESIZE - length (pipe_items pi)) bs = bs" using assms(3,10) by simp_all
  obtain pi1 where w: "appended bs pi pi1" "pipewrite a src (int (length bs)) s =
      Ret (int (length bs)) (wakeup (ChanPipeRead a) (set_pipe a pi1 s))"
    using pipewrite_loop_ok [OF assms(1,2,4-6), of src 0 "length bs" bs] assms(3,8,10)
    unfolding len by (auto simp: pipewrite_def)
  define s1 where "s1 = (wakeup (ChanPipeRead a) (set_pipe a pi1 s))\<lparr>cur := Some q\<rparr>"
  have i1: "pipe_good pi1" "pipe_items pi1 = bs" using w(1) assms(3) by (simp_all add: appended_def)
  have s1: "pipes s1 a = Some pi1" "cur s1 = Some q" "mem s1 = mem s" "pt = p_pagetable (procs s1 ! q)"
    using assms(7,11) by (simp_all add: s1_def pagetable_wakeup)
  have "\<not> (pipe_empty pi1 \<and> pi_writeopen pi1 \<noteq> 0)"
    using pipe_queue.empty_iff [OF i1(1)] i1(2) assms(9) by simp
  then have "piperead a dst (int (length bs)) s1 = piperead_loop a dst 0 (length bs) s1"
    using s1(1,2) by (auto simp: piperead_def)
  moreover have "0 + length bs < 2 ^ 64" using assms(10) by (simp add: PIPESIZE_def)
  ultimately show ?thesis
    using piperead_loop_ok [OF s1(1) i1(1) s1(2,4), of dst 0 "length bs"] w(2) s1(3) i1(2) assms(12,13)
    by (auto simp: s1_def [symmetric])
qed

section \<open>Examples\<close>

text \<open>Two processes with one user page, and a pipe whose counters are about to wrap.\<close>

definition demo_pipe :: pipe where
  "demo_pipe = \<lparr>pi_data = replicate PIPESIZE 7, pi_nread = - 1, pi_nwrite = - 1,
     pi_readopen = 1, pi_writeopen = 1\<rparr>"

definition demo_pipes :: "pipe \<Rightarrow> pipe_st" where
  "demo_pipes pi = cons_st.extend demo_read (pipe_st.fields (Map.empty(0x5000 \<mapsto> pi)))"

lemma demo_pipe_good: "pipe_good demo_pipe" "pipe_items demo_pipe = []"
  by (simp_all add: demo_pipe_def pipe_good_def pipe_items_def ring_ok_def PIPESIZE_def)

lemma demo_pipes_simps:
  "pipes (demo_pipes pi) 0x5000 = Some pi" "cur (demo_pipes pi) = Some 0" "killed 0 (demo_pipes pi) = 0"
  "length (procs (demo_pipes pi)) = NPROC" "mem (demo_pipes pi) = demo_space"
  "p_pagetable (procs (demo_pipes pi) ! 0) = 0x1000" "p_pagetable (procs (demo_pipes pi) ! Suc 0) = 0x1000"
  by (simp_all add: demo_pipes_def cons_st.defs pipe_st.defs demo_read_def demo_cons_def demo_uart_def
      demo_fs_def binit_def uart_st.defs fs_st.defs killed_def NPROC_def zero_proc_def)

lemma demo_space_bytes: "ubytes demo_space 0x1000 0 2 = Some [demo_space 0x4000, demo_space 0x4001]"
proof -
  have "PGROUNDDOWN (of_nat i) = 0" if "i < 2" for i
    using page_run [of i 0] that by (simp add: PGROUNDDOWN_def)
  from this [of 0] this [of 1] show ?thesis
    by (simp add: ubytes_def umem_def demo_space_frame upt_rec)
qed

theorem pipewrite_correct_witness:
  "\<exists>pi'. pipe_items pi' = [demo_space 0x4000, demo_space 0x4001] \<and>
     pipewrite 0x5000 0 2 (demo_pipes demo_pipe) =
       Ret 2 (wakeup (ChanPipeRead 0x5000) (set_pipe 0x5000 pi' (demo_pipes demo_pipe)))"
proof -
  have b: "ubytes (mem (demo_pipes demo_pipe)) (p_pagetable (procs (demo_pipes demo_pipe) ! 0)) 0 (nat 2) =
      Some [demo_space 0x4000, demo_space 0x4001]"
    by (simp add: demo_pipes_simps demo_space_bytes)
  have "pi_readopen demo_pipe \<noteq> 0" by (simp add: demo_pipe_def)
  from pipewrite_correct [OF demo_pipes_simps(1) demo_pipe_good(1) this demo_pipes_simps(2,3) _ b]
  show ?thesis by (auto simp: appended_def demo_pipe_good PIPESIZE_def)
qed

theorem piperead_correct_witness:
  "\<exists>m' pi'. piperead 0x5000 0 10 (demo_pipes (pipe_put 65 demo_pipe)) =
     Ret 1 (wakeup (ChanPipeWrite 0x5000) (set_pipe 0x5000 pi'
       ((demo_pipes (pipe_put 65 demo_pipe))\<lparr>mem := m'\<rparr>))) \<and>
     umem m' 0x1000 0 = Some 65 \<and> pipe_items pi' = []"
proof -
  let ?pi = "pipe_put 65 demo_pipe"
  have nf: "\<not> pipe_full demo_pipe" by (simp add: pipe_full_def demo_pipe_def PIPESIZE_def)
  have g: "pipe_good ?pi" "pipe_items ?pi = [65]"
    using pipe_queue.put_good [OF demo_pipe_good(1) nf] pipe_queue.put_items [OF demo_pipe_good(1) nf]
    by (simp_all add: demo_pipe_good)
  have w: "uwritable (mem (demo_pipes ?pi)) 0x1000 0 (min (nat 10) (length (pipe_items ?pi)))"
    by (simp add: demo_pipes_simps demo_space_writable)
  from piperead_correct [OF demo_pipes_simps(1) g(1) demo_pipes_simps(2), of 10 "0x1000" 0] w
  obtain pi' m' where "piperead 0x5000 0 10 (demo_pipes ?pi) = Ret 1 (wakeup (ChanPipeWrite 0x5000)
      (set_pipe 0x5000 pi' ((demo_pipes ?pi)\<lparr>mem := m'\<rparr>)))"
    "pipe_items pi' = []" "uwrote 0x1000 0 [65] demo_space m'"
    by (auto simp: g demo_pipes_simps demo_space_ok)
  moreover from this(3) have "umem m' 0x1000 0 = Some 65" by (simp add: uwrote_def)
  ultimately show ?thesis by blast
qed

theorem pipe_roundtrip_witness:
  "okK (bindK (pipewrite 0x5000 0 2 (demo_pipes demo_pipe))
      (\<lambda>r s. bindK (piperead 0x5000 8 r (s\<lparr>cur := Some 1\<rparr>)) (\<lambda>r' s. Ret (r, r') s)))
    (\<lambda>(r, r') s'. r = 2 \<and> r' = 2 \<and> umem (mem s') 0x1000 9 = Some (demo_space 0x4001))"
proof -
  have w: "uwritable demo_space 0x1000 8 2"
    using demo_space_writable [of 10] unfolding uwritable_def by (auto dest: spec [of _ "8 + _"])
  let ?bs = "[demo_space 0x4000, demo_space 0x4001]"
  have r: "okK (bindK (pipewrite 0x5000 0 (int (length ?bs)) (demo_pipes demo_pipe))
      (\<lambda>r s. bindK (piperead 0x5000 8 r (s\<lparr>cur := Some (Suc 0)\<rparr>)) (\<lambda>r' s. Ret (r, r') s)))
    (\<lambda>(r, r') s'. r = int (length ?bs) \<and> r' = int (length ?bs) \<and>
      uwrote 0x1000 8 ?bs (mem (demo_pipes demo_pipe)) (mem s') \<and>
      (\<exists>pi'. pipes s' 0x5000 = Some pi' \<and> pipe_good pi' \<and> pipe_items pi' = []))"
  proof (rule pipe_roundtrip [OF demo_pipes_simps(1) demo_pipe_good])
    show "ubytes (mem (demo_pipes demo_pipe)) (p_pagetable (procs (demo_pipes demo_pipe) ! 0)) 0
        (length ?bs) = Some ?bs"
      using demo_space_bytes by (simp add: demo_pipes_simps numeral_2_eq_2)
    show "uwritable (mem (demo_pipes demo_pipe)) 0x1000 8 (length ?bs)"
      using w by (simp add: demo_pipes_simps numeral_2_eq_2)
  qed (simp_all add: demo_pipes_simps demo_space_ok PIPESIZE_def NPROC_def demo_pipe_def)
  have len: "int (length ?bs) = 2" by simp
  have "umem m 0x1000 9 = Some (demo_space 0x4001)" if "uwrote 0x1000 8 ?bs m' m" for m m'
    using that by (simp add: uwrote_def)
  with r show ?thesis unfolding len One_nat_def by (auto elim!: okK_weaken)
qed

end
