(* ===== verification/Files.thy ===== *)
theory Files
  imports Pipe
begin

text \<open>
  The open file table of \<^verbatim>\<open>src/kernel/file.c\<close>, the device switch, and \<^verbatim>\<open>pipealloc\<close> of
  \<^verbatim>\<open>pipe.c\<close>: reference counting of open files, status, and the dispatch of reads and writes
  to pipes, devices and inodes.
\<close>

section \<open>State\<close>

datatype fdtype = FD_NONE | FD_PIPE | FD_INODE | FD_DEVICE

record kfile =
  f_type :: fdtype
  f_ref :: int
  f_readable :: int
  f_writable :: int
  f_pipe :: uint64
  f_ip :: "nat option"
  f_off :: uint
  f_major :: ushort

text \<open>
  The device functions that exist: those of the console. An entry of \<^verbatim>\<open>devsw\<close> is a pair of
  function pointers, either of which may be null.
\<close>

datatype devfun = ConsoleFun

record file_st = pipe_st +
  ftable :: "kfile list"                                  \<comment> \<open>\<open>ftable.file[NFILE]\<close>\<close>
  devsw :: "(devfun option \<times> devfun option) list"        \<comment> \<open>\<open>devsw[NDEV]\<close>\<close>

definition CONSOLE :: nat where "CONSOLE = 1"

definition zero_file :: kfile where
  "zero_file = \<lparr>f_type = FD_NONE, f_ref = 0, f_readable = 0, f_writable = 0, f_pipe = 0,
     f_ip = None, f_off = 0, f_major = 0\<rparr>"

definition upd_file :: "nat \<Rightarrow> (kfile \<Rightarrow> kfile) \<Rightarrow> 'a file_st_scheme \<Rightarrow> 'a file_st_scheme" where
  "upd_file f g s = s\<lparr>ftable := (ftable s)[f := g (ftable s ! f)]\<rparr>"

definition consoleinit :: "'a file_st_scheme \<Rightarrow> 'a file_st_scheme" where
  "consoleinit s = (uartinit s)\<lparr>devsw := (devsw s)[CONSOLE := (Some ConsoleFun, Some ConsoleFun)]\<rparr>"

primrec dev_read ::
  "devfun \<Rightarrow> bool \<Rightarrow> uint64 \<Rightarrow> int \<Rightarrow> 'a cons_st_scheme \<Rightarrow> (int, 'a cons_st_scheme) outcome" where
  "dev_read ConsoleFun user_dst dst n s = consoleread user_dst dst n s"

primrec dev_write ::
  "devfun \<Rightarrow> bool \<Rightarrow> uint64 \<Rightarrow> int \<Rightarrow> 'a cons_st_scheme \<Rightarrow> (int, 'a cons_st_scheme) outcome" where
  "dev_write ConsoleFun user_src src n s = consolewrite user_src src n s"

section \<open>Reference counting\<close>

definition filealloc :: "'a file_st_scheme \<Rightarrow> nat option \<times> 'a file_st_scheme" where
  "filealloc s = (case scan (\<lambda>f. f_ref f = 0) (ftable s) of
      None \<Rightarrow> (None, s)
    | Some f \<Rightarrow> (Some f, upd_file f (\<lambda>x. x\<lparr>f_ref := 1\<rparr>) s))"

definition filedup :: "nat \<Rightarrow> 'a file_st_scheme \<Rightarrow> (nat, 'a file_st_scheme) outcome" where
  "filedup f s =
     (if f_ref (ftable s ! f) < 1 then Panic ''filedup''
      else Ret f (upd_file f (\<lambda>x. x\<lparr>f_ref := f_ref x + 1\<rparr>) s))"

text \<open>What closing the last reference releases, outside the lock of the table.\<close>

definition release_file :: "kfile \<Rightarrow> 'a file_st_scheme \<Rightarrow> (unit, 'a file_st_scheme) outcome" where
  "release_file ff s = (case f_type ff of
      FD_NONE \<Rightarrow> Ret () s
    | FD_PIPE \<Rightarrow> pipeclose (f_pipe ff) (f_writable ff \<noteq> 0) s
    | _ \<Rightarrow>
        bindK (begin_op s) (\<lambda>_ s.
        case f_ip ff of None \<Rightarrow> Panic ''kerneltrap''
        | Some ip \<Rightarrow> bindK (iput ip s) (\<lambda>_ s. end_op s)))"

definition fileclose :: "nat \<Rightarrow> 'a file_st_scheme \<Rightarrow> (unit, 'a file_st_scheme) outcome" where
  "fileclose f s =
     (if f_ref (ftable s ! f) < 1 then Panic ''fileclose''
      else
        let s = upd_file f (\<lambda>x. x\<lparr>f_ref := f_ref x - 1\<rparr>) s in
        if 0 < f_ref (ftable s ! f) then Ret () s
        else
          let ff = ftable s ! f;
              s = upd_file f (\<lambda>x. x\<lparr>f_ref := 0, f_type := FD_NONE\<rparr>) s
          in release_file ff s)"

definition pipealloc :: "'a file_st_scheme \<Rightarrow> (nat option \<times> nat option \<times> int, 'a file_st_scheme) outcome" where
  "pipealloc s =
     (let bad = (\<lambda>f0 f1 s.
          bindK (case f0 of None \<Rightarrow> Ret () s | Some f \<Rightarrow> fileclose f s) (\<lambda>_ s.
          bindK (case f1 of None \<Rightarrow> Ret () s | Some f \<Rightarrow> fileclose f s) (\<lambda>_ s.
          Ret (f0, f1, - 1) s))) in
      case filealloc s of
        (None, s) \<Rightarrow> bad None None s
      | (Some f0, s) \<Rightarrow> (case filealloc s of
          (None, s) \<Rightarrow> bad (Some f0) None s
        | (Some f1, s) \<Rightarrow> (case kalloc s of (a, s) \<Rightarrow>
            if a = 0 then bad (Some f0) (Some f1) s
            else
              let s = s\<lparr>pipes := (pipes s)(a \<mapsto> \<lparr>pi_data = replicate PIPESIZE 5, pi_nread = 0,
                    pi_nwrite = 0, pi_readopen = 1, pi_writeopen = 1\<rparr>)\<rparr>;
                  s = upd_file f0 (\<lambda>x. x\<lparr>f_type := FD_PIPE, f_readable := 1, f_writable := 0, f_pipe := a\<rparr>) s;
                  s = upd_file f1 (\<lambda>x. x\<lparr>f_type := FD_PIPE, f_readable := 0, f_writable := 1, f_pipe := a\<rparr>) s
              in Ret (Some f0, Some f1, 0) s)))"

section \<open>Status, reading and writing\<close>

text \<open>
  The 24 bytes of \<^verbatim>\<open>struct stat\<close>; the four bytes before the 64-bit size are padding, which
  the code leaves as it finds it on its stack.
\<close>

definition stat_bytes :: "uchar list \<Rightarrow> stat \<Rightarrow> uchar list" where
  "stat_bytes pad st =
     put32 0 (word_of_int (st_dev st)) (put32 4 (st_ino st)
       (put16 8 (st_type st) (put16 10 (st_nlink st) (replicate 12 0)))) @ take 4 pad @
     map (\<lambda>i. ucast (drop_bit (8 * i) (st_size st))) [0..<8]"

definition filestat ::
  "uchar list \<Rightarrow> nat \<Rightarrow> uint64 \<Rightarrow> 'a file_st_scheme \<Rightarrow> (int, 'a file_st_scheme) outcome" where
  "filestat pad f addr s = (case cur s of
      None \<Rightarrow> Panic ''kerneltrap''
    | Some p \<Rightarrow>
        if f_type (ftable s ! f) = FD_INODE \<or> f_type (ftable s ! f) = FD_DEVICE then
          let ip = f_ip (ftable s ! f) in
          bindK (ilock ip s) (\<lambda>_ s.
          let st = stati (the ip) s in
          bindK (iunlock ip s) (\<lambda>_ s.
          bindK (copyout (p_pagetable (procs s ! p)) addr (stat_bytes pad st) s) (\<lambda>r s.
          Ret (if r < 0 then - 1 else 0) s)))
        else Ret (- 1) s)"

definition fileread :: "nat \<Rightarrow> uint64 \<Rightarrow> int \<Rightarrow> 'a file_st_scheme \<Rightarrow> (int, 'a file_st_scheme) outcome" where
  "fileread f addr n s =
     (if f_readable (ftable s ! f) = 0 then Ret (- 1) s
      else case f_type (ftable s ! f) of
        FD_PIPE \<Rightarrow> piperead (f_pipe (ftable s ! f)) addr n s
      | FD_DEVICE \<Rightarrow>
          (let mj = sint (f_major (ftable s ! f)) in
           if mj < 0 \<or> int NDEV \<le> mj then Ret (- 1) s
           else case fst (devsw s ! nat mj) of
             None \<Rightarrow> Ret (- 1) s
           | Some d \<Rightarrow> dev_read d True addr n s)
      | FD_INODE \<Rightarrow>
          (let ip = f_ip (ftable s ! f) in
           bindK (ilock ip s) (\<lambda>_ s.
           bindK (readi (the ip) (ToUser addr) (f_off (ftable s ! f)) (word_of_int n) s) (\<lambda>r s.
           let r = fst r;
               s = (if 0 < sint r then upd_file f (\<lambda>x. x\<lparr>f_off := f_off x + r\<rparr>) s else s) in
           bindK (iunlock ip s) (\<lambda>_ s. Ret (sint r) s))))
      | FD_NONE \<Rightarrow> Panic ''fileread'')"

definition write_max :: nat where
  "write_max = ((MAXOPBLOCKS - 1 - 1 - 2) div 2) * BSIZE"

text \<open>One transaction of \<^verbatim>\<open>filewrite\<close>: \<open>n1\<close> bytes from user address \<open>a\<close>; the result of \<^verbatim>\<open>writei\<close>.\<close>

definition write_chunk :: "nat \<Rightarrow> uint64 \<Rightarrow> nat \<Rightarrow> 'a file_st_scheme \<Rightarrow> (int, 'a file_st_scheme) outcome" where
  "write_chunk f a n1 s =
     (let ip = f_ip (ftable s ! f) in
      bindK (begin_op s) (\<lambda>_ s.
      bindK (ilock ip s) (\<lambda>_ s.
      bindK (writei (the ip) (FromUser a) (f_off (ftable s ! f)) (of_nat n1) s) (\<lambda>r s.
      let s = (if 0 < sint r then upd_file f (\<lambda>x. x\<lparr>f_off := f_off x + r\<rparr>) s else s) in
      bindK (iunlock ip s) (\<lambda>_ s.
      bindK (end_op s) (\<lambda>_ s. Ret (sint r) s))))))"

lemma write_max_pos: "0 < write_max"
  by (simp add: write_max_def MAXOPBLOCKS_def BSIZE_def)

function filewrite_loop ::
  "nat \<Rightarrow> uint64 \<Rightarrow> nat \<Rightarrow> nat \<Rightarrow> 'a file_st_scheme \<Rightarrow> (int, 'a file_st_scheme) outcome" where
  "filewrite_loop f addr n i s =
     (if i < n then
        let n1 = min (n - i) write_max in
        bindK (write_chunk f (addr + of_nat i) n1 s) (\<lambda>r s.
        if r \<noteq> int n1 then Ret (- 1) s
        else filewrite_loop f addr n (i + n1) s)
      else Ret (int n) s)"
  by pat_completeness auto
termination
  by (relation "measure (\<lambda>(f, addr, n, i, s). n - i)") (use write_max_pos in \<open>auto simp: min_def\<close>)

declare filewrite_loop.simps [simp del]

definition filewrite :: "nat \<Rightarrow> uint64 \<Rightarrow> int \<Rightarrow> 'a file_st_scheme \<Rightarrow> (int, 'a file_st_scheme) outcome" where
  "filewrite f addr n s =
     (if f_writable (ftable s ! f) = 0 then Ret (- 1) s
      else case f_type (ftable s ! f) of
        FD_PIPE \<Rightarrow> pipewrite (f_pipe (ftable s ! f)) addr n s
      | FD_DEVICE \<Rightarrow>
          (let mj = sint (f_major (ftable s ! f)) in
           if mj < 0 \<or> int NDEV \<le> mj then Ret (- 1) s
           else case snd (devsw s ! nat mj) of
             None \<Rightarrow> Ret (- 1) s
           | Some d \<Rightarrow> dev_write d True addr n s)
      | FD_INODE \<Rightarrow> if n < 0 then Ret (- 1) s else filewrite_loop f addr (nat n) 0 s
      | FD_NONE \<Rightarrow> Panic ''filewrite'')"

end
