(* ===== verification/Procs.thy ===== *)
theory Procs
  imports Files
begin

text \<open>
  The life of processes and threads, the rest of \<^verbatim>\<open>src/kernel/proc.c\<close>: allocation and
  release of table slots with their trap frames and page tables, the first process, growing
  memory, fork, exit, wait, the scheduler's pass over the table, threads and pending
  signals. The addresses the linker gives to \<^verbatim>\<open>trampoline\<close> and \<^verbatim>\<open>forkret\<close> are parameters.
\<close>

section \<open>Slots\<close>

record linker_symbols =
  sym_trampoline :: uint64
  sym_forkret :: uint64
  sym_usertrap :: uint64
  sym_uservec :: uint64     \<comment> \<open>offset of \<open>uservec\<close> from \<open>trampoline\<close>\<close>

text \<open>Fields of the trap frame, at their offsets in the page.\<close>

definition tf_kernel_satp :: uint64 where "tf_kernel_satp = 0"
definition tf_kernel_sp :: uint64 where "tf_kernel_sp = 8"
definition tf_kernel_trap :: uint64 where "tf_kernel_trap = 16"
definition tf_epc :: uint64 where "tf_epc = 24"
definition tf_kernel_hartid :: uint64 where "tf_kernel_hartid = 32"
definition tf_sp :: uint64 where "tf_sp = 48"
definition tf_a :: "nat \<Rightarrow> uint64" where "tf_a n = 112 + 8 * of_nat n"
definition sizeof_trapframe :: nat where "sizeof_trapframe = 288"

definition tf_get :: "nat \<Rightarrow> uint64 \<Rightarrow> 'a mem_st_scheme \<Rightarrow> uint64" where
  "tf_get i off s = load64 (mem s) (p_trapframe (procs s ! i) + off)"

definition tf_set :: "nat \<Rightarrow> uint64 \<Rightarrow> uint64 \<Rightarrow> 'a mem_st_scheme \<Rightarrow> 'a mem_st_scheme" where
  "tf_set i off v s = s\<lparr>mem := store64 (p_trapframe (procs s ! i) + off) v (mem s)\<rparr>"

definition proc_pagetable ::
  "linker_symbols \<Rightarrow> nat \<Rightarrow> 'a mem_st_scheme \<Rightarrow> (uint64, 'a mem_st_scheme) outcome" where
  "proc_pagetable sy i s =
     (let (pagetable, s) = uvmcreate s in
      if pagetable = 0 then Ret 0 s
      else
        bindK (mappages pagetable TRAMPOLINE PGSIZE (sym_trampoline sy) (PTE_R OR PTE_X) s) (\<lambda>r s.
        if r < 0 then bindK (uvmfree pagetable 0 s) (\<lambda>_ s. Ret 0 s)
        else
          bindK (mappages pagetable TRAPFRAME PGSIZE (p_trapframe (procs s ! i)) (PTE_R OR PTE_W) s) (\<lambda>r s.
          if r < 0 then
            bindK (uvmunmap pagetable TRAMPOLINE 1 False s) (\<lambda>_ s.
            bindK (uvmfree pagetable 0 s) (\<lambda>_ s. Ret 0 s))
          else Ret pagetable s)))"

definition proc_freepagetable ::
  "uint64 \<Rightarrow> uint64 \<Rightarrow> 'a mem_st_scheme \<Rightarrow> (unit, 'a mem_st_scheme) outcome" where
  "proc_freepagetable pagetable sz s =
     bindK (uvmunmap pagetable TRAMPOLINE 1 False s) (\<lambda>_ s.
     bindK (uvmunmap pagetable TRAPFRAME 1 False s) (\<lambda>_ s.
     uvmfree pagetable sz s))"

definition freeproc :: "nat \<Rightarrow> 'a mem_st_scheme \<Rightarrow> (unit, 'a mem_st_scheme) outcome" where
  "freeproc i s =
     bindK (if p_trapframe (procs s ! i) \<noteq> 0 then kfree (p_trapframe (procs s ! i)) s else Ret () s) (\<lambda>_ s.
     let s = upd_proc i (\<lambda>p. p\<lparr>p_trapframe := 0\<rparr>) s in
     bindK (if p_pagetable (procs s ! i) \<noteq> 0
            then proc_freepagetable (p_pagetable (procs s ! i)) (p_sz (procs s ! i)) s
            else Ret () s) (\<lambda>_ s.
     let s = upd_proc i (\<lambda>p. p\<lparr>p_pagetable := 0, p_sz := 0, p_pid := 0, p_parent := None,
           p_name := (p_name p)[0 := 0], p_chan := None, p_killed := 0, p_xstate := 0,
           p_state := UNUSED\<rparr>) s in
     bindK (if p_is_thread (procs s ! i) \<noteq> 0 \<and> p_stack (procs s ! i) \<noteq> 0
            then bindK (kfree (p_stack (procs s ! i)) s) (\<lambda>_ s.
                   Ret () (upd_proc i (\<lambda>p. p\<lparr>p_stack := 0\<rparr>) s))
            else Ret () s) (\<lambda>_ s.
     Ret () (upd_proc i (\<lambda>p. p\<lparr>p_is_thread := 0, p_thread_parent := None\<rparr>) s))))"

text \<open>The context a new process or thread starts from.\<close>

definition fresh_context :: "linker_symbols \<Rightarrow> proc \<Rightarrow> proc" where
  "fresh_context sy p =
     p\<lparr>p_context := \<lparr>ctx_ra = sym_forkret sy, ctx_sp = p_kstack p + PGSIZE, ctx_s = replicate 12 0\<rparr>\<rparr>"

definition allocproc :: "linker_symbols \<Rightarrow> 'a mem_st_scheme \<Rightarrow> (nat option, 'a mem_st_scheme) outcome" where
  "allocproc sy s = (case scan (\<lambda>p. p_state p = UNUSED) (procs s) of
      None \<Rightarrow> Ret None s
    | Some i \<Rightarrow>
        let (pid, s) = allocpid s;
            s = upd_proc i (\<lambda>p. p\<lparr>p_pid := pid, p_state := USED\<rparr>) s;
            (tf, s) = kalloc s;
            s = upd_proc i (\<lambda>p. p\<lparr>p_trapframe := tf\<rparr>) s in
        if tf = 0 then bindK (freeproc i s) (\<lambda>_ s. Ret None s)
        else
          bindK (proc_pagetable sy i s) (\<lambda>pt s.
          let s = upd_proc i (\<lambda>p. p\<lparr>p_pagetable := pt\<rparr>) s in
          if pt = 0 then bindK (freeproc i s) (\<lambda>_ s. Ret None s)
          else Ret (Some i) (upd_proc i (fresh_context sy) s)))"

section \<open>The first process\<close>

definition initcode :: "uchar list" where
  "initcode = [
    0x17, 0x05, 0x00, 0x00, 0x13, 0x05, 0x45, 0x02,
    0x97, 0x05, 0x00, 0x00, 0x93, 0x85, 0x35, 0x02,
    0x93, 0x08, 0x70, 0x00, 0x73, 0x00, 0x00, 0x00,
    0x93, 0x08, 0x20, 0x00, 0x73, 0x00, 0x00, 0x00,
    0xef, 0xf0, 0x9f, 0xff, 0x2f, 0x69, 0x6e, 0x69,
    0x74, 0x00, 0x00, 0x24, 0x00, 0x00, 0x00, 0x00,
    0x00, 0x00, 0x00, 0x00]"

definition set_name :: "nat \<Rightarrow> uchar list \<Rightarrow> 'a sched_st_scheme \<Rightarrow> 'a sched_st_scheme" where
  "set_name i src s = upd_proc i (\<lambda>p. p\<lparr>p_name := put_bytes 0 (safestrcpy (chars src) 16) (p_name p)\<rparr>) s"

definition userinit :: "linker_symbols \<Rightarrow> 'a fs_st_scheme \<Rightarrow> (unit, 'a fs_st_scheme) outcome" where
  "userinit sy s =
     bindK (allocproc sy s) (\<lambda>r s. case r of
       None \<Rightarrow> Panic ''kerneltrap''
     | Some i \<Rightarrow>
         let s = s\<lparr>initproc := Some i\<rparr> in
         bindK (uvmfirst (p_pagetable (procs s ! i)) initcode s) (\<lambda>_ s.
         let s = upd_proc i (\<lambda>p. p\<lparr>p_sz := PGSIZE\<rparr>) s;
             s = tf_set i tf_epc 0 s;
             s = tf_set i tf_sp PGSIZE s;
             s = set_name i (text_of ''initcode'') s in
         bindK (namei (text_of ''/'') s) (\<lambda>d s.
         Ret () (upd_proc i (\<lambda>p. p\<lparr>p_cwd := d, p_state := RUNNABLE\<rparr>) s))))"

definition growproc :: "int \<Rightarrow> 'a mem_st_scheme \<Rightarrow> (int, 'a mem_st_scheme) outcome" where
  "growproc n s = (case cur s of
      None \<Rightarrow> Panic ''kerneltrap''
    | Some i \<Rightarrow>
        let pt = p_pagetable (procs s ! i); sz = p_sz (procs s ! i) in
        if 0 < n then
          bindK (uvmalloc pt sz (sz + word_of_int n) PTE_W s) (\<lambda>sz s.
          if sz = 0 then Ret (- 1) s else Ret 0 (upd_proc i (\<lambda>p. p\<lparr>p_sz := sz\<rparr>) s))
        else if n < 0 then
          bindK (uvmdealloc pt sz (sz + word_of_int n) s) (\<lambda>sz s.
          Ret 0 (upd_proc i (\<lambda>p. p\<lparr>p_sz := sz\<rparr>) s))
        else Ret 0 (upd_proc i (\<lambda>p. p\<lparr>p_sz := sz\<rparr>) s))"

section \<open>Fork, exit and wait\<close>

text \<open>The structure assignment \<^verbatim>\<open>*(np->trapframe) = *(p->trapframe)\<close>.\<close>

definition copy_trapframe :: "nat \<Rightarrow> nat \<Rightarrow> 'a mem_st_scheme \<Rightarrow> 'a mem_st_scheme" where
  "copy_trapframe np p s =
     s\<lparr>mem := put_mem (p_trapframe (procs s ! np))
       (get_mem (mem s) (p_trapframe (procs s ! p)) sizeof_trapframe) (mem s)\<rparr>"

definition dup_files :: "nat \<Rightarrow> nat \<Rightarrow> 'a file_st_scheme \<Rightarrow> (unit, 'a file_st_scheme) outcome" where
  "dup_files p np s = forK [0..<NOFILE] (\<lambda>i s. case p_ofile (procs s ! p) ! i of
      None \<Rightarrow> Ret () s
    | Some f \<Rightarrow> bindK (filedup f s) (\<lambda>g s.
        Ret () (upd_proc np (\<lambda>q. q\<lparr>p_ofile := (p_ofile q)[i := Some g]\<rparr>) s))) s"

definition fork :: "linker_symbols \<Rightarrow> 'a file_st_scheme \<Rightarrow> (int, 'a file_st_scheme) outcome" where
  "fork sy s = (case cur s of
      None \<Rightarrow> Panic ''kerneltrap''
    | Some p \<Rightarrow>
        bindK (allocproc sy s) (\<lambda>r s. case r of
          None \<Rightarrow> Ret (- 1) s
        | Some np \<Rightarrow>
            bindK (uvmcopy (p_pagetable (procs s ! p)) (p_pagetable (procs s ! np)) (p_sz (procs s ! p)) s) (\<lambda>r s.
            if r < 0 then bindK (freeproc np s) (\<lambda>_ s. Ret (- 1) s)
            else
              let s = upd_proc np (\<lambda>q. q\<lparr>p_sz := p_sz (procs s ! p)\<rparr>) s;
                  s = copy_trapframe np p s;
                  s = tf_set np (tf_a 0) 0 s in
              bindK (dup_files p np s) (\<lambda>_ s.
              case p_cwd (procs s ! p) of
                None \<Rightarrow> Panic ''kerneltrap''
              | Some d \<Rightarrow>
                  let (ip, s) = idup d s;
                      s = upd_proc np (\<lambda>q. q\<lparr>p_cwd := Some ip\<rparr>) s;
                      s = set_name np (p_name (procs s ! p)) s;
                      pid = p_pid (procs s ! np);
                      s = upd_proc np (\<lambda>q. q\<lparr>p_parent := Some p\<rparr>) s
                  in Ret pid (upd_proc np (\<lambda>q. q\<lparr>p_state := RUNNABLE\<rparr>) s)))))"

definition close_files :: "nat \<Rightarrow> 'a file_st_scheme \<Rightarrow> (unit, 'a file_st_scheme) outcome" where
  "close_files p s = forK [0..<NOFILE] (\<lambda>fd s. case p_ofile (procs s ! p) ! fd of
      None \<Rightarrow> Ret () s
    | Some f \<Rightarrow> bindK (fileclose f s) (\<lambda>_ s.
        Ret () (upd_proc p (\<lambda>q. q\<lparr>p_ofile := (p_ofile q)[fd := None]\<rparr>) s))) s"

text \<open>
  \<^verbatim>\<open>exit\<close> up to the switch to the scheduler, from which it never comes back: what follows a
  call of it in the code is not executed.
\<close>

definition exit :: "int \<Rightarrow> 'a file_st_scheme \<Rightarrow> (unit, 'a file_st_scheme) outcome" where
  "exit status s = (case cur s of
      None \<Rightarrow> Panic ''kerneltrap''
    | Some p \<Rightarrow>
        if initproc s = Some p then Panic ''init exiting''
        else
          bindK (close_files p s) (\<lambda>_ s.
          bindK (begin_op s) (\<lambda>_ s.
          bindK (case p_cwd (procs s ! p) of None \<Rightarrow> Panic ''kerneltrap'' | Some d \<Rightarrow> iput d s) (\<lambda>_ s.
          bindK (end_op s) (\<lambda>_ s.
          let s = upd_proc p (\<lambda>q. q\<lparr>p_cwd := None\<rparr>) s in
          bindK (reparent p s) (\<lambda>_ s.
          let s = (case p_parent (procs s ! p) of None \<Rightarrow> s | Some q \<Rightarrow> wakeup (ChanProc q) s) in
          Ret () (upd_proc p (\<lambda>q. q\<lparr>p_xstate := status, p_state := ZOMBIE\<rparr>) s)))))))"

text \<open>The bytes of an \<open>int\<close> in memory.\<close>

definition int_bytes :: "int \<Rightarrow> uchar list" where
  "int_bytes n = put32 0 (word_of_int n) (replicate 4 0)"

text \<open>One child in the scan of \<^verbatim>\<open>wait\<close>; a result ends the call.\<close>

definition wait_child :: "nat \<Rightarrow> uint64 \<Rightarrow> nat \<Rightarrow> 'a mem_st_scheme \<Rightarrow> (int option, 'a mem_st_scheme) outcome" where
  "wait_child p addr pp s =
     (if p_parent (procs s ! pp) = Some p \<and> p_state (procs s ! pp) = ZOMBIE then
        let pid = p_pid (procs s ! pp) in
        bindK (if addr \<noteq> 0
               then copyout (p_pagetable (procs s ! p)) addr (int_bytes (p_xstate (procs s ! pp))) s
               else Ret 0 s) (\<lambda>r s.
        if r < 0 then Ret (Some (- 1)) s
        else bindK (freeproc pp s) (\<lambda>_ s. Ret (Some pid) s))
      else Ret None s)"

definition wait :: "uint64 \<Rightarrow> 'a mem_st_scheme \<Rightarrow> (int, 'a mem_st_scheme) outcome" where
  "wait addr s = (case cur s of
      None \<Rightarrow> Panic ''kerneltrap''
    | Some p \<Rightarrow>
        bindK (findK [0..<NPROC] (wait_child p addr) s) (\<lambda>r s. case r of
          Some v \<Rightarrow> Ret v s
        | None \<Rightarrow>
            if (\<forall>q \<in> set (procs s). p_parent q \<noteq> Some p) \<or> killed p s \<noteq> 0 then Ret (- 1) s
            else sleep (ChanProc p) s))"

section \<open>Scheduling\<close>

text \<open>
  One turn of the scheduler's inner loop at table slot \<open>p\<close>. What happens between the switch
  to the process and its switch back is a parameter, \<open>run\<close>. The result tells whether the
  process was run.
\<close>

definition scheduler_slot ::
  "(nat \<Rightarrow> 'a sched_st_scheme \<Rightarrow> 'a sched_st_scheme) \<Rightarrow> nat \<Rightarrow> 'a sched_st_scheme \<Rightarrow> bool \<times> 'a sched_st_scheme" where
  "scheduler_slot run p s =
     (if p_state (procs s ! p) = RUNNABLE then
        let s = (upd_proc p (\<lambda>q. q\<lparr>p_state := RUNNING\<rparr>) s)\<lparr>cur := Some p\<rparr>;
            s = run p s
        in (True, s\<lparr>cur := None\<rparr>)
      else (False, s))"

text \<open>One pass over the table: the slots that were run, in order.\<close>

fun scheduler_pass ::
  "(nat \<Rightarrow> 'a sched_st_scheme \<Rightarrow> 'a sched_st_scheme) \<Rightarrow> nat list \<Rightarrow> 'a sched_st_scheme \<Rightarrow>
   nat list \<times> 'a sched_st_scheme" where
  "scheduler_pass run [] s = ([], s)"
| "scheduler_pass run (p # ps) s =
     (let (ran, s) = scheduler_slot run p s; (rs, s) = scheduler_pass run ps s
      in (if ran then p # rs else rs, s))"

definition scheduler ::
  "(nat \<Rightarrow> 'a sched_st_scheme \<Rightarrow> 'a sched_st_scheme) \<Rightarrow> 'a sched_st_scheme \<Rightarrow> nat list \<times> 'a sched_st_scheme" where
  "scheduler run s = scheduler_pass run [0..<NPROC] (s\<lparr>cur := None\<rparr>)"

text \<open>\<^verbatim>\<open>yield\<close> up to the switch.\<close>

definition yield :: "'a sched_st_scheme \<Rightarrow> (unit, 'a sched_st_scheme) outcome" where
  "yield s = (case cur s of
      None \<Rightarrow> Panic ''kerneltrap''
    | Some p \<Rightarrow> Ret () (upd_proc p (\<lambda>q. q\<lparr>p_state := RUNNABLE\<rparr>) s))"

section \<open>Threads\<close>

definition allocthread ::
  "linker_symbols \<Rightarrow> nat \<Rightarrow> 'a fs_st_scheme \<Rightarrow> (nat option, 'a fs_st_scheme) outcome" where
  "allocthread sy parent s = (case scan (\<lambda>p. p_state p = UNUSED) (procs s) of
      None \<Rightarrow> Ret None s
    | Some i \<Rightarrow>
        let (pid, s) = allocpid s;
            s = upd_proc i (\<lambda>p. p\<lparr>p_pid := pid, p_state := USED, p_parent := Some parent\<rparr>) s;
            (ks, s) = kalloc s;
            s = upd_proc i (\<lambda>p. p\<lparr>p_kstack := ks\<rparr>) s in
        if ks = 0 then bindK (freeproc i s) (\<lambda>_ s. Ret None s)
        else
          let (tf, s) = kalloc s;
              s = upd_proc i (\<lambda>p. p\<lparr>p_trapframe := tf\<rparr>) s in
          if tf = 0 then bindK (freeproc i s) (\<lambda>_ s. Ret None s)
          else
            let s = upd_proc i (\<lambda>p. p\<lparr>p_pagetable := p_pagetable (procs s ! parent),
                  p_sz := p_sz (procs s ! parent), p_is_thread := 1, p_thread_parent := Some parent,
                  p_killed := 0, p_xstate := 0\<rparr>) s in
            case p_cwd (procs s ! parent) of
              None \<Rightarrow> Panic ''kerneltrap''
            | Some d \<Rightarrow>
                let (ip, s) = idup d s;
                    s = upd_proc i (\<lambda>p. p\<lparr>p_cwd := Some ip\<rparr>) s
                in Ret (Some i) (upd_proc i (fresh_context sy) s))"

definition thread_create ::
  "linker_symbols \<Rightarrow> uint64 \<Rightarrow> uint64 \<Rightarrow> uint64 \<Rightarrow> 'a fs_st_scheme \<Rightarrow> (int, 'a fs_st_scheme) outcome" where
  "thread_create sy fn arg stack s =
     (if fn = 0 \<or> stack = 0 then Ret (- 1) s
      else case cur s of
        None \<Rightarrow> Panic ''kerneltrap''
      | Some p \<Rightarrow>
          bindK (allocthread sy p s) (\<lambda>r s. case r of
            None \<Rightarrow> Ret (- 1) s
          | Some np \<Rightarrow>
              if p_trapframe (procs s ! np) = 0 then bindK (freeproc np s) (\<lambda>_ s. Ret (- 1) s)
              else
                let s = copy_trapframe np p s;
                    s = tf_set np (tf_a 0) arg s;
                    s = tf_set np tf_sp stack s;
                    s = tf_set np tf_epc fn s;
                    s = upd_proc np (\<lambda>q. q\<lparr>p_state := RUNNABLE\<rparr>) s
                in Ret (p_pid (procs s ! np)) s))"

text \<open>\<^verbatim>\<open>exit\<close> takes an \<open>int\<close>: the low 32 bits of the pointer.\<close>

definition thread_exit :: "uint64 \<Rightarrow> 'a file_st_scheme \<Rightarrow> (unit, 'a file_st_scheme) outcome" where
  "thread_exit retval s = exit (sint (ucast retval :: uint)) s"

text \<open>
  The eight bytes copied to the caller start at the four-byte field \<^verbatim>\<open>xstate\<close>; the field that
  follows it in the structure is \<^verbatim>\<open>pid\<close>. The slot is read again after it was freed.
\<close>

definition join_thread :: "nat \<Rightarrow> uint64 \<Rightarrow> nat \<Rightarrow> 'a mem_st_scheme \<Rightarrow> (int option, 'a mem_st_scheme) outcome" where
  "join_thread p retval pp s =
     (if p_thread_parent (procs s ! pp) = Some p \<and> p_state (procs s ! pp) \<noteq> UNUSED \<and>
         p_state (procs s ! pp) = ZOMBIE then
        bindK (if retval \<noteq> 0
               then copyout (p_pagetable (procs s ! p)) retval
                 (int_bytes (p_xstate (procs s ! pp)) @ int_bytes (p_pid (procs s ! pp))) s
               else Ret 0 s) (\<lambda>r s.
        if r < 0 then Ret (Some (- 1)) s
        else bindK (freeproc pp s) (\<lambda>_ s. Ret (Some (p_pid (procs s ! pp))) s))
      else Ret None s)"

definition thread_join :: "uint64 \<Rightarrow> 'a mem_st_scheme \<Rightarrow> (int, 'a mem_st_scheme) outcome" where
  "thread_join retval s = (case cur s of
      None \<Rightarrow> Panic ''kerneltrap''
    | Some p \<Rightarrow>
        bindK (findK [0..<NPROC] (join_thread p retval) s) (\<lambda>r s.
        Ret (case r of Some v \<Rightarrow> v | None \<Rightarrow> - 1) s))"

section \<open>Signals\<close>

definition handle_signals :: "'a mem_st_scheme \<Rightarrow> (unit, 'a mem_st_scheme) outcome" where
  "handle_signals s = (case cur s of
      None \<Rightarrow> Panic ''kerneltrap''
    | Some p \<Rightarrow>
        if p_pending_signals (procs s ! p) AND push_bit SIGINT 1 \<noteq> 0 then
          let s = upd_proc p (\<lambda>q. q\<lparr>p_pending_signals := p_pending_signals q AND NOT (push_bit SIGINT 1)\<rparr>) s in
          if p_sig_handlers (procs s ! p) ! SIGINT \<noteq> 0
          then Ret () (tf_set p tf_epc (p_sig_handlers (procs s ! p) ! SIGINT) s)
          else Ret () (upd_proc p (\<lambda>q. q\<lparr>p_killed := 1\<rparr>) s)
        else Ret () s)"

end
