(* ===== verification/Exec.thy ===== *)
theory Exec
  imports Procs
begin

text \<open>
  \<^verbatim>\<open>src/kernel/exec.c\<close>: checking and loading an ELF image into a new address space, building
  the argument stack, and replacing the image of the calling process, with the clean-up of
  its error exit.
\<close>

section \<open>ELF headers\<close>

definition get64 :: "uchar list \<Rightarrow> nat \<Rightarrow> uint64" where
  "get64 bs k = ucast (get32 bs k) OR push_bit 32 (ucast (get32 bs (k + 4)))"

definition ELF_MAGIC :: uint where "ELF_MAGIC = 0x464C457F"
definition ELF_PROG_LOAD :: uint where "ELF_PROG_LOAD = 1"
definition sizeof_elfhdr :: nat where "sizeof_elfhdr = 64"
definition sizeof_proghdr :: nat where "sizeof_proghdr = 56"

record elfhdr =
  elf_magic :: uint
  elf_entry :: uint64
  elf_phoff :: uint64
  elf_phnum :: ushort

record proghdr =
  ph_type :: uint
  ph_flags :: uint
  ph_off :: uint64
  ph_vaddr :: uint64
  ph_filesz :: uint64
  ph_memsz :: uint64

definition elfhdr_of :: "uchar list \<Rightarrow> elfhdr" where
  "elfhdr_of d = \<lparr>elf_magic = get32 d 0, elf_entry = get64 d 24, elf_phoff = get64 d 32,
     elf_phnum = get16 d 56\<rparr>"

definition proghdr_of :: "uchar list \<Rightarrow> proghdr" where
  "proghdr_of d = \<lparr>ph_type = get32 d 0, ph_flags = get32 d 4, ph_off = get64 d 8,
     ph_vaddr = get64 d 16, ph_filesz = get64 d 32, ph_memsz = get64 d 40\<rparr>"

definition flags2perm :: "uint \<Rightarrow> uint64" where
  "flags2perm flags =
     (let perm = (if flags AND 0x1 \<noteq> 0 then PTE_X else 0) in
      if flags AND 0x2 \<noteq> 0 then perm OR PTE_W else perm)"

section \<open>Loading\<close>

text \<open>
  The loop of \<^verbatim>\<open>loadseg\<close>. Its 32-bit counter would wrap for sizes in the last page below
  \<open>2^32\<close>; the first argument is enough for every size for which it does not.
\<close>

fun loadseg_loop ::
  "nat \<Rightarrow> uint64 \<Rightarrow> uint64 \<Rightarrow> nat \<Rightarrow> uint \<Rightarrow> uint \<Rightarrow> uint \<Rightarrow> 'a fs_st_scheme \<Rightarrow> (int, 'a fs_st_scheme) outcome" where
  "loadseg_loop 0 pagetable va ip offset sz i s = Stuck"
| "loadseg_loop (Suc k) pagetable va ip offset sz i s =
     (if i < sz then
        bindK (walkaddr pagetable (va + ucast i) s) (\<lambda>pa s.
        if pa = 0 then Panic ''loadseg: address should exist''
        else
          let n = (if sz - i < ucast PGSIZE then sz - i else ucast PGSIZE) in
          bindK (readi ip (ToKernel pa) (offset + i) n s) (\<lambda>r s.
          if fst r \<noteq> n then Ret (- 1) s
          else loadseg_loop k pagetable va ip offset sz (i + ucast PGSIZE) s))
      else Ret 0 s)"

definition loadseg ::
  "uint64 \<Rightarrow> uint64 \<Rightarrow> nat \<Rightarrow> uint \<Rightarrow> uint \<Rightarrow> 'a fs_st_scheme \<Rightarrow> (int, 'a fs_st_scheme) outcome" where
  "loadseg pagetable va ip offset sz s =
     loadseg_loop (Suc (Suc (unat sz div 4096))) pagetable va ip offset sz 0 s"

text \<open>One program header: whether loading goes on, and the size reached.\<close>

definition load_header ::
  "uint64 \<Rightarrow> nat \<Rightarrow> uint \<Rightarrow> uint64 \<Rightarrow> 'a fs_st_scheme \<Rightarrow> (bool \<times> uint64, 'a fs_st_scheme) outcome" where
  "load_header pagetable ip off sz s =
     bindK (readi ip ToObject off (of_nat sizeof_proghdr) s) (\<lambda>r s.
     if fst r \<noteq> of_nat sizeof_proghdr then Ret (False, sz) s
     else
       let ph = proghdr_of (snd r) in
       if ph_type ph \<noteq> ELF_PROG_LOAD then Ret (True, sz) s
       else if ph_memsz ph < ph_filesz ph then Ret (False, sz) s
       else if ph_vaddr ph + ph_memsz ph < ph_vaddr ph then Ret (False, sz) s
       else if ph_vaddr ph mod PGSIZE \<noteq> 0 then Ret (False, sz) s
       else
         bindK (uvmalloc pagetable sz (ph_vaddr ph + ph_memsz ph) (flags2perm (ph_flags ph)) s) (\<lambda>sz1 s.
         if sz1 = 0 then Ret (False, sz) s
         else
           bindK (loadseg pagetable (ph_vaddr ph) ip (ucast (ph_off ph)) (ucast (ph_filesz ph)) s) (\<lambda>r s.
           Ret (\<not> r < 0, sz1) s)))"

primrec load_headers ::
  "nat \<Rightarrow> uint64 \<Rightarrow> nat \<Rightarrow> uint \<Rightarrow> uint64 \<Rightarrow> 'a fs_st_scheme \<Rightarrow> (bool \<times> uint64, 'a fs_st_scheme) outcome" where
  "load_headers 0 pagetable ip off sz s = Ret (True, sz) s"
| "load_headers (Suc n) pagetable ip off sz s =
     bindK (load_header pagetable ip off sz s) (\<lambda>r s.
     if fst r then load_headers n pagetable ip (off + of_nat sizeof_proghdr) (snd r) s
     else Ret r s)"

section \<open>The argument stack\<close>

text \<open>The strings pushed so far have the addresses \<open>ustack\<close>; \<open>None\<close> is the jump to \<^verbatim>\<open>bad\<close>.\<close>

fun push_args ::
  "uint64 \<Rightarrow> uint64 \<Rightarrow> uchar list list \<Rightarrow> uint64 \<Rightarrow> uint64 list \<Rightarrow> 'a mem_st_scheme \<Rightarrow>
   ((uint64 \<times> uint64 list) option, 'a mem_st_scheme) outcome" where
  "push_args pagetable stackbase [] sp ustack s =
     (if MAXARG \<le> length ustack then Stuck else Ret (Some (sp, ustack @ [0])) s)"
| "push_args pagetable stackbase (arg # argv) sp ustack s =
     (if MAXARG \<le> length ustack then Ret None s
      else
        let sp = sp - of_nat (length arg + 1); sp = sp - sp mod 16 in
        if sp < stackbase then Ret None s
        else bindK (copyout pagetable sp (arg @ [0]) s) (\<lambda>r s.
          if r < 0 then Ret None s
          else push_args pagetable stackbase argv sp (ustack @ [sp]) s))"

definition long_bytes :: "uint64 \<Rightarrow> uchar list" where
  "long_bytes v = map (\<lambda>i. ucast (drop_bit (8 * i) v)) [0..<8]"

text \<open>The strings and the array of pointers to them: the stack pointer, or \<open>None\<close>.\<close>

definition build_stack ::
  "uint64 \<Rightarrow> uint64 \<Rightarrow> uchar list list \<Rightarrow> uint64 \<Rightarrow> 'a mem_st_scheme \<Rightarrow> (uint64 option, 'a mem_st_scheme) outcome" where
  "build_stack pagetable stackbase argv sp s =
     bindK (push_args pagetable stackbase argv sp [] s) (\<lambda>r s. case r of
       None \<Rightarrow> Ret None s
     | Some (sp, ustack) \<Rightarrow>
         let sp = sp - of_nat (length ustack) * 8; sp = sp - sp mod 16 in
         if sp < stackbase then Ret None s
         else bindK (copyout pagetable sp (concat (map long_bytes ustack)) s) (\<lambda>r s.
           Ret (if r < 0 then None else Some sp) s))"

section \<open>Exec\<close>

text \<open>The label \<^verbatim>\<open>bad\<close>: the inode is given while it is still locked.\<close>

definition exec_bad ::
  "uint64 \<Rightarrow> uint64 \<Rightarrow> nat option \<Rightarrow> 'a fs_st_scheme \<Rightarrow> (int, 'a fs_st_scheme) outcome" where
  "exec_bad pagetable sz ip s =
     bindK (if pagetable \<noteq> 0 then proc_freepagetable pagetable sz s else Ret () s) (\<lambda>_ s.
     bindK (case ip of None \<Rightarrow> Ret () s
            | Some i \<Rightarrow> bindK (iunlockput i s) (\<lambda>_ s. end_op s)) (\<lambda>_ s.
     Ret (- 1) s))"

definition last_element :: "uchar list \<Rightarrow> uchar list" where
  "last_element path = rev (takeWhile (\<lambda>c. c \<noteq> slash) (rev path))"

text \<open>From the loaded image on: guard page and stack, arguments, and the switch of images.\<close>

definition exec_image ::
  "nat \<Rightarrow> uchar list \<Rightarrow> uchar list list \<Rightarrow> elfhdr \<Rightarrow> uint64 \<Rightarrow> uint64 \<Rightarrow> 'a fs_st_scheme \<Rightarrow>
   (int, 'a fs_st_scheme) outcome" where
  "exec_image p path argv elf pagetable sz s =
     (let oldsz = p_sz (procs s ! p); sz = PGROUNDUP sz in
      bindK (uvmalloc pagetable sz (sz + of_nat (USERSTACK + 1) * PGSIZE) PTE_W s) (\<lambda>sz1 s.
      if sz1 = 0 then exec_bad pagetable sz None s
      else
        let sz = sz1 in
        bindK (uvmclear pagetable (sz - of_nat (USERSTACK + 1) * PGSIZE) s) (\<lambda>_ s.
        bindK (build_stack pagetable (sz - of_nat USERSTACK * PGSIZE) argv sz s) (\<lambda>r s. case r of
          None \<Rightarrow> exec_bad pagetable sz None s
        | Some sp \<Rightarrow>
            let s = tf_set p (tf_a 1) sp s;
                s = set_name p (last_element path) s;
                oldpagetable = p_pagetable (procs s ! p);
                s = upd_proc p (\<lambda>q. q\<lparr>p_pagetable := pagetable, p_sz := sz\<rparr>) s;
                s = tf_set p tf_epc (elf_entry elf) s;
                s = tf_set p tf_sp sp s in
            bindK (proc_freepagetable oldpagetable oldsz s) (\<lambda>_ s.
            Ret (int (length argv)) s)))))"

definition exec ::
  "linker_symbols \<Rightarrow> uchar list \<Rightarrow> uchar list list \<Rightarrow> 'a fs_st_scheme \<Rightarrow> (int, 'a fs_st_scheme) outcome" where
  "exec sy path argv s = (case cur s of
      None \<Rightarrow> Panic ''kerneltrap''
    | Some p \<Rightarrow>
        bindK (begin_op s) (\<lambda>_ s.
        bindK (namei path s) (\<lambda>r s. case r of
          None \<Rightarrow> bindK (end_op s) (\<lambda>_ s. Ret (- 1) s)
        | Some ip \<Rightarrow>
            bindK (ilock (Some ip) s) (\<lambda>_ s.
            bindK (readi ip ToObject 0 (of_nat sizeof_elfhdr) s) (\<lambda>r s.
            if fst r \<noteq> of_nat sizeof_elfhdr then exec_bad 0 0 (Some ip) s
            else
              let elf = elfhdr_of (snd r) in
              if elf_magic elf \<noteq> ELF_MAGIC then exec_bad 0 0 (Some ip) s
              else
                bindK (proc_pagetable sy p s) (\<lambda>pagetable s.
                if pagetable = 0 then exec_bad 0 0 (Some ip) s
                else
                  bindK (load_headers (unat (elf_phnum elf)) pagetable ip (ucast (elf_phoff elf)) 0 s) (\<lambda>r s.
                  if \<not> fst r then exec_bad pagetable (snd r) (Some ip) s
                  else
                    bindK (iunlockput ip s) (\<lambda>_ s.
                    bindK (end_op s) (\<lambda>_ s.
                    exec_image p path argv elf pagetable (snd r) s)))))))))"

end
