(* ===== verification/Sysfile.thy ===== *)
theory Sysfile
  imports Exec
begin

text \<open>
  System call arguments (the first half of \<^verbatim>\<open>src/kernel/syscall.c\<close>) and the file system calls
  of \<^verbatim>\<open>src/kernel/sysfile.c\<close>. A path is the list of its bytes before the NUL. The results are
  the values the calls return; the caller stores them in the trap frame.
\<close>

section \<open>Arguments\<close>

definition argraw :: "nat \<Rightarrow> 'a mem_st_scheme \<Rightarrow> (uint64, 'a mem_st_scheme) outcome" where
  "argraw n s = (case cur s of
      None \<Rightarrow> Panic ''kerneltrap''
    | Some p \<Rightarrow> if n \<le> 5 then Ret (tf_get p (tf_a n) s) s else Panic ''argraw'')"

definition argint :: "nat \<Rightarrow> 'a mem_st_scheme \<Rightarrow> (int, 'a mem_st_scheme) outcome" where
  "argint n s = bindK (argraw n s) (\<lambda>v s. Ret (sint (ucast v :: uint)) s)"

definition argaddr :: "nat \<Rightarrow> 'a mem_st_scheme \<Rightarrow> (uint64, 'a mem_st_scheme) outcome" where
  "argaddr n s = argraw n s"

definition fetchaddr :: "uint64 \<Rightarrow> 'a mem_st_scheme \<Rightarrow> (int \<times> uint64, 'a mem_st_scheme) outcome" where
  "fetchaddr addr s = (case cur s of
      None \<Rightarrow> Panic ''kerneltrap''
    | Some p \<Rightarrow>
        if p_sz (procs s ! p) \<le> addr \<or> p_sz (procs s ! p) < addr + 8 then Ret (- 1, 0) s
        else bindK (copyin (p_pagetable (procs s ! p)) addr 8 s) (\<lambda>r s.
          if fst r \<noteq> 0 then Ret (- 1, 0) s else Ret (0, get64 (snd r) 0) s))"

definition fetchstr :: "uint64 \<Rightarrow> nat \<Rightarrow> 'a mem_st_scheme \<Rightarrow> (int \<times> uchar list, 'a mem_st_scheme) outcome" where
  "fetchstr addr mx s = (case cur s of
      None \<Rightarrow> Panic ''kerneltrap''
    | Some p \<Rightarrow>
        bindK (copyinstr (p_pagetable (procs s ! p)) addr mx s) (\<lambda>r s.
        if fst r < 0 then Ret (- 1, []) s
        else case strlen (snd r) of None \<Rightarrow> Stuck | Some n \<Rightarrow> Ret (int n, take n (snd r)) s))"

definition argstr :: "nat \<Rightarrow> nat \<Rightarrow> 'a mem_st_scheme \<Rightarrow> (int \<times> uchar list, 'a mem_st_scheme) outcome" where
  "argstr n mx s = bindK (argaddr n s) (\<lambda>addr s. fetchstr addr mx s)"

definition argfd :: "nat \<Rightarrow> 'a mem_st_scheme \<Rightarrow> ((int \<times> nat) option, 'a mem_st_scheme) outcome" where
  "argfd n s =
     bindK (argint n s) (\<lambda>fd s.
     if fd < 0 \<or> int NOFILE \<le> fd then Ret None s
     else case cur s of
       None \<Rightarrow> Panic ''kerneltrap''
     | Some p \<Rightarrow> (case p_ofile (procs s ! p) ! nat fd of
         None \<Rightarrow> Ret None s
       | Some f \<Rightarrow> Ret (Some (fd, f)) s))"

definition fdalloc :: "nat \<Rightarrow> 'a sched_st_scheme \<Rightarrow> (int, 'a sched_st_scheme) outcome" where
  "fdalloc f s = (case cur s of
      None \<Rightarrow> Panic ''kerneltrap''
    | Some p \<Rightarrow> (case scan (\<lambda>x. x = None) (p_ofile (procs s ! p)) of
        None \<Rightarrow> Ret (- 1) s
      | Some fd \<Rightarrow> Ret (int fd) (upd_proc p (\<lambda>q. q\<lparr>p_ofile := (p_ofile q)[fd := Some f]\<rparr>) s)))"

definition clear_fd :: "int \<Rightarrow> 'a sched_st_scheme \<Rightarrow> 'a sched_st_scheme" where
  "clear_fd fd s = (case cur s of None \<Rightarrow> s
    | Some p \<Rightarrow> upd_proc p (\<lambda>q. q\<lparr>p_ofile := (p_ofile q)[nat fd := None]\<rparr>) s)"

section \<open>Calls on descriptors\<close>

definition sys_dup :: "'a file_st_scheme \<Rightarrow> (int, 'a file_st_scheme) outcome" where
  "sys_dup s =
     bindK (argfd 0 s) (\<lambda>r s. case r of
       None \<Rightarrow> Ret (- 1) s
     | Some (_, f) \<Rightarrow>
         bindK (fdalloc f s) (\<lambda>fd s.
         if fd < 0 then Ret (- 1) s
         else bindK (filedup f s) (\<lambda>_ s. Ret fd s)))"

definition sys_read :: "'a file_st_scheme \<Rightarrow> (int, 'a file_st_scheme) outcome" where
  "sys_read s =
     bindK (argaddr 1 s) (\<lambda>p s.
     bindK (argint 2 s) (\<lambda>n s.
     bindK (argfd 0 s) (\<lambda>r s. case r of
       None \<Rightarrow> Ret (- 1) s
     | Some (_, f) \<Rightarrow> fileread f p n s)))"

definition sys_write :: "'a file_st_scheme \<Rightarrow> (int, 'a file_st_scheme) outcome" where
  "sys_write s =
     bindK (argaddr 1 s) (\<lambda>p s.
     bindK (argint 2 s) (\<lambda>n s.
     bindK (argfd 0 s) (\<lambda>r s. case r of
       None \<Rightarrow> Ret (- 1) s
     | Some (_, f) \<Rightarrow> filewrite f p n s)))"

definition sys_close :: "'a file_st_scheme \<Rightarrow> (int, 'a file_st_scheme) outcome" where
  "sys_close s =
     bindK (argfd 0 s) (\<lambda>r s. case r of
       None \<Rightarrow> Ret (- 1) s
     | Some (fd, f) \<Rightarrow> bindK (fileclose f (clear_fd fd s)) (\<lambda>_ s. Ret 0 s))"

definition sys_fstat :: "uchar list \<Rightarrow> 'a file_st_scheme \<Rightarrow> (int, 'a file_st_scheme) outcome" where
  "sys_fstat pad s =
     bindK (argaddr 1 s) (\<lambda>st s.
     bindK (argfd 0 s) (\<lambda>r s. case r of
       None \<Rightarrow> Ret (- 1) s
     | Some (_, f) \<Rightarrow> filestat pad f st s))"

section \<open>Links\<close>

text \<open>End of a failing call: close the transaction and return -1.\<close>

definition fail_op :: "'a log_st_scheme \<Rightarrow> (int, 'a log_st_scheme) outcome" where
  "fail_op s = bindK (end_op s) (\<lambda>_ s. Ret (- 1) s)"

definition noname :: "uchar list" where
  "noname = replicate DIRSIZ 0"

definition sys_link :: "'a fs_st_scheme \<Rightarrow> (int, 'a fs_st_scheme) outcome" where
  "sys_link s =
     bindK (argstr 0 MAXPATH s) (\<lambda>old s.
     if fst old < 0 then Ret (- 1) s
     else bindK (argstr 1 MAXPATH s) (\<lambda>new s.
     if fst new < 0 then Ret (- 1) s
     else
       bindK (begin_op s) (\<lambda>_ s.
       bindK (namei (snd old) s) (\<lambda>r s. case r of
         None \<Rightarrow> fail_op s
       | Some ip \<Rightarrow>
           bindK (ilock (Some ip) s) (\<lambda>_ s.
           if i_type (ino s ip) = T_DIR then bindK (iunlockput ip s) (\<lambda>_ s. fail_op s)
           else
             let s = upd_inode ip (\<lambda>x. x\<lparr>i_nlink := i_nlink x + 1\<rparr>) s;
                 bad = (\<lambda>s.
                   bindK (ilock (Some ip) s) (\<lambda>_ s.
                   let s = upd_inode ip (\<lambda>x. x\<lparr>i_nlink := i_nlink x - 1\<rparr>) s in
                   bindK (iupdate ip s) (\<lambda>_ s.
                   bindK (iunlockput ip s) (\<lambda>_ s. fail_op s)))) in
             bindK (iupdate ip s) (\<lambda>_ s.
             bindK (iunlock (Some ip) s) (\<lambda>_ s.
             bindK (nameiparent (snd new) noname s) (\<lambda>r s. case fst r of
               None \<Rightarrow> bad s
             | Some dp \<Rightarrow>
                 bindK (ilock (Some dp) s) (\<lambda>_ s.
                 bindK (if i_dev (ino s dp) \<noteq> i_dev (ino s ip) then Ret (- 1) s
                        else dirlink dp (snd r) (i_inum (ino s ip)) s) (\<lambda>d s.
                 if d < 0 then bindK (iunlockput dp s) (\<lambda>_ s. bad s)
                 else
                   bindK (iunlockput dp s) (\<lambda>_ s.
                   bindK (iput ip s) (\<lambda>_ s.
                   bindK (end_op s) (\<lambda>_ s. Ret 0 s)))))))))))))"

definition isdirempty :: "nat \<Rightarrow> 'a fs_st_scheme \<Rightarrow> (bool, 'a fs_st_scheme) outcome" where
  "isdirempty dp s =
     bindK (findK (drop 2 (dir_offsets dp s)) (\<lambda>off s.
       bindK (readi dp ToObject (of_nat off) (of_nat sizeof_dirent) s) (\<lambda>r s.
       if fst r \<noteq> of_nat sizeof_dirent then Panic ''isdirempty: readi''
       else if dirent_inum (snd r) \<noteq> 0 then Ret (Some ()) s
       else Ret None s)) s) (\<lambda>r s. Ret (r = None) s)"

definition sys_unlink :: "'a fs_st_scheme \<Rightarrow> (int, 'a fs_st_scheme) outcome" where
  "sys_unlink s =
     bindK (argstr 0 MAXPATH s) (\<lambda>path s.
     if fst path < 0 then Ret (- 1) s
     else
       bindK (begin_op s) (\<lambda>_ s.
       bindK (nameiparent (snd path) noname s) (\<lambda>r s. case fst r of
         None \<Rightarrow> fail_op s
       | Some dp \<Rightarrow>
           let name = snd r; bad = (\<lambda>s. bindK (iunlockput dp s) (\<lambda>_ s. fail_op s)) in
           bindK (ilock (Some dp) s) (\<lambda>_ s.
           if namecmp name (text_of ''.'') = 0 \<or> namecmp name (text_of ''..'') = 0 then bad s
           else
             bindK (dirlookup dp name s) (\<lambda>r s. case r of
               None \<Rightarrow> bad s
             | Some (ip, off) \<Rightarrow>
                 bindK (ilock (Some ip) s) (\<lambda>_ s.
                 if sint (i_nlink (ino s ip)) < 1 then Panic ''unlink: nlink < 1''
                 else
                   bindK (if i_type (ino s ip) = T_DIR then isdirempty ip s else Ret True s) (\<lambda>e s.
                   if \<not> e then bindK (iunlockput ip s) (\<lambda>_ s. bad s)
                   else
                     bindK (writei dp (FromObject (replicate sizeof_dirent 0)) off (of_nat sizeof_dirent) s) (\<lambda>n s.
                     if n \<noteq> of_nat sizeof_dirent then Panic ''unlink: writei''
                     else
                       bindK (if i_type (ino s ip) = T_DIR
                              then iupdate dp (upd_inode dp (\<lambda>x. x\<lparr>i_nlink := i_nlink x - 1\<rparr>) s)
                              else Ret () s) (\<lambda>_ s.
                       bindK (iunlockput dp s) (\<lambda>_ s.
                       bindK (iupdate ip (upd_inode ip (\<lambda>x. x\<lparr>i_nlink := i_nlink x - 1\<rparr>) s)) (\<lambda>_ s.
                       bindK (iunlockput ip s) (\<lambda>_ s.
                       bindK (end_op s) (\<lambda>_ s. Ret 0 s)))))))))))))"

section \<open>Creating\<close>

text \<open>The result, like the code's, is a locked inode.\<close>

definition create ::
  "uchar list \<Rightarrow> ushort \<Rightarrow> ushort \<Rightarrow> ushort \<Rightarrow> 'a fs_st_scheme \<Rightarrow> (nat option, 'a fs_st_scheme) outcome" where
  "create path type major minor s =
     bindK (nameiparent path noname s) (\<lambda>r s. case fst r of
       None \<Rightarrow> Ret None s
     | Some dp \<Rightarrow>
         let name = snd r in
         bindK (ilock (Some dp) s) (\<lambda>_ s.
         bindK (dirlookup dp name s) (\<lambda>r s. case r of
           Some (ip, _) \<Rightarrow>
             bindK (iunlockput dp s) (\<lambda>_ s.
             bindK (ilock (Some ip) s) (\<lambda>_ s.
             if type = T_FILE \<and> (i_type (ino s ip) = T_FILE \<or> i_type (ino s ip) = T_DEVICE)
             then Ret (Some ip) s
             else bindK (iunlockput ip s) (\<lambda>_ s. Ret None s)))
         | None \<Rightarrow>
             bindK (ialloc (i_dev (ino s dp)) type s) (\<lambda>r s. case r of
               None \<Rightarrow> bindK (iunlockput dp s) (\<lambda>_ s. Ret None s)
             | Some ip \<Rightarrow>
                 bindK (ilock (Some ip) s) (\<lambda>_ s.
                 let s = upd_inode ip (\<lambda>x. x\<lparr>i_major := major, i_minor := minor, i_nlink := 1\<rparr>) s;
                     fail = (\<lambda>s.
                       bindK (iupdate ip (upd_inode ip (\<lambda>x. x\<lparr>i_nlink := 0\<rparr>) s)) (\<lambda>_ s.
                       bindK (iunlockput ip s) (\<lambda>_ s.
                       bindK (iunlockput dp s) (\<lambda>_ s. Ret None s)))) in
                 bindK (iupdate ip s) (\<lambda>_ s.
                 bindK (if type = T_DIR then
                          bindK (dirlink ip (text_of ''.'') (i_inum (ino s ip)) s) (\<lambda>d s.
                          if d < 0 then Ret False s
                          else bindK (dirlink ip (text_of ''..'') (i_inum (ino s dp)) s) (\<lambda>d s. Ret (\<not> d < 0) s))
                        else Ret True s) (\<lambda>ok s.
                 if \<not> ok then fail s
                 else
                   bindK (dirlink dp name (i_inum (ino s ip)) s) (\<lambda>d s.
                   if d < 0 then fail s
                   else
                     bindK (if type = T_DIR
                            then iupdate dp (upd_inode dp (\<lambda>x. x\<lparr>i_nlink := i_nlink x + 1\<rparr>) s)
                            else Ret () s) (\<lambda>_ s.
                     bindK (iunlockput dp s) (\<lambda>_ s. Ret (Some ip) s))))))))))"

definition O_RDONLY :: int where "O_RDONLY = 0x000"
definition O_WRONLY :: int where "O_WRONLY = 0x001"
definition O_RDWR :: int where "O_RDWR = 0x002"
definition O_CREATE :: int where "O_CREATE = 0x200"
definition O_TRUNC :: int where "O_TRUNC = 0x400"

text \<open>The first half of \<^verbatim>\<open>sys_open\<close>: the locked inode, or \<open>None\<close> after closing the transaction.\<close>

definition open_inode :: "int \<Rightarrow> uchar list \<Rightarrow> 'a fs_st_scheme \<Rightarrow> (nat option, 'a fs_st_scheme) outcome" where
  "open_inode omode path s =
     bindK (if omode AND O_CREATE \<noteq> 0 then
              bindK (create path T_FILE 0 0 s) (\<lambda>r s. case r of
                None \<Rightarrow> bindK (end_op s) (\<lambda>_ s. Ret None s)
              | Some ip \<Rightarrow> Ret (Some ip) s)
            else
              bindK (namei path s) (\<lambda>r s. case r of
                None \<Rightarrow> bindK (end_op s) (\<lambda>_ s. Ret None s)
              | Some ip \<Rightarrow>
                  bindK (ilock (Some ip) s) (\<lambda>_ s.
                  if i_type (ino s ip) = T_DIR \<and> omode \<noteq> O_RDONLY
                  then bindK (iunlockput ip s) (\<lambda>_ s. bindK (end_op s) (\<lambda>_ s. Ret None s))
                  else Ret (Some ip) s))) (\<lambda>r s. case r of
       None \<Rightarrow> Ret None s
     | Some ip \<Rightarrow>
         if i_type (ino s ip) = T_DEVICE \<and>
            (sint (i_major (ino s ip)) < 0 \<or> int NDEV \<le> sint (i_major (ino s ip)))
         then bindK (iunlockput ip s) (\<lambda>_ s. bindK (end_op s) (\<lambda>_ s. Ret None s))
         else Ret (Some ip) s)"

definition open_file :: "int \<Rightarrow> nat \<Rightarrow> nat \<Rightarrow> 'a file_st_scheme \<Rightarrow> 'a file_st_scheme" where
  "open_file omode ip f s =
     upd_file f (\<lambda>x. (if i_type (ino s ip) = T_DEVICE
                      then x\<lparr>f_type := FD_DEVICE, f_major := i_major (ino s ip)\<rparr>
                      else x\<lparr>f_type := FD_INODE, f_off := 0\<rparr>)
       \<lparr>f_ip := Some ip,
        f_readable := (if omode AND O_WRONLY = 0 then 1 else 0),
        f_writable := (if omode AND O_WRONLY \<noteq> 0 \<or> omode AND O_RDWR \<noteq> 0 then 1 else 0)\<rparr>) s"

definition sys_open :: "'a file_st_scheme \<Rightarrow> (int, 'a file_st_scheme) outcome" where
  "sys_open s =
     bindK (argint 1 s) (\<lambda>omode s.
     bindK (argstr 0 MAXPATH s) (\<lambda>path s.
     if fst path < 0 then Ret (- 1) s
     else
       bindK (begin_op s) (\<lambda>_ s.
       bindK (open_inode omode (snd path) s) (\<lambda>r s. case r of
         None \<Rightarrow> Ret (- 1) s
       | Some ip \<Rightarrow>
           let (fo, s) = filealloc s in
           bindK (case fo of None \<Rightarrow> Ret (- 1) s | Some f \<Rightarrow> fdalloc f s) (\<lambda>fd s.
           if fd < 0 then
             bindK (case fo of None \<Rightarrow> Ret () s | Some f \<Rightarrow> fileclose f s) (\<lambda>_ s.
             bindK (iunlockput ip s) (\<lambda>_ s. fail_op s))
           else
             let s = open_file omode ip (the fo) s in
             bindK (if omode AND O_TRUNC \<noteq> 0 \<and> i_type (ino s ip) = T_FILE then itrunc ip s else Ret () s) (\<lambda>_ s.
             bindK (iunlock (Some ip) s) (\<lambda>_ s.
             bindK (end_op s) (\<lambda>_ s. Ret fd s))))))))"

definition sys_mkdir :: "'a fs_st_scheme \<Rightarrow> (int, 'a fs_st_scheme) outcome" where
  "sys_mkdir s =
     bindK (begin_op s) (\<lambda>_ s.
     bindK (argstr 0 MAXPATH s) (\<lambda>path s.
     if fst path < 0 then fail_op s
     else bindK (create (snd path) T_DIR 0 0 s) (\<lambda>r s. case r of
       None \<Rightarrow> fail_op s
     | Some ip \<Rightarrow> bindK (iunlockput ip s) (\<lambda>_ s. bindK (end_op s) (\<lambda>_ s. Ret 0 s)))))"

definition sys_mknod :: "'a fs_st_scheme \<Rightarrow> (int, 'a fs_st_scheme) outcome" where
  "sys_mknod s =
     bindK (begin_op s) (\<lambda>_ s.
     bindK (argint 1 s) (\<lambda>major s.
     bindK (argint 2 s) (\<lambda>minor s.
     bindK (argstr 0 MAXPATH s) (\<lambda>path s.
     if fst path < 0 then fail_op s
     else bindK (create (snd path) T_DEVICE (word_of_int major) (word_of_int minor) s) (\<lambda>r s. case r of
       None \<Rightarrow> fail_op s
     | Some ip \<Rightarrow> bindK (iunlockput ip s) (\<lambda>_ s. bindK (end_op s) (\<lambda>_ s. Ret 0 s)))))))"

definition sys_chdir :: "'a fs_st_scheme \<Rightarrow> (int, 'a fs_st_scheme) outcome" where
  "sys_chdir s = (case cur s of
      None \<Rightarrow> Panic ''kerneltrap''
    | Some p \<Rightarrow>
        bindK (begin_op s) (\<lambda>_ s.
        bindK (argstr 0 MAXPATH s) (\<lambda>path s.
        if fst path < 0 then fail_op s
        else bindK (namei (snd path) s) (\<lambda>r s. case r of
          None \<Rightarrow> fail_op s
        | Some ip \<Rightarrow>
            bindK (ilock (Some ip) s) (\<lambda>_ s.
            if i_type (ino s ip) \<noteq> T_DIR then bindK (iunlockput ip s) (\<lambda>_ s. fail_op s)
            else
              bindK (iunlock (Some ip) s) (\<lambda>_ s.
              bindK (case p_cwd (procs s ! p) of None \<Rightarrow> Panic ''kerneltrap'' | Some d \<Rightarrow> iput d s) (\<lambda>_ s.
              bindK (end_op s) (\<lambda>_ s.
              Ret 0 (upd_proc p (\<lambda>q. q\<lparr>p_cwd := Some ip\<rparr>) s)))))))))"

section \<open>Exec and pipe\<close>

text \<open>
  Collecting the argument strings, each into a page of its own: whether the null pointer that
  ends the vector was reached, the pages, and the strings.
\<close>

fun fetch_args ::
  "nat \<Rightarrow> uint64 \<Rightarrow> nat \<Rightarrow> (uint64 \<times> uchar list) list \<Rightarrow> 'a mem_st_scheme \<Rightarrow>
   (bool \<times> (uint64 \<times> uchar list) list, 'a mem_st_scheme) outcome" where
  "fetch_args 0 uargv i acc s = Ret (False, acc) s"
| "fetch_args (Suc k) uargv i acc s =
     bindK (fetchaddr (uargv + 8 * of_nat i) s) (\<lambda>r s.
     if fst r < 0 then Ret (False, acc) s
     else if snd r = 0 then Ret (True, acc) s
     else
       let (pg, s) = kalloc s in
       if pg = 0 then Ret (False, acc) s
       else
         bindK (fetchstr (snd r) 4096 s) (\<lambda>t s.
         if fst t < 0 then Ret (False, acc @ [(pg, [])]) s
         else fetch_args k uargv (i + 1) (acc @ [(pg, snd t)])
                (s\<lparr>mem := put_mem pg (snd t @ [0]) (mem s)\<rparr>)))"

definition sys_exec :: "linker_symbols \<Rightarrow> 'a fs_st_scheme \<Rightarrow> (int, 'a fs_st_scheme) outcome" where
  "sys_exec sy s =
     bindK (argaddr 1 s) (\<lambda>uargv s.
     bindK (argstr 0 MAXPATH s) (\<lambda>path s.
     if fst path < 0 then Ret (- 1) s
     else
       bindK (fetch_args MAXARG uargv 0 [] s) (\<lambda>r s.
       bindK (if fst r then exec sy (snd path) (map snd (snd r)) s else Ret (- 1) s) (\<lambda>ret s.
       bindK (forK (map fst (snd r)) kfree s) (\<lambda>_ s. Ret ret s)))))"

definition sys_pipe :: "'a file_st_scheme \<Rightarrow> (int, 'a file_st_scheme) outcome" where
  "sys_pipe s = (case cur s of
      None \<Rightarrow> Panic ''kerneltrap''
    | Some p \<Rightarrow>
        bindK (argaddr 0 s) (\<lambda>fdarray s.
        bindK (pipealloc s) (\<lambda>r s. case r of
          (Some rfile, Some wfile, ret) \<Rightarrow>
            if ret < 0 then Ret (- 1) s
            else
              let close2 = (\<lambda>s. bindK (fileclose rfile s) (\<lambda>_ s.
                     bindK (fileclose wfile s) (\<lambda>_ s. Ret (- 1) s))) in
              bindK (fdalloc rfile s) (\<lambda>fd0 s.
              if fd0 < 0 then close2 s
              else bindK (fdalloc wfile s) (\<lambda>fd1 s.
              if fd1 < 0 then close2 (clear_fd fd0 s)
              else
                let pt = p_pagetable (procs s ! p);
                    undo = (\<lambda>s. close2 (clear_fd fd1 (clear_fd fd0 s))) in
                bindK (copyout pt fdarray (int_bytes fd0) s) (\<lambda>c s.
                if c < 0 then undo s
                else bindK (copyout pt (fdarray + 4) (int_bytes fd1) s) (\<lambda>c s.
                if c < 0 then undo s else Ret 0 s))))
        | _ \<Rightarrow> Ret (- 1) s)))"

end
