(* ===== verification/Msgq.thy ===== *)
theory Msgq
  imports Sysfile
begin

text \<open>
  Message queues, \<^verbatim>\<open>src/kernel/msg.c\<close>: the table of queues and the shared array of messages,
  and the four system calls on them. A message is the 1032 bytes of \<^verbatim>\<open>struct msg_buf\<close>.
\<close>

section \<open>State\<close>

definition MSG_MAX_QUEUES :: nat where "MSG_MAX_QUEUES = 16"
definition MSG_MAX_SIZE :: nat where "MSG_MAX_SIZE = 1024"
definition IPC_NOWAIT :: int where "IPC_NOWAIT = 2048"
definition IPC_RMID :: int where "IPC_RMID = 0"
definition IPC_SET :: int where "IPC_SET = 1"
definition IPC_STAT :: int where "IPC_STAT = 2"
definition sizeof_msg_buf :: nat where "sizeof_msg_buf = 8 + MSG_MAX_SIZE"
definition sizeof_msqid_ds :: nat where "sizeof_msqid_ds = 32"

lemmas msg_consts = MSG_MAX_QUEUES_def MSG_MAX_SIZE_def IPC_NOWAIT_def IPC_RMID_def IPC_SET_def
  IPC_STAT_def sizeof_msg_buf_def sizeof_msqid_ds_def

record msg_queue =
  in_use :: int
  msg_count :: int
  first_msg :: int
  last_msg :: int
  queue_size :: int

record msg_st = file_st +
  queues :: "msg_queue list"          \<comment> \<open>\<open>msgtable.queues[MSG_MAX_QUEUES]\<close>\<close>
  messages :: "uchar list list"       \<comment> \<open>\<open>msgtable.messages[MSG_MAX_QUEUES * 100]\<close>\<close>

definition zero_queue :: msg_queue where
  "zero_queue = \<lparr>in_use = 0, msg_count = 0, first_msg = 0, last_msg = 0, queue_size = 0\<rparr>"

definition upd_queue :: "nat \<Rightarrow> (msg_queue \<Rightarrow> msg_queue) \<Rightarrow> 'a msg_st_scheme \<Rightarrow> 'a msg_st_scheme" where
  "upd_queue i f s = s\<lparr>queues := (queues s)[i := f (queues s ! i)]\<rparr>"

definition mtype_of :: "uchar list \<Rightarrow> int" where
  "mtype_of m = sint (get64 m 0)"

section \<open>Operations\<close>

text \<open>The 32 bytes of \<^verbatim>\<open>struct msqid_ds\<close> as \<^verbatim>\<open>k2u_msqid_ds\<close> fills them.\<close>

definition k2u_msqid_ds :: "msg_queue \<Rightarrow> uchar list" where
  "k2u_msqid_ds q =
     put32 4 (word_of_int (msg_count q)) (put32 8 (word_of_int (queue_size q)) (replicate sizeof_msqid_ds 0))"

definition u2k_msqid_ds :: "uchar list \<Rightarrow> msg_queue \<Rightarrow> msg_queue" where
  "u2k_msqid_ds uds q = q\<lparr>queue_size := sint (get32 uds 8)\<rparr>"

definition msginit :: "'a msg_st_scheme \<Rightarrow> 'a msg_st_scheme" where
  "msginit s = s\<lparr>queues := map (\<lambda>q. q\<lparr>in_use := 0, msg_count := 0, first_msg := 0, last_msg := 0,
     queue_size := int MSG_MAX_SIZE\<rparr>) (queues s)\<rparr>"

definition sys_msgget :: "'a msg_st_scheme \<Rightarrow> (int, 'a msg_st_scheme) outcome" where
  "sys_msgget s =
     bindK (argint 0 s) (\<lambda>key s.
     bindK (argint 1 s) (\<lambda>flags s.
     case scan (\<lambda>q. in_use q = 0) (queues s) of
       None \<Rightarrow> Ret (- 1) s
     | Some i \<Rightarrow> Ret (int i) (upd_queue i (\<lambda>q. q\<lparr>in_use := 1\<rparr>) s)))"

text \<open>Storing the message: from \<^verbatim>\<open>int msg_index\<close> on.\<close>

definition msg_store :: "nat \<Rightarrow> uchar list \<Rightarrow> 'a msg_st_scheme \<Rightarrow> (int, 'a msg_st_scheme) outcome" where
  "msg_store msqid msg s =
     (let msg_index = int msqid * int MSG_MAX_SIZE + last_msg (queues s ! msqid) in
      if msg_index < 0 \<or> int (length (messages s)) \<le> msg_index then Stuck
      else
        let s = s\<lparr>messages := (messages s)[nat msg_index := msg]\<rparr>;
            s = upd_queue msqid (\<lambda>q. q\<lparr>last_msg := (last_msg q + 1) mod int MSG_MAX_SIZE,
                  msg_count := msg_count q + 1\<rparr>) s
        in Ret 0 (wakeup (ChanMsg msqid) s))"

definition sys_msgsnd :: "'a msg_st_scheme \<Rightarrow> (int, 'a msg_st_scheme) outcome" where
  "sys_msgsnd s =
     bindK (argint 0 s) (\<lambda>msqid s.
     bindK (argaddr 1 s) (\<lambda>msgp s.
     bindK (argint 2 s) (\<lambda>msgsz s.
     bindK (argint 3 s) (\<lambda>flags s.
     if msqid < 0 \<or> int MSG_MAX_QUEUES \<le> msqid \<or> in_use (queues s ! nat msqid) = 0 then Ret (- 1) s
     else case cur s of
       None \<Rightarrow> Panic ''kerneltrap''
     | Some p \<Rightarrow>
         bindK (copyin (p_pagetable (procs s ! p)) msgp sizeof_msg_buf s) (\<lambda>r s.
         if fst r < 0 then Ret (- 1) s
         else if msgsz < 0 \<or> int MSG_MAX_SIZE < msgsz then Ret (- 1) s
         else
           let q = queues s ! nat msqid in
           if queue_size q \<le> msg_count q then
             (if flags AND IPC_NOWAIT \<noteq> 0 then Ret (- 1) s else sleep (ChanMsg (nat msqid)) s)
           else msg_store (nat msqid) (snd r) s)))))"

text \<open>
  \<^verbatim>\<open>msgtyp\<close> is a \<open>long\<close> of which \<^verbatim>\<open>argint\<close> sets the low half only; the high half is what the
  stack held, a parameter here.
\<close>

definition sys_msgrcv :: "uint \<Rightarrow> 'a msg_st_scheme \<Rightarrow> (int, 'a msg_st_scheme) outcome" where
  "sys_msgrcv junk s =
     bindK (argint 0 s) (\<lambda>msqid s.
     bindK (argaddr 1 s) (\<lambda>msgp s.
     bindK (argint 2 s) (\<lambda>msgsz s.
     bindK (argint 3 s) (\<lambda>low s.
     bindK (argint 4 s) (\<lambda>flags s.
     let msgtyp = sint (push_bit 32 (ucast junk) OR ucast (word_of_int low :: uint) :: uint64) in
     if msqid < 0 \<or> int MSG_MAX_QUEUES \<le> msqid \<or> in_use (queues s ! nat msqid) = 0 then Ret (- 1) s
     else if msgsz < 0 \<or> int MSG_MAX_SIZE < msgsz then Ret (- 1) s
     else
       let q = queues s ! nat msqid in
       if msg_count q = 0 then Ret (- 1) s
       else
         let msg_index = msqid * 100 + first_msg q in
         if msg_index < 0 \<or> int (length (messages s)) \<le> msg_index then Stuck
         else
           let msg = messages s ! nat msg_index in
           if 0 < msgtyp \<and> mtype_of msg \<noteq> msgtyp then Ret (- 1) s
           else case cur s of
             None \<Rightarrow> Panic ''kerneltrap''
           | Some p \<Rightarrow>
               bindK (copyout (p_pagetable (procs s ! p)) msgp msg s) (\<lambda>r s.
               if r < 0 then Ret (- 1) s
               else Ret msgsz (upd_queue (nat msqid) (\<lambda>q. q\<lparr>first_msg := (first_msg q + 1) mod 100,
                 msg_count := msg_count q - 1\<rparr>) s)))))))"

definition sys_msgctl :: "'a msg_st_scheme \<Rightarrow> (int, 'a msg_st_scheme) outcome" where
  "sys_msgctl s =
     bindK (argint 0 s) (\<lambda>msqid s.
     bindK (argint 1 s) (\<lambda>cmd s.
     bindK (argaddr 2 s) (\<lambda>buf_addr s.
     if msqid < 0 \<or> int MSG_MAX_QUEUES \<le> msqid then Ret (- 1) s
     else
       let i = nat msqid in
       if cmd \<noteq> IPC_STAT \<and> cmd \<noteq> IPC_SET \<and> cmd \<noteq> IPC_RMID then Ret (- 1) s
       else if in_use (queues s ! i) = 0 then Ret (- 1) s
       else if cmd = IPC_RMID then
         Ret 0 (upd_queue i (\<lambda>q. q\<lparr>in_use := 0, msg_count := 0, first_msg := 0, last_msg := 0\<rparr>) s)
       else case cur s of
         None \<Rightarrow> Panic ''kerneltrap''
       | Some p \<Rightarrow>
           let pt = p_pagetable (procs s ! p) in
           if cmd = IPC_STAT then
             bindK (copyout pt buf_addr (k2u_msqid_ds (queues s ! i)) s) (\<lambda>r s. Ret (if r < 0 then - 1 else 0) s)
           else
             bindK (copyin pt buf_addr sizeof_msqid_ds s) (\<lambda>r s.
             if fst r < 0 then Ret (- 1) s
             else Ret 0 (upd_queue i (u2k_msqid_ds (snd r)) s)))))"

end
