(* ===== verification/Spinlock.thy ===== *)
theory Spinlock
  imports Sched
begin

text \<open>
  The spin locks of \<^verbatim>\<open>src/kernel/spinlock.c\<close>, the interrupt-enable bit of \<^verbatim>\<open>src/kernel/riscv.h\<close> they
  work on and the checks of \<^verbatim>\<open>sched\<close> in \<^verbatim>\<open>src/kernel/proc.c\<close>. The first part has each routine as one
  operation of one processor. The second part runs any number of processors against the same
  locks, one memory access at a time and in any order, and shows what the rest of the
  development takes for granted when it treats a critical section as one operation: at most
  one processor is inside, and it cannot be interrupted there.
\<close>

unbundle bit_operations_syntax

section \<open>Locks, processors and the interrupt bit\<close>

record spinlock =
  lk_locked :: uint
  lk_name :: string
  lk_cpu :: "nat option"

record cpu =
  c_noff :: int
  c_intena :: int

text \<open>Locks and processors are numbered; \<open>sstatus h\<close> is the status register of processor \<open>h\<close>.\<close>

record smp_st =
  locks :: "nat \<Rightarrow> spinlock"
  cpus :: "nat \<Rightarrow> cpu"
  sstatus :: "nat \<Rightarrow> uint64"

definition SSTATUS_SIE :: uint64 where "SSTATUS_SIE = push_bit 1 1"

definition upd_lock :: "nat \<Rightarrow> (spinlock \<Rightarrow> spinlock) \<Rightarrow> 'a smp_st_scheme \<Rightarrow> 'a smp_st_scheme" where
  "upd_lock l f s = s\<lparr>locks := (locks s)(l := f (locks s l))\<rparr>"

definition upd_cpu :: "nat \<Rightarrow> (cpu \<Rightarrow> cpu) \<Rightarrow> 'a smp_st_scheme \<Rightarrow> 'a smp_st_scheme" where
  "upd_cpu h f s = s\<lparr>cpus := (cpus s)(h := f (cpus s h))\<rparr>"

definition w_sstatus :: "nat \<Rightarrow> uint64 \<Rightarrow> 'a smp_st_scheme \<Rightarrow> 'a smp_st_scheme" where
  "w_sstatus h x s = s\<lparr>sstatus := (sstatus s)(h := x)\<rparr>"

definition intr_on :: "nat \<Rightarrow> 'a smp_st_scheme \<Rightarrow> 'a smp_st_scheme" where
  "intr_on h s = w_sstatus h (sstatus s h OR SSTATUS_SIE) s"

definition intr_off :: "nat \<Rightarrow> 'a smp_st_scheme \<Rightarrow> 'a smp_st_scheme" where
  "intr_off h s = w_sstatus h (sstatus s h AND NOT SSTATUS_SIE) s"

definition intr_get :: "nat \<Rightarrow> 'a smp_st_scheme \<Rightarrow> int" where
  "intr_get h s = (if sstatus s h AND SSTATUS_SIE \<noteq> 0 then 1 else 0)"

section \<open>The routines of one processor\<close>

definition initlock :: "nat \<Rightarrow> string \<Rightarrow> 'a smp_st_scheme \<Rightarrow> 'a smp_st_scheme" where
  "initlock l name s = upd_lock l (\<lambda>lk. lk\<lparr>lk_name := name, lk_locked := 0, lk_cpu := None\<rparr>) s"

definition holding :: "nat \<Rightarrow> nat \<Rightarrow> 'a smp_st_scheme \<Rightarrow> bool" where
  "holding h l s \<longleftrightarrow> lk_locked (locks s l) \<noteq> 0 \<and> lk_cpu (locks s l) = Some h"

definition push_off :: "nat \<Rightarrow> 'a smp_st_scheme \<Rightarrow> 'a smp_st_scheme" where
  "push_off h s =
     (let old = intr_get h s;
          s = intr_off h s;
          s = (if c_noff (cpus s h) = 0 then upd_cpu h (\<lambda>c. c\<lparr>c_intena := old\<rparr>) s else s)
      in upd_cpu h (\<lambda>c. c\<lparr>c_noff := c_noff c + 1\<rparr>) s)"

definition pop_off :: "nat \<Rightarrow> 'a smp_st_scheme \<Rightarrow> (unit, 'a smp_st_scheme) outcome" where
  "pop_off h s =
     (if intr_get h s \<noteq> 0 then Panic ''pop_off - interruptible''
      else if c_noff (cpus s h) < 1 then Panic ''pop_off''
      else let s = upd_cpu h (\<lambda>c. c\<lparr>c_noff := c_noff c - 1\<rparr>) s
           in Ret () (if c_noff (cpus s h) = 0 \<and> c_intena (cpus s h) \<noteq> 0 then intr_on h s else s))"

text \<open>A processor that meets a taken lock spins; with nobody else running it never comes out.\<close>

definition acquire :: "nat \<Rightarrow> nat \<Rightarrow> 'a smp_st_scheme \<Rightarrow> (unit, 'a smp_st_scheme) outcome" where
  "acquire h l s =
     (let s = push_off h s
      in if holding h l s then Panic ''acquire''
         else if lk_locked (locks s l) \<noteq> 0 then Stuck
         else Ret () (upd_lock l (\<lambda>lk. lk\<lparr>lk_cpu := Some h\<rparr>)
                       (upd_lock l (\<lambda>lk. lk\<lparr>lk_locked := 1\<rparr>) s)))"

definition release :: "nat \<Rightarrow> nat \<Rightarrow> 'a smp_st_scheme \<Rightarrow> (unit, 'a smp_st_scheme) outcome" where
  "release h l s =
     (if \<not> holding h l s then Panic ''release''
      else pop_off h (upd_lock l (\<lambda>lk. lk\<lparr>lk_locked := 0\<rparr>)
                       (upd_lock l (\<lambda>lk. lk\<lparr>lk_cpu := None\<rparr>) s)))"

text \<open>
  \<^verbatim>\<open>sched\<close> gives the processor to the scheduler. The parameter \<open>swtch\<close> is what happens between
  the switch away and the switch back; \<open>l\<close> is the lock of the current process and \<open>st\<close> its state.
\<close>

definition sched :: "nat \<Rightarrow> nat \<Rightarrow> procstate \<Rightarrow> ('a smp_st_scheme \<Rightarrow> 'a smp_st_scheme)
    \<Rightarrow> 'a smp_st_scheme \<Rightarrow> (unit, 'a smp_st_scheme) outcome" where
  "sched h l st swtch s =
     (if \<not> holding h l s then Panic ''sched p->lock''
      else if c_noff (cpus s h) \<noteq> 1 then Panic ''sched locks''
      else if st = RUNNING then Panic ''sched running''
      else if intr_get h s \<noteq> 0 then Panic ''sched interruptible''
      else let intena = c_intena (cpus s h); s = swtch s
           in Ret () (upd_cpu h (\<lambda>c. c\<lparr>c_intena := intena\<rparr>) s))"

section \<open>Any number of processors\<close>

text \<open>
  Where a processor is inside a lock routine, cut at the accesses to the lock in shared memory:
  the two reads of \<^verbatim>\<open>holding\<close>, the atomic swap, and the stores to \<^verbatim>\<open>cpu\<close> and \<^verbatim>\<open>locked\<close>.
\<close>

datatype pc =
    Running
  | AcqLocked nat | AcqOwner nat | Spin nat | Got nat
  | RelLocked nat | RelOwner nat | RelClear nat | RelUnlock nat | RelPop nat
  | Halted string

text \<open>
  \<open>held\<close> and \<open>pushes\<close> are bookkeeping for the statements: the locks a processor has acquired and
  not begun to give back, and its calls of \<^verbatim>\<open>push_off\<close> that wait for their \<^verbatim>\<open>pop_off\<close>. No step
  looks at them.
\<close>

record smp_run = smp_st +
  pcs :: "nat \<Rightarrow> pc"
  held :: "nat \<Rightarrow> nat set"
  pushes :: "nat \<Rightarrow> nat"

definition goto :: "nat \<Rightarrow> pc \<Rightarrow> smp_run \<Rightarrow> smp_run" where
  "goto h p s = s\<lparr>pcs := (pcs s)(h := p)\<rparr>"

definition set_held :: "nat \<Rightarrow> nat set \<Rightarrow> smp_run \<Rightarrow> smp_run" where
  "set_held h L s = s\<lparr>held := (held s)(h := L)\<rparr>"

definition set_pushes :: "nat \<Rightarrow> nat \<Rightarrow> smp_run \<Rightarrow> smp_run" where
  "set_pushes h n s = s\<lparr>pushes := (pushes s)(h := n)\<rparr>"

definition popped :: "nat \<Rightarrow> (unit, smp_run) outcome \<Rightarrow> smp_run \<Rightarrow> smp_run" where
  "popped h r s = (case r of Ret _ s' \<Rightarrow> goto h Running s' | Panic m \<Rightarrow> goto h (Halted m) s | _ \<Rightarrow> s)"

text \<open>The next access of a processor that is inside a lock routine.\<close>

definition next_access :: "nat \<Rightarrow> smp_run \<Rightarrow> smp_run" where
  "next_access h s = (case pcs s h of
      Running \<Rightarrow> s
    | AcqLocked l \<Rightarrow> goto h (if lk_locked (locks s l) \<noteq> 0 then AcqOwner l else Spin l) s
    | AcqOwner l \<Rightarrow> goto h (if lk_cpu (locks s l) = Some h then Halted ''acquire'' else Spin l) s
    | Spin l \<Rightarrow> goto h (if lk_locked (locks s l) \<noteq> 0 then Spin l else Got l)
                  (upd_lock l (\<lambda>lk. lk\<lparr>lk_locked := 1\<rparr>) s)
    | Got l \<Rightarrow> goto h Running (set_held h (insert l (held s h))
                  (upd_lock l (\<lambda>lk. lk\<lparr>lk_cpu := Some h\<rparr>) s))
    | RelLocked l \<Rightarrow> goto h (if lk_locked (locks s l) \<noteq> 0 then RelOwner l else Halted ''release'') s
    | RelOwner l \<Rightarrow> goto h (if lk_cpu (locks s l) = Some h then RelClear l else Halted ''release'') s
    | RelClear l \<Rightarrow> goto h (RelUnlock l) (set_held h (held s h - {l})
                  (upd_lock l (\<lambda>lk. lk\<lparr>lk_cpu := None\<rparr>) s))
    | RelUnlock l \<Rightarrow> goto h (RelPop l) (upd_lock l (\<lambda>lk. lk\<lparr>lk_locked := 0\<rparr>) s)
    | RelPop l \<Rightarrow> popped h (pop_off h s) s
    | Halted m \<Rightarrow> s)"

text \<open>What the code around the locks can call.\<close>

datatype act = Acquire nat | Release nat | PushOff | PopOff | IntrOn | IntrOff

definition begin_act :: "nat \<Rightarrow> act \<Rightarrow> smp_run \<Rightarrow> smp_run" where
  "begin_act h a s = (case a of
      Acquire l \<Rightarrow> goto h (AcqLocked l) (push_off h s)
    | Release l \<Rightarrow> goto h (RelLocked l) s
    | PushOff \<Rightarrow> set_pushes h (pushes s h + 1) (push_off h s)
    | PopOff \<Rightarrow> set_pushes h (pushes s h - 1) (popped h (pop_off h s) s)
    | IntrOn \<Rightarrow> intr_on h s
    | IntrOff \<Rightarrow> intr_off h s)"

text \<open>The calls that keep to the rules the kernel follows.\<close>

fun obeys :: "nat \<Rightarrow> act \<Rightarrow> smp_run \<Rightarrow> bool" where
  "obeys h (Acquire l) s \<longleftrightarrow> l \<notin> held s h"
| "obeys h (Release l) s \<longleftrightarrow> l \<in> held s h"
| "obeys h PopOff s \<longleftrightarrow> 0 < pushes s h"
| "obeys h IntrOn s \<longleftrightarrow> held s h = {} \<and> pushes s h = 0"
| "obeys h _ s \<longleftrightarrow> True"

definition smp_boot :: smp_run where
  "smp_boot = \<lparr>locks = (\<lambda>l. \<lparr>lk_locked = 0, lk_name = [], lk_cpu = None\<rparr>),
     cpus = (\<lambda>h. \<lparr>c_noff = 0, c_intena = 0\<rparr>), sstatus = (\<lambda>h. 0),
     pcs = (\<lambda>h. Running), held = (\<lambda>h. {}), pushes = (\<lambda>h. 0)\<rparr>"

text \<open>Runs: in the first relation the code calls what it likes, in the second it keeps to the rules.\<close>

inductive smp_reach :: "smp_run \<Rightarrow> bool" where
  boot: "smp_reach smp_boot"
| next_access: "smp_reach s \<Longrightarrow> smp_reach (next_access h s)"
| call: "smp_reach s \<Longrightarrow> pcs s h = Running \<Longrightarrow> smp_reach (begin_act h a s)"

inductive smp_obey :: "smp_run \<Rightarrow> bool" where
  boot: "smp_obey smp_boot"
| next_access: "smp_obey s \<Longrightarrow> smp_obey (next_access h s)"
| call: "smp_obey s \<Longrightarrow> pcs s h = Running \<Longrightarrow> obeys h a s \<Longrightarrow> smp_obey (begin_act h a s)"

section \<open>Mutual exclusion\<close>

lemma SIE_off [simp]: "(x AND NOT SSTATUS_SIE) AND SSTATUS_SIE = 0"
  by (simp add: and.assoc)

lemma SIE_on [simp]: "(x OR SSTATUS_SIE) AND SSTATUS_SIE \<noteq> 0"
  by (simp add: bit.conj_disj_distrib2 SSTATUS_SIE_def and.commute [of x])

lemmas smp_defs = upd_lock_def upd_cpu_def w_sstatus_def goto_def set_held_def set_pushes_def

lemma push_off_frame [simp]:
  "locks (push_off h s) = locks s" "pcs (push_off h r) = pcs r" "held (push_off h r) = held r"
  "pushes (push_off h r) = pushes r"
  by (simp_all add: push_off_def intr_off_def smp_defs Let_def)

lemma intr_frame [simp]:
  "locks (intr_on h s) = locks s" "pcs (intr_on h r) = pcs r" "held (intr_on h r) = held r"
  "pushes (intr_on h r) = pushes r" "cpus (intr_on h s) = cpus s"
  "locks (intr_off h s) = locks s" "pcs (intr_off h r) = pcs r" "held (intr_off h r) = held r"
  "pushes (intr_off h r) = pushes r" "cpus (intr_off h s) = cpus s"
  by (simp_all add: intr_on_def intr_off_def smp_defs)

text \<open>A processor owns a lock from its successful swap to the store that frees it.\<close>

definition owns :: "smp_run \<Rightarrow> nat \<Rightarrow> nat \<Rightarrow> bool" where
  "owns s h l \<longleftrightarrow> l \<in> held s h \<or> pcs s h = Got l \<or> pcs s h = RelUnlock l"

definition lock_inv :: "smp_run \<Rightarrow> bool" where
  "lock_inv s \<longleftrightarrow>
     (\<forall>l h. lk_cpu (locks s l) = Some h \<longleftrightarrow> l \<in> held s h) \<and>
     (\<forall>l. lk_locked (locks s l) \<noteq> 0 \<longleftrightarrow> (\<exists>h. owns s h l)) \<and>
     (\<forall>l h h'. owns s h l \<longrightarrow> owns s h' l \<longrightarrow> h = h') \<and>
     (\<forall>h l. pcs s h = RelClear l \<longrightarrow> l \<in> held s h) \<and>
     (\<forall>h l. pcs s h = Got l \<or> pcs s h = RelUnlock l \<longrightarrow> l \<notin> held s h)"

lemma lock_invI:
  assumes "\<And>l h. lk_cpu (locks s l) = Some h \<longleftrightarrow> l \<in> held s h"
    "\<And>l. lk_locked (locks s l) \<noteq> 0 \<longleftrightarrow> (\<exists>h. owns s h l)"
    "\<And>l h h'. owns s h l \<Longrightarrow> owns s h' l \<Longrightarrow> h = h'"
    "\<And>h l. pcs s h = RelClear l \<Longrightarrow> l \<in> held s h"
    "\<And>h l. pcs s h = Got l \<or> pcs s h = RelUnlock l \<Longrightarrow> l \<notin> held s h"
  shows "lock_inv s"
  using assms unfolding lock_inv_def by blast

lemma lock_invD:
  assumes "lock_inv s"
  shows "lk_cpu (locks s l) = Some h \<longleftrightarrow> l \<in> held s h"
    "lk_locked (locks s l) \<noteq> 0 \<longleftrightarrow> (\<exists>h. owns s h l)"
    "owns s h l \<Longrightarrow> owns s h' l \<Longrightarrow> h = h'"
    "pcs s h = RelClear l \<Longrightarrow> l \<in> held s h"
    "pcs s h = Got l \<or> pcs s h = RelUnlock l \<Longrightarrow> l \<notin> held s h"
  using assms unfolding lock_inv_def by blast+

lemma lock_inv_cong:
  assumes "lock_inv s" "locks s' = locks s" "held s' = held s"
    "\<forall>h l. (pcs s' h = Got l) = (pcs s h = Got l)"
    "\<forall>h l. (pcs s' h = RelUnlock l) = (pcs s h = RelUnlock l)"
    "\<forall>h l. pcs s' h = RelClear l \<longrightarrow> l \<in> held s h"
  shows "lock_inv s'"
  using assms by (simp add: lock_inv_def owns_def)

lemma lock_inv_goto:
  assumes "lock_inv s" "\<forall>l. pcs s h \<noteq> Got l \<and> pcs s h \<noteq> RelUnlock l"
    "\<forall>l. p \<noteq> Got l \<and> p \<noteq> RelUnlock l" "\<forall>l. p = RelClear l \<longrightarrow> l \<in> held s h"
  shows "lock_inv (goto h p s)"
  by (rule lock_inv_cong [OF assms(1)]) (use assms in \<open>auto simp: goto_def lock_inv_def\<close>)

lemma pop_off_frame:
  assumes "pop_off h s = Ret u s'"
  shows "locks s' = locks s"
  using assms by (auto simp: pop_off_def smp_defs Let_def split: if_splits)

lemma pop_off_run_frame:
  assumes "pop_off h s = Ret u s'"
  shows "pcs s' = pcs s" "held s' = held s" "pushes s' = pushes s"
  using assms by (auto simp: pop_off_def smp_defs Let_def split: if_splits)

lemma lock_inv_popped:
  assumes "lock_inv s" "\<forall>l. pcs s h \<noteq> Got l \<and> pcs s h \<noteq> RelUnlock l"
  shows "lock_inv (popped h (pop_off h s) s)"
proof (cases "pop_off h s")
  case (Ret u s')
  have "lock_inv s'"
    by (rule lock_inv_cong [OF assms(1)])
      (use assms(1) in \<open>auto simp: pop_off_frame [OF Ret] pop_off_run_frame [OF Ret] lock_inv_def\<close>)
  then show ?thesis
    using assms(2) by (simp add: popped_def Ret lock_inv_goto pop_off_run_frame [OF Ret])
qed (use assms in \<open>auto simp: popped_def intro: lock_inv_goto\<close>)

lemma lock_inv_swap:
  assumes I: "lock_inv s" and p: "pcs s h = Spin l"
  shows "lock_inv (next_access h s)"
proof -
  let ?s = "next_access h s"
  note D = lock_invD [OF I]
  have s: "locks ?s m = (if m = l then (locks s l)\<lparr>lk_locked := 1\<rparr> else locks s m)" "held ?s = held s"
    "pcs ?s k = (if k = h then if lk_locked (locks s l) \<noteq> 0 then Spin l else Got l else pcs s k)" for m k
    using p by (simp_all add: next_access_def smp_defs)
  have owns: "owns ?s k m = (if m = l \<and> lk_locked (locks s l) = 0 then k = h else owns s k m)" for k m
  proof -
    have "lk_locked (locks s l) = 0 \<Longrightarrow> \<not> owns s k l" using D(2) [of l] by blast
    then show ?thesis using p by (cases "k = h"; cases "m = l") (simp_all add: owns_def s)
  qed
  show ?thesis
  proof (rule lock_invI)
    show "lk_cpu (locks ?s m) = Some k \<longleftrightarrow> m \<in> held ?s k" for m k using D(1) [of m k] by (cases "m = l") (simp_all add: s)
    show "lk_locked (locks ?s m) \<noteq> 0 \<longleftrightarrow> (\<exists>k. owns ?s k m)" for m
      using D(2) [of m] by (cases "m = l \<and> lk_locked (locks s l) = 0") (auto simp: s owns)
    show "owns ?s k m \<Longrightarrow> owns ?s k' m \<Longrightarrow> k = k'" for m k k'
      using D(3) [of k m k'] by (simp add: owns split: if_splits)
    show "pcs ?s k = RelClear m \<Longrightarrow> m \<in> held ?s k" for k m using D(4) [of k m] by (simp add: s split: if_splits)
    show "pcs ?s k = Got m \<or> pcs ?s k = RelUnlock m \<Longrightarrow> m \<notin> held ?s k" for k m
      using D(5) [of k m] D(2) [of m] by (auto simp: s owns_def split: if_splits)
  qed
qed

lemma lock_inv_got:
  assumes I: "lock_inv s" and p: "pcs s h = Got l"
  shows "lock_inv (next_access h s)"
proof -
  let ?s = "next_access h s"
  note D = lock_invD [OF I]
  have s: "locks ?s m = (if m = l then (locks s l)\<lparr>lk_cpu := Some h\<rparr> else locks s m)"
    "held ?s k = (if k = h then insert l (held s h) else held s k)"
    "pcs ?s k = (if k = h then Running else pcs s k)" for m k
    using p by (simp_all add: next_access_def smp_defs)
  have owns: "owns ?s k m = owns s k m" for k m using p by (auto simp: owns_def s)
  have uniq: "owns s k l \<Longrightarrow> k = h" for k using D(3) [of k l h] p by (simp add: owns_def)
  show ?thesis
  proof (rule lock_invI)
    show "lk_cpu (locks ?s m) = Some k \<longleftrightarrow> m \<in> held ?s k" for m k
    proof -
      have "k \<noteq> h \<Longrightarrow> l \<notin> held s k" using uniq by (auto simp: owns_def)
      then show ?thesis using D(1) [of m k] by (cases "k = h"; cases "m = l") (simp_all add: s)
    qed
    show "lk_locked (locks ?s m) \<noteq> 0 \<longleftrightarrow> (\<exists>k. owns ?s k m)" for m using D(2) [of m] by (cases "m = l") (simp_all add: s owns)
    show "owns ?s k m \<Longrightarrow> owns ?s k' m \<Longrightarrow> k = k'" for m k k' using D(3) [of k m k'] by (simp add: owns)
    show "pcs ?s k = RelClear m \<Longrightarrow> m \<in> held ?s k" for k m using D(4) [of k m] by (simp add: s split: if_splits)
    show "pcs ?s k = Got m \<or> pcs ?s k = RelUnlock m \<Longrightarrow> m \<notin> held ?s k" for k m
      using D(5) [of k m] by (simp add: s split: if_splits)
  qed
qed

lemma lock_inv_clear:
  assumes I: "lock_inv s" and p: "pcs s h = RelClear l"
  shows "lock_inv (next_access h s)"
proof -
  let ?s = "next_access h s"
  note D = lock_invD [OF I]
  have l: "l \<in> held s h" using D(4) p .
  have s: "locks ?s m = (if m = l then (locks s l)\<lparr>lk_cpu := None\<rparr> else locks s m)"
    "held ?s k = (if k = h then held s h - {l} else held s k)"
    "pcs ?s k = (if k = h then RelUnlock l else pcs s k)" for m k
    using p by (simp_all add: next_access_def smp_defs)
  have owns: "owns ?s k m = owns s k m" for k m using p l by (auto simp: owns_def s)
  have uniq: "owns s k l \<Longrightarrow> k = h" for k using D(3) [of k l h] l by (simp add: owns_def)
  show ?thesis
  proof (rule lock_invI)
    show "lk_cpu (locks ?s m) = Some k \<longleftrightarrow> m \<in> held ?s k" for m k
    proof -
      have "k \<noteq> h \<Longrightarrow> l \<notin> held s k" using uniq by (auto simp: owns_def)
      then show ?thesis using D(1) [of m k] by (cases "k = h"; cases "m = l") (simp_all add: s)
    qed
    show "lk_locked (locks ?s m) \<noteq> 0 \<longleftrightarrow> (\<exists>k. owns ?s k m)" for m using D(2) [of m] by (cases "m = l") (simp_all add: s owns)
    show "owns ?s k m \<Longrightarrow> owns ?s k' m \<Longrightarrow> k = k'" for m k k' using D(3) [of k m k'] by (simp add: owns)
    show "pcs ?s k = RelClear m \<Longrightarrow> m \<in> held ?s k" for k m using D(4) [of k m] by (simp add: s split: if_splits)
    show "pcs ?s k = Got m \<or> pcs ?s k = RelUnlock m \<Longrightarrow> m \<notin> held ?s k" for k m
      using D(5) [of k m] by (auto simp: s split: if_splits)
  qed
qed

lemma lock_inv_unlock:
  assumes I: "lock_inv s" and p: "pcs s h = RelUnlock l"
  shows "lock_inv (next_access h s)"
proof -
  let ?s = "next_access h s"
  note D = lock_invD [OF I]
  have s: "locks ?s m = (if m = l then (locks s l)\<lparr>lk_locked := 0\<rparr> else locks s m)" "held ?s = held s"
    "pcs ?s k = (if k = h then RelPop l else pcs s k)" for m k
    using p by (simp_all add: next_access_def smp_defs)
  have uniq: "owns s k l \<Longrightarrow> k = h" for k using D(3) [of k l h] p by (simp add: owns_def)
  have owns: "owns ?s k m = (m \<noteq> l \<and> owns s k m)" for k m
  proof (cases "k = h")
    case True
    then show ?thesis using D(5) [of h l] p by (auto simp: owns_def s)
  next
    case False
    then have "\<not> owns s k l" using uniq by blast
    then show ?thesis using False by (cases "m = l") (simp_all add: owns_def s)
  qed
  show ?thesis
  proof (rule lock_invI)
    show "lk_cpu (locks ?s m) = Some k \<longleftrightarrow> m \<in> held ?s k" for m k using D(1) [of m k] by (cases "m = l") (simp_all add: s)
    show "lk_locked (locks ?s m) \<noteq> 0 \<longleftrightarrow> (\<exists>k. owns ?s k m)" for m using D(2) [of m] by (cases "m = l") (simp_all add: s owns)
    show "owns ?s k m \<Longrightarrow> owns ?s k' m \<Longrightarrow> k = k'" for m k k' using D(3) [of k m k'] by (simp add: owns)
    show "pcs ?s k = RelClear m \<Longrightarrow> m \<in> held ?s k" for k m using D(4) [of k m] by (simp add: s split: if_splits)
    show "pcs ?s k = Got m \<or> pcs ?s k = RelUnlock m \<Longrightarrow> m \<notin> held ?s k" for k m
      using D(5) [of k m] by (simp add: s split: if_splits)
  qed
qed

lemma lock_inv_next_access:
  assumes I: "lock_inv s"
  shows "lock_inv (next_access h s)"
proof (cases "pcs s h")
  case (Spin l)
  then show ?thesis using I by (simp add: lock_inv_swap)
next
  case (Got l)
  then show ?thesis using I by (simp add: lock_inv_got)
next
  case (RelClear l)
  then show ?thesis using I by (simp add: lock_inv_clear)
next
  case (RelUnlock l)
  then show ?thesis using I by (simp add: lock_inv_unlock)
next
  case (RelPop l)
  then show ?thesis using I by (simp add: next_access_def lock_inv_popped)
next
  case (RelOwner l)
  moreover have "lk_cpu (locks s l) = Some h \<Longrightarrow> l \<in> held s h" using I by (simp add: lock_inv_def)
  ultimately show ?thesis using I by (simp add: next_access_def lock_inv_goto)
qed (use I in \<open>simp_all add: next_access_def lock_inv_goto\<close>)

lemma lock_inv_call:
  assumes I: "lock_inv s" and "pcs s h = Running"
  shows "lock_inv (begin_act h a s)"
proof -
  have G: "lock_inv (goto h p s)" if "\<forall>l. p \<noteq> Got l \<and> p \<noteq> RelUnlock l \<and> p \<noteq> RelClear l" for p
    using assms that by (simp add: lock_inv_goto)
  have P: "lock_inv (popped h (pop_off h s) s)" using assms by (simp add: lock_inv_popped)
  show ?thesis
  proof (cases a)
    case (Acquire l)
    have g: "lock_inv (goto h (AcqLocked l) s)" by (rule G) simp
    have "begin_act h a s = goto h (AcqLocked l) (push_off h s)" by (simp add: begin_act_def Acquire)
    moreover have "lock_inv (goto h (AcqLocked l) (push_off h s))"
      by (rule lock_inv_cong [OF g]) (simp_all add: goto_def lock_invD(4) [OF I])
    ultimately show ?thesis by simp
  next
    case (Release l)
    then show ?thesis using G [of "RelLocked l"] by (simp add: begin_act_def)
  next
    case PopOff
    then show ?thesis using P by (simp add: begin_act_def lock_inv_def owns_def set_pushes_def)
  qed (use I in \<open>simp_all add: begin_act_def lock_inv_def owns_def set_pushes_def\<close>)
qed

lemma lock_inv_reach: "smp_reach s \<Longrightarrow> lock_inv s"
proof (induction rule: smp_reach.induct)
  case boot
  show ?case by (simp add: lock_inv_def smp_boot_def owns_def)
qed (simp_all add: lock_inv_next_access lock_inv_call)

section \<open>Interrupts stay off inside\<close>

text \<open>How much of \<^verbatim>\<open>noff\<close> a lock routine that is under way accounts for.\<close>

fun inside :: "pc \<Rightarrow> nat" where
  "inside (AcqLocked l) = 1" | "inside (AcqOwner l) = 1" | "inside (Spin l) = 1" | "inside (Got l) = 1"
| "inside (RelUnlock l) = 1" | "inside (RelPop l) = 1" | "inside _ = 0"

fun pc_ok :: "pc \<Rightarrow> nat set \<Rightarrow> bool" where
  "pc_ok (AcqLocked l) L \<longleftrightarrow> l \<notin> L" | "pc_ok (AcqOwner l) L \<longleftrightarrow> l \<notin> L" | "pc_ok (Spin l) L \<longleftrightarrow> l \<notin> L"
| "pc_ok (Got l) L \<longleftrightarrow> l \<notin> L" | "pc_ok (RelLocked l) L \<longleftrightarrow> l \<in> L" | "pc_ok (RelOwner l) L \<longleftrightarrow> l \<in> L"
| "pc_ok (RelClear l) L \<longleftrightarrow> l \<in> L" | "pc_ok (Halted m) L \<longleftrightarrow> False" | "pc_ok _ L \<longleftrightarrow> True"

definition calm :: "nat \<Rightarrow> smp_run \<Rightarrow> bool" where
  "calm h s \<longleftrightarrow> finite (held s h) \<and> pc_ok (pcs s h) (held s h)
     \<and> c_noff (cpus s h) = int (card (held s h) + pushes s h + inside (pcs s h))
     \<and> (0 < c_noff (cpus s h) \<longrightarrow> intr_get h s = 0)"

lemma push_off_own [simp]:
  "c_noff (cpus (push_off h s) h) = c_noff (cpus s h) + 1" "intr_get h (push_off h s) = 0"
  "sstatus (push_off h s) h AND SSTATUS_SIE = 0"
  by (simp_all add: push_off_def intr_off_def intr_get_def smp_defs Let_def)

lemma pop_off_Ret:
  assumes "intr_get h s = 0" "0 < c_noff (cpus s h)"
  obtains s' where "pop_off h s = Ret () s'" "c_noff (cpus s' h) = c_noff (cpus s h) - 1"
    "0 < c_noff (cpus s' h) \<longrightarrow> intr_get h s' = 0"
  using assms by (auto simp: pop_off_def Let_def upd_cpu_def intr_get_def)

lemma pop_off_other:
  assumes "pop_off h s = Ret u s'" "k \<noteq> h"
  shows "cpus s' k = cpus s k" "sstatus s' k = sstatus s k"
  using assms by (auto simp: pop_off_def Let_def smp_defs intr_on_def split: if_splits)

lemma push_off_other [simp]:
  assumes "k \<noteq> h"
  shows "cpus (push_off h s) k = cpus s k" "sstatus (push_off h s) k = sstatus s k"
  using assms by (auto simp: push_off_def Let_def smp_defs intr_off_def)

text \<open>A step of one processor leaves the others as they are.\<close>

lemma calm_cong:
  assumes "cpus s' k = cpus s k" "sstatus s' k = sstatus s k" "pcs s' k = pcs s k"
    "held s' k = held s k" "pushes s' k = pushes s k"
  shows "calm k s' = calm k s"
  using assms by (simp add: calm_def intr_get_def)

lemma popped_other:
  assumes "k \<noteq> h"
  shows "calm k (popped h (pop_off h s) s) = calm k s"
proof (cases "pop_off h s")
  case (Ret u s')
  then show ?thesis
    using assms pop_off_other [OF Ret assms] pop_off_run_frame [OF Ret]
    by (intro calm_cong) (simp_all add: popped_def goto_def)
qed (use assms in \<open>simp_all add: popped_def goto_def calm_def intr_get_def\<close>)

lemma next_access_other:
  assumes "k \<noteq> h"
  shows "calm k (next_access h s) = calm k s"
proof (cases "pcs s h")
  case (RelPop l)
  then show ?thesis using assms by (simp add: next_access_def popped_other)
qed (rule calm_cong; use assms in \<open>simp add: next_access_def smp_defs\<close>)+

lemma call_other:
  assumes "k \<noteq> h"
  shows "calm k (begin_act h a s) = calm k s"
proof (cases a)
  case PopOff
  have "calm k (begin_act h a s) = calm k (popped h (pop_off h s) s)"
    using assms by (intro calm_cong) (simp_all add: begin_act_def PopOff set_pushes_def)
  then show ?thesis using assms by (simp add: popped_other)
qed (rule calm_cong; use assms in \<open>simp add: begin_act_def smp_defs intr_on_def intr_off_def\<close>)+

lemma popped_calm:
  assumes "finite (held s h)" "0 < c_noff (cpus s h)" "intr_get h s = 0"
    "c_noff (cpus s h) = int (card (held s h) + n + 1)"
  shows "finite (held (popped h (pop_off h s) s) h) \<and> pcs (popped h (pop_off h s) s) h = Running
    \<and> held (popped h (pop_off h s) s) = held s \<and> pushes (popped h (pop_off h s) s) = pushes s
    \<and> c_noff (cpus (popped h (pop_off h s) s) h) = int (card (held s h) + n)
    \<and> (0 < c_noff (cpus (popped h (pop_off h s) s) h) \<longrightarrow> intr_get h (popped h (pop_off h s) s) = 0)"
proof -
  obtain s' where s': "pop_off h s = Ret () s'" "c_noff (cpus s' h) = c_noff (cpus s h) - 1"
    "0 < c_noff (cpus s' h) \<longrightarrow> intr_get h s' = 0"
    using assms(3,2) by (rule pop_off_Ret)
  show ?thesis
    using assms s'(2,3) pop_off_run_frame [OF s'(1)]
    by (simp add: popped_def s'(1) goto_def intr_get_def)
qed

lemma calm_next_access:
  assumes I: "lock_inv s" and C: "calm h s"
  shows "calm h (next_access h s)"
proof (cases "pcs s h")
  case (RelPop l)
  have "finite (held s h)" "0 < c_noff (cpus s h)" "intr_get h s = 0"
    "c_noff (cpus s h) = int (card (held s h) + pushes s h + 1)"
    using C by (simp_all add: calm_def RelPop)
  from popped_calm [OF this] show ?thesis using C by (simp add: next_access_def RelPop calm_def)
next
  case (AcqOwner l)
  then show ?thesis using C lock_invD(1) [OF I, of l h] by (simp add: next_access_def calm_def smp_defs intr_get_def)
next
  case (RelLocked l)
  then have "l \<in> held s h" using C by (simp add: calm_def)
  then have "lk_locked (locks s l) \<noteq> 0" using lock_invD(2) [OF I, of l] by (auto simp: owns_def)
  then show ?thesis using C by (simp add: next_access_def calm_def smp_defs intr_get_def RelLocked)
next
  case (RelOwner l)
  then show ?thesis using C lock_invD(1) [OF I, of l h] by (simp add: next_access_def calm_def smp_defs intr_get_def)
next
  case (RelClear l)
  then have "l \<in> held s h" "finite (held s h)" using C by (simp_all add: calm_def)
  then have "card (held s h) = card (held s h - {l}) + 1"
    by (metis card_Suc_Diff1 Suc_eq_plus1)
  then show ?thesis using C by (simp add: next_access_def calm_def smp_defs intr_get_def RelClear)
qed (use C in \<open>simp_all add: next_access_def calm_def smp_defs intr_get_def\<close>)

lemma calm_call:
  assumes C: "calm h s" and r: "pcs s h = Running" and ok: "obeys h a s"
  shows "calm h (begin_act h a s)"
proof (cases a)
  case (Acquire l)
  then show ?thesis using C r ok by (simp add: begin_act_def calm_def goto_def intr_get_def)
next
  case PopOff
  then have "0 < pushes s h" using ok by simp
  then have "finite (held s h)" "0 < c_noff (cpus s h)" "intr_get h s = 0"
    "c_noff (cpus s h) = int (card (held s h) + (pushes s h - 1) + 1)"
    using C r by (simp_all add: calm_def)
  from popped_calm [OF this] show ?thesis
    using C by (simp add: begin_act_def PopOff calm_def set_pushes_def intr_get_def)
qed (use C r ok in \<open>simp_all add: begin_act_def calm_def goto_def set_pushes_def intr_get_def intr_on_def intr_off_def w_sstatus_def\<close>)

lemma obey_reach: "smp_obey s \<Longrightarrow> smp_reach s"
  by (induction rule: smp_obey.induct) (auto intro: smp_reach.intros)

lemma obey_calm: "smp_obey s \<Longrightarrow> calm h s"
proof (induction rule: smp_obey.induct)
  case boot
  show ?case by (simp add: calm_def smp_boot_def)
next
  case (next_access s k)
  then show ?case
    using calm_next_access [OF lock_inv_reach [OF obey_reach [OF next_access(1)]]] by (cases "h = k") (simp_all add: next_access_other)
next
  case (call s k a)
  then show ?case by (cases "h = k") (simp_all add: call_other calm_call)
qed

text \<open>A run in which processor 2 has lock 3, on which processor 0 spins.\<close>

definition demo_has :: smp_run where
  "demo_has = next_access 2 (next_access 2 (next_access 2 (begin_act 2 (Acquire 3) (begin_act 2 IntrOn smp_boot))))"

definition demo_smp :: smp_run where
  "demo_smp = next_access 0 (next_access 0 (begin_act 0 (Acquire 3) demo_has))"

lemmas step_simps = next_access_def begin_act_def push_off_def intr_get_def intr_off_def intr_on_def smp_defs Let_def

lemma demo_has_obey: "smp_obey demo_has"
proof -
  have "smp_obey (begin_act 2 IntrOn smp_boot)"
    by (intro smp_obey.call smp_obey.boot) (simp_all add: smp_boot_def)
  then have "smp_obey (begin_act 2 (Acquire 3) (begin_act 2 IntrOn smp_boot))"
    by (rule smp_obey.call) (simp_all add: begin_act_def smp_boot_def)
  then show ?thesis unfolding demo_has_def by (intro smp_obey.next_access)
qed

lemma demo_has_state:
  "held demo_has = (\<lambda>h. {})(2 := {3})" "pcs demo_has = (\<lambda>h. Running)(2 := Running)"
  "locks demo_has 3 = \<lparr>lk_locked = 1, lk_name = [], lk_cpu = Some 2\<rparr>" "lk_locked (locks demo_has 5) = 0"
  "cpus demo_has = (\<lambda>h. \<lparr>c_noff = 0, c_intena = 0\<rparr>)(2 := \<lparr>c_noff = 1, c_intena = 1\<rparr>)"
  "sstatus demo_has 2 AND SSTATUS_SIE = 0"
  by (simp_all add: demo_has_def step_simps smp_boot_def SSTATUS_SIE_def)

lemma demo_smp_obey: "smp_obey demo_smp"
  unfolding demo_smp_def
  by (intro smp_obey.next_access smp_obey.call demo_has_obey) (simp_all add: demo_has_state)

lemma demo_smp_state:
  "held demo_smp 2 = {3}" "pcs demo_smp 2 = Running" "pcs demo_smp 0 = Spin 3" "held demo_smp 0 = {}"
  by (simp_all add: demo_smp_def next_access_def begin_act_def demo_has_state goto_def)

text \<open>
  C5: mutual exclusion. Whatever the processors do and however their memory accesses interleave,
  from the swap that takes a lock to the store that frees it no other processor owns that lock,
  the lock word is non-zero, and \<^verbatim>\<open>holding\<close> is true exactly on the processor that has it.
\<close>
theorem mutual_exclusion:
  assumes "smp_reach s"
  shows "(owns s h l \<and> owns s h' l \<longrightarrow> h = h') \<and> (owns s h l \<longrightarrow> lk_locked (locks s l) \<noteq> 0)
    \<and> (holding h l s \<longleftrightarrow> l \<in> held s h)"
proof -
  note D = lock_invD [OF lock_inv_reach [OF assms]]
  have "l \<in> held s h \<Longrightarrow> lk_locked (locks s l) \<noteq> 0" using D(2) by (auto simp: owns_def)
  then have "holding h l s \<longleftrightarrow> l \<in> held s h" using D(1) [of l h] by (auto simp: holding_def)
  moreover have "owns s h l \<longrightarrow> lk_locked (locks s l) \<noteq> 0" using D(2) [of l] by blast
  moreover have "owns s h l \<and> owns s h' l \<longrightarrow> h = h'" using D(3) by blast
  ultimately show ?thesis by blast
qed

theorem mutual_exclusion_witness: "owns demo_smp 2 3 \<and> \<not> owns demo_smp 0 3 \<and> \<not> holding 0 3 demo_smp"
proof -
  have o: "owns demo_smp 2 3" by (simp add: owns_def demo_smp_state)
  have "\<not> owns demo_smp 0 3"
    using mutual_exclusion [OF obey_reach [OF demo_smp_obey], of 0 3 2] o by auto
  moreover have "\<not> holding 0 3 demo_smp"
    using mutual_exclusion [OF obey_reach [OF demo_smp_obey], of 0 3 2] by (simp add: demo_smp_state)
  ultimately show ?thesis using o by simp
qed

text \<open>
  C6: a processor that keeps to the rules (it acquires only what it does not have, releases only
  what it has, pairs \<^verbatim>\<open>push_off\<close> with \<^verbatim>\<open>pop_off\<close> and enables interrupts only outside) never panics in
  the lock routines, and its interrupts are off from the moment it begins to spin until it has
  given back its last lock: an interrupt handler cannot find a lock taken by its own processor.
\<close>
theorem locks_keep_interrupts_off:
  assumes "smp_obey s"
  shows "(\<forall>m. pcs s h \<noteq> Halted m)
    \<and> (owns s h l \<or> pcs s h = Spin l \<longrightarrow> intr_get h s = 0 \<and> 0 < c_noff (cpus s h))"
proof -
  have C: "calm h s" using assms by (rule obey_calm)
  then have "pcs s h \<noteq> Halted m" for m by (auto simp: calm_def)
  moreover have "0 < c_noff (cpus s h)" if "owns s h l \<or> pcs s h = Spin l"
  proof (cases "l \<in> held s h")
    case True
    then have "0 < card (held s h)" using C card_gt_0_iff by (auto simp: calm_def)
    then show ?thesis using C by (simp add: calm_def)
  next
    case False
    then have "inside (pcs s h) = 1" using that by (auto simp: owns_def)
    then show ?thesis using C by (simp add: calm_def)
  qed
  moreover have "0 < c_noff (cpus s h) \<longrightarrow> intr_get h s = 0" using C by (simp add: calm_def)
  ultimately show ?thesis by blast
qed

theorem locks_keep_interrupts_off_witness:
  "intr_get 2 demo_smp = 0 \<and> intr_get 0 demo_smp = 0 \<and> pcs demo_smp 0 \<noteq> Halted ''acquire''"
proof -
  have "intr_get 2 demo_smp = 0"
    using locks_keep_interrupts_off [OF demo_smp_obey, of 2 3] by (simp add: owns_def demo_smp_state)
  moreover have "intr_get 0 demo_smp = 0 \<and> pcs demo_smp 0 \<noteq> Halted ''acquire''"
    using locks_keep_interrupts_off [OF demo_smp_obey, of 0 3] by (simp add: demo_smp_state)
  ultimately show ?thesis by simp
qed

section \<open>The routines are their steps\<close>

text \<open>
  With nobody else on the lock, the accesses of \<^verbatim>\<open>acquire\<close> and \<^verbatim>\<open>release\<close> one after the other are
  the operations of the first part.
\<close>

lemma acquire_steps:
  assumes "acquire h l s = Ret () s'"
  shows "next_access h (next_access h (next_access h (begin_act h (Acquire l) s)))
    = set_held h (insert l (held s h)) (goto h Running s')"
proof -
  have f: "lk_locked (locks s l) = 0" and s': "s' = upd_lock l (\<lambda>lk. lk\<lparr>lk_cpu := Some h\<rparr>)
      (upd_lock l (\<lambda>lk. lk\<lparr>lk_locked := 1\<rparr>) (push_off h s))"
    using assms by (auto simp: acquire_def Let_def split: if_splits)
  show ?thesis unfolding s' by (simp add: begin_act_def next_access_def smp_defs f)
qed

lemma release_steps:
  assumes "release h l s = Ret () s'"
  shows "pcs (((next_access h) ^^ 5) (begin_act h (Release l) s)) h = Running
    \<and> locks (((next_access h) ^^ 5) (begin_act h (Release l) s)) = locks s'
    \<and> cpus (((next_access h) ^^ 5) (begin_act h (Release l) s)) = cpus s'
    \<and> sstatus (((next_access h) ^^ 5) (begin_act h (Release l) s)) = sstatus s'"
proof -
  have f: "lk_locked (locks s l) \<noteq> 0" "lk_cpu (locks s l) = Some h"
    and p: "pop_off h (upd_lock l (\<lambda>lk. lk\<lparr>lk_locked := 0\<rparr>) (upd_lock l (\<lambda>lk. lk\<lparr>lk_cpu := None\<rparr>) s)) = Ret () s'"
    using assms by (auto simp: release_def holding_def split: if_splits)
  let ?u = "goto h (RelUnlock l) (set_held h (held s h - {l}) (upd_lock l (\<lambda>lk. lk\<lparr>lk_cpu := None\<rparr>) (goto h (RelClear l) s)))"
  let ?t = "goto h (RelPop l) (upd_lock l (\<lambda>lk. lk\<lparr>lk_locked := 0\<rparr>) ?u)"
  have 1: "next_access h (begin_act h (Release l) s) = goto h (RelOwner l) s"
    using f by (simp add: begin_act_def next_access_def smp_defs)
  have 2: "next_access h (goto h (RelOwner l) s) = goto h (RelClear l) s"
    using f by (simp add: next_access_def smp_defs)
  have 3: "next_access h (goto h (RelClear l) s) = ?u" by (simp add: next_access_def goto_def)
  have 4: "next_access h ?u = ?t" by (simp add: next_access_def goto_def)
  have 5: "next_access h ?t = popped h (pop_off h ?t) ?t" by (simp add: next_access_def goto_def)
  have "((next_access h) ^^ 5) (begin_act h (Release l) s) = next_access h (next_access h (next_access h (next_access h (next_access h (begin_act h (Release l) s)))))"
    by (simp add: eval_nat_numeral)
  then have "((next_access h) ^^ 5) (begin_act h (Release l) s) = popped h (pop_off h ?t) ?t"
    by (simp only: 1 2 3 4 5)
  moreover have "\<exists>t'. pop_off h ?t = Ret () t' \<and> locks t' = locks s' \<and> cpus t' = cpus s' \<and> sstatus t' = sstatus s'"
    using p by (auto simp: pop_off_def Let_def smp_defs intr_get_def intr_on_def split: if_splits)
  ultimately show ?thesis by (auto simp: popped_def goto_def)
qed

section \<open>Giving up the processor\<close>

text \<open>
  C7: going to sleep. \<^verbatim>\<open>sleep\<close> takes the lock \<open>p\<close> of its process, gives back the lock \<open>lk\<close> it was
  called with and calls \<^verbatim>\<open>sched\<close>. If \<open>lk\<close> was the only lock of the processor, \<^verbatim>\<open>sched\<close> accepts and
  the interrupt setting saved by the first \<^verbatim>\<open>push_off\<close> survives the switch; with any other lock
  held it panics, so no process sleeps holding a second spin lock.
\<close>
theorem sleep_needs_one_lock:
  assumes "holding h lk s" "lk_locked (locks s p) = 0" "p \<noteq> lk" "intr_get h s = 0"
    "0 < c_noff (cpus s h)" "st \<noteq> RUNNING"
  shows "\<exists>t. holding h p t \<and> \<not> holding h lk t \<and> c_noff (cpus t h) = c_noff (cpus s h) \<and> intr_get h t = 0
    \<and> bindK (acquire h p s) (\<lambda>_ s. bindK (release h lk s) (\<lambda>_. sched h p st swtch))
      = (if c_noff (cpus s h) = 1
         then Ret () (upd_cpu h (\<lambda>c. c\<lparr>c_intena := c_intena (cpus s h)\<rparr>) (swtch t))
         else Panic ''sched locks'')"
proof -
  let ?a = "upd_lock p (\<lambda>lk. lk\<lparr>lk_cpu := Some h\<rparr>) (upd_lock p (\<lambda>lk. lk\<lparr>lk_locked := 1\<rparr>) (push_off h s))"
  let ?t = "upd_cpu h (\<lambda>c. c\<lparr>c_noff := c_noff c - 1\<rparr>)
    (upd_lock lk (\<lambda>lk. lk\<lparr>lk_locked := 0\<rparr>) (upd_lock lk (\<lambda>lk. lk\<lparr>lk_cpu := None\<rparr>) ?a))"
  have a: "acquire h p s = Ret () ?a" using assms(2) by (simp add: acquire_def Let_def holding_def)
  have r: "release h lk ?a = Ret () ?t"
    using assms by (simp add: release_def holding_def pop_off_def Let_def smp_defs intr_get_def)
  have t: "holding h p ?t" "\<not> holding h lk ?t" "c_noff (cpus ?t h) = c_noff (cpus s h)" "intr_get h ?t = 0"
    using assms(3) by (simp_all add: holding_def smp_defs intr_get_def)
  have i: "c_intena (cpus ?t h) = c_intena (cpus s h)"
    using assms(5) by (simp add: push_off_def Let_def smp_defs intr_off_def)
  have "sched h p st swtch ?t = (if c_noff (cpus s h) = 1
      then Ret () (upd_cpu h (\<lambda>c. c\<lparr>c_intena := c_intena (cpus s h)\<rparr>) (swtch ?t))
      else Panic ''sched locks'')"
    unfolding sched_def Let_def i using t assms(6) by simp
  then show ?thesis using a r t by (intro exI [of _ ?t]) simp
qed

theorem sleep_needs_one_lock_witness:
  "\<exists>t s'. bindK (acquire 2 5 demo_has) (\<lambda>_ s. bindK (release 2 3 s) (\<lambda>_. sched 2 5 SLEEPING (\<lambda>s. s)))
     = Ret () s' \<and> holding 2 5 (t :: smp_run) \<and> \<not> holding 2 3 t"
proof -
  have "holding 2 3 demo_has" "lk_locked (locks demo_has 5) = 0" "(5::nat) \<noteq> 3"
    "intr_get 2 demo_has = 0" "0 < c_noff (cpus demo_has 2)" "SLEEPING \<noteq> RUNNING"
    "c_noff (cpus demo_has 2) = 1"
    by (simp_all add: holding_def demo_has_state intr_get_def)
  with sleep_needs_one_lock [of 2 3 demo_has 5 SLEEPING "\<lambda>s. s"] show ?thesis by auto
qed

end
