(* ===== verification/Spec2Isabelle.thy ===== *)
theory Spec2Isabelle
  imports CStrings User_Copy Msgq Spinlock
begin

text \<open>
  Verification of the xv6 kernel for 64-bit RISC-V (\<^verbatim>\<open>src/kernel\<close>), with its additions: message
  queues, threads and signals.

  \<^bold>\<open>How the kernel is modelled.\<close> The globals of the kernel are one record that grows from theory to
  theory: \<open>sched_st\<close> (process table), \<open>mem_st\<close> (byte-addressed memory and free list), \<open>bio_st\<close> (buffer
  cache and disk), \<open>log_st\<close>, \<open>fs_st\<close> (superblock and inode table), \<open>uart_st\<close>, \<open>cons_st\<close>, \<open>pipe_st\<close>, \<open>file_st\<close>,
  \<open>msg_st\<close>. An operation is a function from a state to an outcome: a value and the next state
  (\<open>Ret\<close>), a \<^verbatim>\<open>panic\<close> with its message, a \<^verbatim>\<open>sleep\<close> on a channel, or \<open>Stuck\<close> where the code leaves defined
  behaviour (an access outside an array, a loop that never ends). \<open>okK m P\<close> says that \<open>m\<close> returns and
  its result satisfies \<open>P\<close>; it is a statement of total correctness. Pointers into fixed tables are
  indices, the null pointer is \<open>None\<close>. Pages, page tables, trap frames and user memory are bytes at
  64-bit addresses; on-disk structures (log header, superblock, inodes, directory entries, ELF
  headers) are bytes at their C offsets. Unsigned integers keep their width as words, so that
  wrap-around is the machine's; signed ones are integers.

  \<^bold>\<open>Atomicity.\<close> A critical section under a spin lock is one operation. Theory Spinlock is the
  justification: it runs the lock routines one memory access at a time on any number of processors
  and proves mutual exclusion and that interrupts are off inside. A process that sleeps ends the operation in
  the outcome \<open>Sleep\<close>; loops that can sleep take the position reached as an argument, so that
  a sleeper resumes by calling the loop where it stopped.

  \<^bold>\<open>The theories.\<close>
  \<^item> Prelude: integer types, limits, channels, outcomes and their rules. Riscv: \<^verbatim>\<open>riscv.h\<close> and
    \<^verbatim>\<open>memlayout.h\<close>. CStrings: \<^verbatim>\<open>string.c\<close> and the string half of \<^verbatim>\<open>user/ulib.c\<close>.
  \<^item> Sched: process table, \<^verbatim>\<open>sleep\<close>, \<^verbatim>\<open>wakeup\<close>, \<^verbatim>\<open>kill\<close>. Spinlock: \<^verbatim>\<open>spinlock.c\<close> and \<^verbatim>\<open>sched\<close>. Procs: the
    rest of \<^verbatim>\<open>proc.c\<close> (creation, \<^verbatim>\<open>fork\<close>, \<^verbatim>\<open>exit\<close>, \<^verbatim>\<open>wait\<close>, the scheduler, threads, signals).
  \<^item> Physmem: \<^verbatim>\<open>kalloc.c\<close>. Vm and Vm\_Maps: \<^verbatim>\<open>vm.c\<close>, first the routines and \<^verbatim>\<open>copyin\<close>, then page tables
    as finite maps. User\_Copy: shared facts on user buffers.
  \<^item> Bio: sleep locks and \<^verbatim>\<open>bio.c\<close>. Log: \<^verbatim>\<open>log.c\<close>. Fs\_Block, Fs\_Inode, Fs\_Content, Fs\_Dir: \<^verbatim>\<open>fs.c\<close>
    (bitmap, inodes, file contents, directories and paths).
  \<^item> Ring: circular buffers and the contract \<open>bounded_fifo\<close>. Uart: \<^verbatim>\<open>uart.c\<close>. Printf: \<^verbatim>\<open>printf.c\<close>.
    Console: \<^verbatim>\<open>console.c\<close>. Pipe: \<^verbatim>\<open>pipe.c\<close>. Uart and Pipe interpret the contract.
  \<^item> Files: \<^verbatim>\<open>file.c\<close>. Exec: \<^verbatim>\<open>exec.c\<close>. Sysfile: \<^verbatim>\<open>sysfile.c\<close> and the argument half of \<^verbatim>\<open>syscall.c\<close>. Msgq: \<^verbatim>\<open>msg.c\<close>.

  \<^bold>\<open>What is shown.\<close> The log makes a transaction atomic against a crash at any disk write, also
  during recovery. \<^verbatim>\<open>balloc\<close>, \<^verbatim>\<open>iupdate\<close>, \<^verbatim>\<open>ilock\<close>, \<^verbatim>\<open>readi\<close>, \<^verbatim>\<open>writei\<close>, \<^verbatim>\<open>dirlookup\<close> and \<^verbatim>\<open>skipelem\<close> do what an
  abstract file system of bitmaps, inodes, byte sequences and directories asks. Page-table operations
  implement a map from virtual pages to entries; copies between kernel and user space move exactly the
  bytes the program sees or fail at the first bad page. Pages are handed out once. The rings of
  the serial line, the console and pipes are queues: nothing is lost, duplicated or reordered, and a
  sleeping writer is woken.

  \<^bold>\<open>Bounds.\<close> Loops are structural or have a termination proof, except walks along the buffer list, whose
  fuel \<open>NBUF + 1\<close> is shown to suffice, and the polling loop of the serial line, which consumes the
  readings of the status register.

  \<^bold>\<open>Assumptions.\<close> The disk writes a block of 1024 bytes atomically. What devices present in
  their registers is an input of the state. Addresses the linker chooses are a parameter.

  \<^bold>\<open>Not modelled.\<close> Assembly (\<^verbatim>\<open>entry.S\<close>, \<^verbatim>\<open>kernelvec.S\<close>, \<^verbatim>\<open>swtch.S\<close>, \<^verbatim>\<open>trampoline.S\<close>) and the
  inline assembly of \<^verbatim>\<open>riscv.h\<close>; \<^verbatim>\<open>start.c\<close> and \<^verbatim>\<open>main.c\<close>, which set control registers and call the
  initialisers; the user test programs, which exercise the kernel and are no part of it.
\<close>

end
